(* ===== verification/Prelude.thy ===== *)
theory Prelude
  imports "HOL-Library.Word" "HOL-Library.Monad_Syntax" "HOL-Library.Multiset"
begin

unbundle bit_operations_syntax

text \<open>
  Shared prelude of the development: the machine types of the kernel, the constants of its
  headers, the collections of facts the component proofs use, and generic lemmas on lists,
  cyclic indices and words that more than one component needs.
\<close>

section \<open>Machine types and header constants\<close>

type_synonym u8 = "8 word"
type_synonym u16 = "16 word"
type_synonym u32 = "32 word"
type_synonym u64 = "64 word"

text \<open>\<open>tcb.h\<close>, \<open>percpu.h\<close> and \<open>sched.c\<close>.\<close>

definition STACK_WORDS :: nat where "STACK_WORDS = 512"
definition MAX_CPUS :: nat where "MAX_CPUS = 4"
definition MAX_TASKS :: nat where "MAX_TASKS = 8"

text \<open>The null pointer of C.\<close>

abbreviation NULL :: u64 where "NULL \<equiv> 0"

lemmas header_consts = STACK_WORDS_def MAX_CPUS_def MAX_TASKS_def

named_theorems kernel_defs \<open>definitions of kernel operations, unfolded together\<close>
named_theorems frame_simps \<open>what an operation leaves unchanged\<close>

section \<open>Lists\<close>

lemma set_take_update_append:
  assumes "n < length xs"
  shows "take (Suc n) (xs[n := x]) = take n xs @ [x]"
  using assms by (simp add: take_Suc_conv_app_nth)

lemma take_update_beyond [simp]: "n \<le> m \<Longrightarrow> take n (xs[m := x]) = take n xs"
  by simp

lemma drop_update_self: "j < length xs \<Longrightarrow> drop j (xs[j := x]) = x # drop (Suc j) xs"
  by (simp add: drop_update_swap) (metis Cons_nth_drop_Suc list_update_code(2))

text \<open>Deleting an element of an array by moving the last live element into its place.\<close>

lemma mset_swap_remove:
  assumes "n \<le> length xs" and "i < n"
  shows "mset (take (n - 1) (xs[i := xs ! (n - 1)])) = mset (take n xs) - {#xs ! i#}"
proof -
  let ?m = "n - 1"
  from assms have tn: "take n xs = take ?m xs @ [xs ! ?m]"
    using take_Suc_conv_app_nth [of ?m xs] by simp
  show ?thesis
  proof (cases "i = ?m")
    case True
    with assms tn show ?thesis by simp
  next
    case False
    with assms have i: "i < length (take ?m xs)" by simp
    have "mset (take ?m (xs[i := xs ! ?m])) = mset ((take ?m xs)[i := xs ! ?m])"
      by (simp add: take_update_swap)
    also have "\<dots> = add_mset (xs ! ?m) (mset (take ?m xs) - {#take ?m xs ! i#})"
      using i by (rule mset_update)
    also have "take ?m xs ! i = xs ! i" using i by simp
    also have "add_mset (xs ! ?m) (mset (take ?m xs) - {#xs ! i#})
             = add_mset (xs ! ?m) (mset (take ?m xs)) - {#xs ! i#}"
    proof -
      have "xs ! i \<in># mset (take ?m xs)" using i
        by (metis nth_mem nth_take length_take min_less_iff_conj set_mset_mset)
      then show ?thesis by simp
    qed
    also have "add_mset (xs ! ?m) (mset (take ?m xs)) = mset (take n xs)"
      using tn by simp
    finally show ?thesis .
  qed
qed

lemma distinct_iff_mset: "distinct xs \<longleftrightarrow> (\<forall>x. count (mset xs) x \<le> 1)"
  by (induction xs) (auto simp: le_Suc_eq not_in_iff)

section \<open>Cyclic indices\<close>

text \<open>The positions \<open>(cur + j) mod n\<close> for \<open>j = 1, \<dots>, n\<close> are all positions, each once.\<close>

lemma cyclic_cover:
  fixes cur n idx :: nat
  assumes "idx < n"
  shows "\<exists>j. 1 \<le> j \<and> j \<le> n \<and> (cur + j) mod n = idx"
proof -
  define r where "r = cur mod n"
  have r: "r < n" using assms by (simp add: r_def)
  let ?j = "if r < idx then idx - r else n + idx - r"
  have "(r + ?j) mod n = idx" using r assms by auto
  then have "(cur + ?j) mod n = idx" by (simp add: r_def mod_add_left_eq)
  moreover have "1 \<le> ?j \<and> ?j \<le> n" using r assms by auto
  ultimately show ?thesis by blast
qed

lemma cyclic_inj:
  fixes cur n i j :: nat
  assumes "1 \<le> i" "i \<le> n" "1 \<le> j" "j \<le> n" and "(cur + i) mod n = (cur + j) mod n"
  shows "i = j"
proof -
  have *: "a = b" if "a \<le> b" "1 \<le> a" "b \<le> n" "(cur + a) mod n = (cur + b) mod n" for a b
  proof -
    have "(cur + b) mod n = (cur + a) mod n" using that(4) by simp
    then have "n dvd (cur + b) - (cur + a)" using that(1) by (simp add: mod_eq_dvd_iff_nat)
    then have "n dvd b - a" by simp
    moreover have "b - a < n" using that by simp
    ultimately show ?thesis using that(1) by (metis dvd_imp_le diff_is_0_eq le_antisym linorder_not_le neq0_conv)
  qed
  show ?thesis using *[of i j] *[of j i] assms by (cases "i \<le> j") auto
qed

section \<open>Words\<close>

lemma unat_ucast_u32 [simp]: "unat (ucast (x :: u32) :: u64) = unat x"
proof -
  have "unat x < 2 ^ LENGTH(32)" by (rule unsigned_less)
  then have "unat x < 2 ^ 64" by simp
  then show ?thesis by (simp add: unsigned_ucast_eq take_bit_nat_eq_self)
qed

lemma of_nat_u64_inj: "m < 2 ^ 64 \<Longrightarrow> n < 2 ^ 64 \<Longrightarrow> (of_nat m :: u64) = of_nat n \<Longrightarrow> m = n"
  by (drule arg_cong [of _ _ unat]) (simp add: unat_of_nat)

end
