(* ===== verification/Kernel_State.thy ===== *)
theory Kernel_State
  imports Prelude
begin

text \<open>
  The state every kernel operation works on, and the primitives of the headers: \<open>tcb_t\<close>
  (\<open>tcb.h\<close>), \<open>cpu_local_t\<close>, \<open>this_cpu\<close>, \<open>percpu_init\<close> and \<open>current\<close> (\<open>percpu.h\<close>), \<open>runqueue_t\<close>
  (\<open>sched.c\<close>), the interrupt mask and the spinlock functions as one CPU sees them
  (\<open>spinlock.h\<close>), and the accesses to devices.

  Conventions. A pointer is its address, a 64-bit word, with 0 for null; \<open>tcbs\<close> is the store of
  the task control blocks by address. CPU numbers, array indices and task counts are \<open>nat\<close>: all
  of them are bounded by the array sizes 4 and 8. An operation that may fail to come back is
  \<open>option\<close>-valued: \<open>None\<close> is a call that spins for ever on a lock that is taken, or an array
  access outside its bounds. An operation runs on the CPU given as its argument \<open>c\<close>; the theory
  \<open>Spinlock\<close> shows that a \<open>spin_lock\<close> that runs alone returns exactly when the lock is free,
  which is the meaning \<open>spin_lock\<close> has here.

  Devices are outside the repository. \<open>dev\<close> says what a device register reads as after a given
  history of accesses; it is a parameter that no definition constrains. \<open>io_log\<close> is the history.
\<close>

section \<open>Data\<close>

record tcb =
  tcb_sp :: u64           \<comment> \<open>saved stack pointer, at offset 0 of the block\<close>
  tcb_name :: string
  tcb_entry :: u64        \<comment> \<open>address of the entry function\<close>
  tcb_state :: int        \<comment> \<open>0 = READY, 1 = BLOCKED\<close>
  ewma_load :: u32
  tcb_cpu :: nat          \<comment> \<open>home CPU\<close>
  pinned :: u32

record cpu_local =
  cpu_id :: nat
  curr :: u64             \<comment> \<open>the running task\<close>
  irq_count :: u64
  sched_calls :: u64
  unexpected_switch :: u64
  context_switches :: u64

record runqueue =
  tasks :: "u64 list"     \<comment> \<open>array of \<open>MAX_TASKS\<close> task pointers\<close>
  num_tasks :: nat
  current_idx :: nat
  select_count :: "u64 list"

datatype lock_id = Rq_lock nat | Sem_lock u64 | Uart_lock | Accel_lock

datatype policy_id = Policy_roundrobin | Policy_ewma | Policy_load_aware

text \<open>Accesses a device can see: register reads and writes by width, \<open>dsb; sev\<close>, re-arming of the
  timer, and a hypervisor call with its arguments.\<close>

datatype io = Rd8 u64 | Rd16 u64 | Rd32 u64 | Wr8 u64 u8 | Wr16 u64 u16 | Wr32 u64 u32
  | Sev | Cntp_tval u64 | Cntp_ctl u64 | Hvc u64 u64 u64 u64

record cpu_regs =
  xreg :: "nat \<Rightarrow> u64"      \<comment> \<open>x0 to x30\<close>
  sp_reg :: u64
  pc_reg :: u64
  daif :: u64
  nzcv :: u64              \<comment> \<open>the condition flags, bits 31 to 28\<close>
  elr :: u64               \<comment> \<open>ELR_EL1, SPSR_EL1 and ESR_EL1, which an exception sets\<close>
  spsr :: u64
  esr :: u64
  tpidr :: nat             \<comment> \<open>TPIDR_EL1: which element of \<open>cpu_locals\<close> it points to\<close>

record kernel =
  tcbs :: "u64 \<Rightarrow> tcb"
  mem :: "u64 \<Rightarrow> u64"       \<comment> \<open>the 64-bit words of the stacks, by address\<close>
  regs :: "nat \<Rightarrow> cpu_regs"
  cpu_locals :: "nat \<Rightarrow> cpu_local"
  runqueues :: "nat \<Rightarrow> runqueue"
  locks :: "lock_id \<Rightarrow> u32"  \<comment> \<open>the word of each \<open>spinlock_t\<close>, by the object that embeds it\<close>
  active_policy :: policy_id
  smp_online :: nat
  dev :: "io list \<Rightarrow> u64 \<Rightarrow> u64"
  io_log :: "io list"

text \<open>Updates of one element of the stores.\<close>

abbreviation upd_tcb :: "u64 \<Rightarrow> (tcb \<Rightarrow> tcb) \<Rightarrow> 'z kernel_scheme \<Rightarrow> 'z kernel_scheme" where
  "upd_tcb t f k \<equiv> k\<lparr>tcbs := (tcbs k)(t := f (tcbs k t))\<rparr>"

abbreviation upd_regs :: "nat \<Rightarrow> (cpu_regs \<Rightarrow> cpu_regs) \<Rightarrow> 'z kernel_scheme \<Rightarrow> 'z kernel_scheme" where
  "upd_regs c f k \<equiv> k\<lparr>regs := (regs k)(c := f (regs k c))\<rparr>"

abbreviation upd_local :: "nat \<Rightarrow> (cpu_local \<Rightarrow> cpu_local) \<Rightarrow> 'z kernel_scheme \<Rightarrow> 'z kernel_scheme" where
  "upd_local i f k \<equiv> k\<lparr>cpu_locals := (cpu_locals k)(i := f (cpu_locals k i))\<rparr>"

abbreviation upd_rq :: "nat \<Rightarrow> (runqueue \<Rightarrow> runqueue) \<Rightarrow> 'z kernel_scheme \<Rightarrow> 'z kernel_scheme" where
  "upd_rq i f k \<equiv> k\<lparr>runqueues := (runqueues k)(i := f (runqueues k i))\<rparr>"

abbreviation ready :: "'z kernel_scheme \<Rightarrow> u64 \<Rightarrow> bool" where
  "ready k t \<equiv> tcb_state (tcbs k t) = 0"

section \<open>Per-CPU data\<close>

definition this_cpu :: "nat \<Rightarrow> 'z kernel_scheme \<Rightarrow> cpu_local" where
  "this_cpu c k = cpu_locals k (tpidr (regs k c))"

definition current :: "nat \<Rightarrow> 'z kernel_scheme \<Rightarrow> u64" where
  "current c k = curr (this_cpu c k)"

definition set_current :: "nat \<Rightarrow> u64 \<Rightarrow> 'z kernel_scheme \<Rightarrow> 'z kernel_scheme" where
  "set_current c t k = upd_local (tpidr (regs k c)) (\<lambda>l. l\<lparr>curr := t\<rparr>) k"

definition percpu_init :: "nat \<Rightarrow> nat \<Rightarrow> 'z kernel_scheme \<Rightarrow> 'z kernel_scheme" where
  "percpu_init c i k = upd_regs c (\<lambda>r. r\<lparr>tpidr := i\<rparr>) (upd_local i (\<lambda>l. l\<lparr>cpu_id := i\<rparr>) k)"

section \<open>Interrupt mask and spinlocks\<close>

text \<open>Bit 7 of DAIF is the I bit: \<open>msr daifset, #2\<close> sets it, \<open>msr daifclr, #2\<close> clears it.\<close>

definition DAIF_I :: u64 where "DAIF_I = 0x80"

definition irq_disable_save :: "nat \<Rightarrow> 'z kernel_scheme \<Rightarrow> u64 \<times> 'z kernel_scheme" where
  "irq_disable_save c k = (daif (regs k c), upd_regs c (\<lambda>r. r\<lparr>daif := daif r OR DAIF_I\<rparr>) k)"

definition irq_restore :: "nat \<Rightarrow> u64 \<Rightarrow> 'z kernel_scheme \<Rightarrow> 'z kernel_scheme" where
  "irq_restore c flags k = upd_regs c (\<lambda>r. r\<lparr>daif := flags\<rparr>) k"

definition irq_masked :: "nat \<Rightarrow> 'z kernel_scheme \<Rightarrow> bool" where
  "irq_masked c k \<longleftrightarrow> bit (daif (regs k c)) 7"

definition spin_lock :: "lock_id \<Rightarrow> 'z kernel_scheme \<Rightarrow> 'z kernel_scheme option" where
  "spin_lock l k = (if locks k l = 0 then Some (k\<lparr>locks := (locks k)(l := 1)\<rparr>) else None)"

definition spin_unlock :: "lock_id \<Rightarrow> 'z kernel_scheme \<Rightarrow> 'z kernel_scheme" where
  "spin_unlock l k = k\<lparr>locks := (locks k)(l := 0)\<rparr>"

definition spin_lock_irqsave ::
    "nat \<Rightarrow> lock_id \<Rightarrow> 'z kernel_scheme \<Rightarrow> (u64 \<times> 'z kernel_scheme) option" where
  "spin_lock_irqsave c l k =
     (let (f, k) = irq_disable_save c k in do { k \<leftarrow> spin_lock l k; Some (f, k) })"

definition spin_unlock_irqrestore ::
    "nat \<Rightarrow> lock_id \<Rightarrow> u64 \<Rightarrow> 'z kernel_scheme \<Rightarrow> 'z kernel_scheme" where
  "spin_unlock_irqrestore c l f k = irq_restore c f (spin_unlock l k)"

section \<open>Device accesses\<close>

definition read32 :: "u64 \<Rightarrow> 'z kernel_scheme \<Rightarrow> u32 \<times> 'z kernel_scheme" where
  "read32 a k = (ucast (dev k (io_log k) a), k\<lparr>io_log := io_log k @ [Rd32 a]\<rparr>)"

definition read16 :: "u64 \<Rightarrow> 'z kernel_scheme \<Rightarrow> u16 \<times> 'z kernel_scheme" where
  "read16 a k = (ucast (dev k (io_log k) a), k\<lparr>io_log := io_log k @ [Rd16 a]\<rparr>)"

definition read8 :: "u64 \<Rightarrow> 'z kernel_scheme \<Rightarrow> u8 \<times> 'z kernel_scheme" where
  "read8 a k = (ucast (dev k (io_log k) a), k\<lparr>io_log := io_log k @ [Rd8 a]\<rparr>)"

definition io_write :: "io \<Rightarrow> 'z kernel_scheme \<Rightarrow> 'z kernel_scheme" where
  "io_write x k = k\<lparr>io_log := io_log k @ [x]\<rparr>"

definition dsb_sev :: "'z kernel_scheme \<Rightarrow> 'z kernel_scheme" where
  "dsb_sev k = io_write Sev k"

section \<open>Laws of the primitives\<close>

text \<open>The state after the accesses \<open>l\<close>.\<close>

definition did :: "io list \<Rightarrow> 'z kernel_scheme \<Rightarrow> 'z kernel_scheme" where
  "did l k = k\<lparr>io_log := io_log k @ l\<rparr>"

lemma did_did [simp]: "did l' (did l k) = did (l @ l') k"
  by (simp add: did_def)

lemma did_Nil [simp]: "did [] k = k"
  by (simp add: did_def)

lemma did_frame [frame_simps]:
  "tcbs (did l k) = tcbs k" "mem (did l k) = mem k" "regs (did l k) = regs k" "cpu_locals (did l k) = cpu_locals k"
  "runqueues (did l k) = runqueues k" "locks (did l k) = locks k" "active_policy (did l k) = active_policy k"
  "smp_online (did l k) = smp_online k" "dev (did l k) = dev k" "io_log (did l k) = io_log k @ l"
  "kernel.more (did l k) = kernel.more k" "current c (did l k) = current c k"
  by (simp_all add: did_def current_def this_cpu_def)

lemmas lock_defs = spin_lock_irqsave_def spin_unlock_irqrestore_def spin_lock_def spin_unlock_def
  irq_disable_save_def irq_restore_def

lemma spin_lock_irqsave_free:
  "locks k l = 0 \<Longrightarrow> spin_lock_irqsave c l k =
     Some (daif (regs k c), upd_regs c (\<lambda>r. r\<lparr>daif := daif r OR DAIF_I\<rparr>) k\<lparr>locks := (locks k)(l := 1)\<rparr>)"
  by (simp add: lock_defs)

lemma spin_lock_irqsave_held [simp]: "locks k l \<noteq> 0 \<Longrightarrow> spin_lock_irqsave c l k = None"
  by (simp add: lock_defs)

lemma spin_lock_irqsave_Some:
  "spin_lock_irqsave c l k = Some (f, k') \<longleftrightarrow>
     locks k l = 0 \<and> f = daif (regs k c) \<and>
     k' = upd_regs c (\<lambda>r. r\<lparr>daif := daif r OR DAIF_I\<rparr>) k\<lparr>locks := (locks k)(l := 1)\<rparr>"
  by (auto simp: lock_defs)

text \<open>A critical section whose body does not depend on locks and interrupt masks is its body.\<close>

abbreviation masked :: "nat \<Rightarrow> u64 \<Rightarrow> (lock_id \<Rightarrow> u32) \<Rightarrow> 'z kernel_scheme \<Rightarrow> 'z kernel_scheme \<Rightarrow> 'z kernel_scheme" where
  "masked c d m k0 k \<equiv> k\<lparr>regs := (regs k0)(c := (regs k0 c)\<lparr>daif := d\<rparr>), locks := m\<rparr>"

lemma critical_section:
  assumes "locks k l = 0" and "\<And>d m. W (masked c d m k k) = masked c d m k (W k)"
    and "regs (W k) = regs k" "locks (W k) = locks k"
  shows "do { (f, k) \<leftarrow> spin_lock_irqsave c l k; Some (spin_unlock_irqrestore c l f (W k)) } = Some (W k)"
proof -
  have "spin_lock_irqsave c l k =
      Some (daif (regs k c), masked c (daif (regs k c) OR DAIF_I) ((locks k)(l := 1)) k k)"
    using assms(1) by (simp add: lock_defs)
  moreover have "(W k)\<lparr>locks := locks k, regs := regs k\<rparr> = W k"
    by (rule kernel.equality) (simp_all add: assms(3,4))
  ultimately show ?thesis using assms(1)
    by (simp only: bind.bind_lunit prod.case assms(2)) (simp add: lock_defs fun_upd_idem)
qed

lemma masked_or_DAIF_I [simp]: "bit (f OR DAIF_I) 7"
  by (simp add: DAIF_I_def bit_or_iff)

section \<open>A sample state\<close>

text \<open>Four CPUs with empty run queues, every lock free, every device register reading 0: the state
  the witnesses start from.\<close>

definition sample_regs :: cpu_regs where
  "sample_regs = \<lparr>xreg = (\<lambda>n. of_nat n), sp_reg = 0x40001800, pc_reg = 0, daif = DAIF_I, nzcv = 0, elr = 0, spsr = 0, esr = 0, tpidr = 0\<rparr>"

definition sample_tcb :: tcb where
  "sample_tcb = \<lparr>tcb_sp = 0, tcb_name = ''worker'', tcb_entry = 0, tcb_state = 0, ewma_load = 0,
     tcb_cpu = 0, pinned = 0\<rparr>"

definition sample_rq :: runqueue where
  "sample_rq = \<lparr>tasks = replicate 8 0, num_tasks = 0, current_idx = 0, select_count = replicate 8 0\<rparr>"

definition sample_kernel :: kernel where
  "sample_kernel = \<lparr>tcbs = (\<lambda>_. sample_tcb), mem = (\<lambda>_. 0),
     regs = (\<lambda>c. sample_regs\<lparr>tpidr := c\<rparr>),
     cpu_locals = (\<lambda>c. \<lparr>cpu_id = c, curr = 0, irq_count = 0, sched_calls = 0,
        unexpected_switch = 0, context_switches = 0\<rparr>),
     runqueues = (\<lambda>_. sample_rq), locks = (\<lambda>_. 0), active_policy = Policy_load_aware,
     smp_online = 4, dev = (\<lambda>_ _. 0), io_log = []\<rparr>"

lemmas sample_defs = sample_kernel_def sample_regs_def sample_tcb_def sample_rq_def

end
