(* ===== verification/Context_Switch.thy ===== *)
theory Context_Switch
  imports Kernel_State
begin

text \<open>
  The context switch (\<open>kernel/switch.S\<close>, without the debug hooks) over the registers of a CPU and
  the stack memory, instruction by instruction, and the first frame of a task
  (\<open>task_init\<close> and \<open>task_trampoline\<close> of \<open>kernel/task.c\<close>). The theorems: a switch away and back
  restores everything AAPCS64 lets the caller rely on, the interrupt mask included, on whichever
  CPU the task is resumed; and the frame \<open>task_init\<close> builds is the one the pop sequence expects.
\<close>

section \<open>Instructions on the stack\<close>

definition get_x :: "nat \<Rightarrow> nat \<Rightarrow> 'z kernel_scheme \<Rightarrow> u64" where
  "get_x c n k = xreg (regs k c) n"

definition set_x :: "nat \<Rightarrow> nat \<Rightarrow> u64 \<Rightarrow> 'z kernel_scheme \<Rightarrow> 'z kernel_scheme" where
  "set_x c n v k = upd_regs c (\<lambda>r. r\<lparr>xreg := (xreg r)(n := v)\<rparr>) k"

definition set_sp :: "nat \<Rightarrow> u64 \<Rightarrow> 'z kernel_scheme \<Rightarrow> 'z kernel_scheme" where
  "set_sp c v k = upd_regs c (\<lambda>r. r\<lparr>sp_reg := v\<rparr>) k"

definition store64 :: "u64 \<Rightarrow> u64 \<Rightarrow> 'z kernel_scheme \<Rightarrow> 'z kernel_scheme" where
  "store64 a v k = k\<lparr>mem := (mem k)(a := v)\<rparr>"

text \<open>\<open>stp xa, xb, [sp, #-16]!\<close>, \<open>str xa, [sp, #-16]!\<close>, \<open>ldp xa, xb, [sp], #16\<close> and
  \<open>ldr xa, [sp], #16\<close>.\<close>

definition stp_push :: "nat \<Rightarrow> nat \<Rightarrow> nat \<Rightarrow> 'z kernel_scheme \<Rightarrow> 'z kernel_scheme" where
  "stp_push c a b k =
     (let s = sp_reg (regs k c) - 16
      in set_sp c s (store64 (s + 8) (get_x c b k) (store64 s (get_x c a k) k)))"

definition str_push :: "nat \<Rightarrow> nat \<Rightarrow> 'z kernel_scheme \<Rightarrow> 'z kernel_scheme" where
  "str_push c a k =
     (let s = sp_reg (regs k c) - 16 in set_sp c s (store64 s (get_x c a k) k))"

definition ldp_pop :: "nat \<Rightarrow> nat \<Rightarrow> nat \<Rightarrow> 'z kernel_scheme \<Rightarrow> 'z kernel_scheme" where
  "ldp_pop c a b k =
     (let s = sp_reg (regs k c)
      in set_sp c (s + 16) (set_x c b (mem k (s + 8)) (set_x c a (mem k s) k)))"

definition ldr_pop :: "nat \<Rightarrow> nat \<Rightarrow> 'z kernel_scheme \<Rightarrow> 'z kernel_scheme" where
  "ldr_pop c a k =
     (let s = sp_reg (regs k c) in set_sp c (s + 16) (set_x c a (mem k s) k))"

section \<open>switch\_to\<close>

text \<open>The save half: capture and mask DAIF, push the callee-saved registers and the old DAIF.\<close>

definition switch_save :: "nat \<Rightarrow> 'z kernel_scheme \<Rightarrow> 'z kernel_scheme" where
  "switch_save c k =
    (let k = set_x c 3 (daif (regs k c)) k;
         k = upd_regs c (\<lambda>r. r\<lparr>daif := daif r OR DAIF_I\<rparr>) k;
         k = stp_push c 19 20 k;
         k = stp_push c 21 22 k;
         k = stp_push c 23 24 k;
         k = stp_push c 25 26 k;
         k = stp_push c 27 28 k;
         k = stp_push c 29 30 k
     in str_push c 3 k)"

text \<open>The restore half: pop in the opposite order, restore DAIF last, and return.\<close>

definition switch_restore :: "nat \<Rightarrow> 'z kernel_scheme \<Rightarrow> 'z kernel_scheme" where
  "switch_restore c k =
    (let k = ldr_pop c 3 k;
         k = ldp_pop c 29 30 k;
         k = ldp_pop c 27 28 k;
         k = ldp_pop c 25 26 k;
         k = ldp_pop c 23 24 k;
         k = ldp_pop c 21 22 k;
         k = ldp_pop c 19 20 k;
         k = upd_regs c (\<lambda>r. r\<lparr>daif := get_x c 3 k\<rparr>) k
     in upd_regs c (\<lambda>r. r\<lparr>pc_reg := xreg r 30\<rparr>) k)"

text \<open>
  \<open>old_sp_ptr\<close> is \<open>&prev->sp\<close>, which is the address of the block itself (the static assertion of
  \<open>tcb.h\<close> puts \<open>sp\<close> at offset 0), so the store through it sets the saved stack pointer of that
  block.
\<close>

definition switch_to :: "nat \<Rightarrow> u64 \<Rightarrow> u64 \<Rightarrow> 'z kernel_scheme \<Rightarrow> 'z kernel_scheme" where
  "switch_to c old_sp_ptr new_sp k =
    (let k = switch_save c k;
         k = set_x c 19 old_sp_ptr k;
         k = set_x c 20 new_sp k;
         k = set_x c 21 (sp_reg (regs k c)) k;
         k = upd_tcb old_sp_ptr (\<lambda>t. t\<lparr>tcb_sp := get_x c 21 k\<rparr>) k;
         k = set_sp c (get_x c 20 k) k
     in switch_restore c k)"

section \<open>Tasks\<close>

definition CANARY :: u64 where "CANARY = 0xC0FFEEDEADBEEF"

text \<open>\<open>&t->stack[i]\<close>: the stack array is at offset 8 of the block.\<close>

definition stack_addr :: "u64 \<Rightarrow> nat \<Rightarrow> u64" where
  "stack_addr t i = t + 8 + 8 * of_nat i"

fun zero_words :: "nat \<Rightarrow> u64 \<Rightarrow> (u64 \<Rightarrow> u64) \<Rightarrow> (u64 \<Rightarrow> u64)" where
  "zero_words 0 a m = m"
| "zero_words (Suc n) a m = zero_words n (a + 8) (m(a := 0))"

text \<open>\<open>tramp\<close> is the address of \<open>task_trampoline\<close>, which the linker fixes.\<close>

definition task_init :: "u64 \<Rightarrow> u64 \<Rightarrow> u64 \<Rightarrow> 'z kernel_scheme \<Rightarrow> 'z kernel_scheme" where
  "task_init tramp t entry k =
    (let k = upd_tcb t (\<lambda>x. x\<lparr>tcb_entry := entry\<rparr>) k;
         k = store64 (stack_addr t 0) CANARY k;
         k = store64 (stack_addr t (STACK_WORDS - 1)) CANARY k;
         top = stack_addr t (STACK_WORDS - 1);
         s = top - 112;
         k = k\<lparr>mem := zero_words 14 s (mem k)\<rparr>;
         k = store64 s 0 k;
         k = store64 (s + 8 * 3) tramp k
     in upd_tcb t (\<lambda>x. x\<lparr>tcb_sp := s\<rparr>) k)"

text \<open>\<open>task_trampoline\<close>: unmask interrupts and jump to the entry of the running task.\<close>

definition task_trampoline :: "nat \<Rightarrow> 'z kernel_scheme \<Rightarrow> 'z kernel_scheme" where
  "task_trampoline c k =
    (let k = upd_regs c (\<lambda>r. r\<lparr>daif := daif r AND NOT DAIF_I\<rparr>) k
     in upd_regs c (\<lambda>r. r\<lparr>pc_reg := tcb_entry (tcbs k (current c k))\<rparr>) k)"

section \<open>The saved frame\<close>

text \<open>The layout documented in \<open>task_init\<close>: DAIF at offset 0, then the pairs (x29, x30), (x27, x28),
  down to (x19, x20).\<close>

definition frame_addrs :: "u64 \<Rightarrow> u64 list" where
  "frame_addrs a = map (\<lambda>i. a + 8 * of_nat i) [0..<14]"

definition frame_holds :: "(u64 \<Rightarrow> u64) \<Rightarrow> u64 \<Rightarrow> cpu_regs \<Rightarrow> bool" where
  "frame_holds m a r \<longleftrightarrow>
     m a = daif r \<and> m (a + 16) = xreg r 29 \<and> m (a + 24) = xreg r 30 \<and>
     m (a + 32) = xreg r 27 \<and> m (a + 40) = xreg r 28 \<and> m (a + 48) = xreg r 25 \<and>
     m (a + 56) = xreg r 26 \<and> m (a + 64) = xreg r 23 \<and> m (a + 72) = xreg r 24 \<and>
     m (a + 80) = xreg r 21 \<and> m (a + 88) = xreg r 22 \<and> m (a + 96) = xreg r 19 \<and>
     m (a + 104) = xreg r 20"

lemmas insn_defs = get_x_def set_x_def set_sp_def store64_def stp_push_def str_push_def
  ldp_pop_def ldr_pop_def Let_def

lemma frame_addrs_expand:
  "frame_addrs a = [a, a + 8, a + 16, a + 24, a + 32, a + 40, a + 48, a + 56, a + 64, a + 72,
     a + 80, a + 88, a + 96, a + 104]"
  by (simp add: frame_addrs_def upt_rec)

lemma frame_holds_cong:
  assumes "\<forall>x\<in>set (frame_addrs a). m' x = m x"
  shows "frame_holds m' a r = frame_holds m a r"
  using assms by (simp add: frame_holds_def frame_addrs_expand)

text \<open>What the save half does: the stack pointer drops by 112 and the frame holds the registers.\<close>

lemma push_addrs:
  fixes b :: u64
  shows "b + 112 - 16 = b + 96" "b + 96 - 16 = b + 80" "b + 80 - 16 = b + 64" "b + 64 - 16 = b + 48"
    "b + 48 - 16 = b + 32" "b + 32 - 16 = b + 16" "b + 16 - 16 = b"
  by (simp_all add: algebra_simps)

lemma switch_save_regs:
  assumes "sp_reg (regs k c) = b + 112"
  shows "regs (switch_save c k) = (regs k)(c := (regs k c)\<lparr>xreg := (xreg (regs k c))(3 := daif (regs k c)),
           daif := daif (regs k c) OR DAIF_I, sp_reg := b\<rparr>)"
  using assms by (simp add: switch_save_def insn_defs push_addrs)

lemma switch_save_mem:
  assumes "sp_reg (regs k c) = b + 112"
  shows "mem (switch_save c k) =
     (let x = xreg (regs k c) in
      (mem k)(b + 96 := x 19, b + 104 := x 20, b + 80 := x 21, b + 88 := x 22, b + 64 := x 23,
        b + 72 := x 24, b + 48 := x 25, b + 56 := x 26, b + 32 := x 27, b + 40 := x 28,
        b + 16 := x 29, b + 24 := x 30, b := daif (regs k c)))"
  using assms by (simp add: switch_save_def insn_defs push_addrs add.assoc) (simp add: add.commute)

lemma switch_save_spec:
  assumes "sp_reg (regs k c) = b + 112"
  shows "sp_reg (regs (switch_save c k) c) = b"
    and "frame_holds (mem (switch_save c k)) b (regs k c)"
    and "\<And>x. x \<notin> set (frame_addrs b) \<Longrightarrow> mem (switch_save c k) x = mem k x"
    and "daif (regs (switch_save c k) c) = daif (regs k c) OR DAIF_I"
  using switch_save_regs [OF assms] switch_save_mem [OF assms]
  by (simp_all add: frame_holds_def frame_addrs_expand Let_def)

lemma switch_save_frame [simp]:
  "tcbs (switch_save c k) = tcbs k" "d \<noteq> c \<Longrightarrow> regs (switch_save c k) d = regs k d"
  "cpu_locals (switch_save c k) = cpu_locals k" "runqueues (switch_save c k) = runqueues k"
  "locks (switch_save c k) = locks k" "active_policy (switch_save c k) = active_policy k"
  "smp_online (switch_save c k) = smp_online k" "dev (switch_save c k) = dev k"
  "io_log (switch_save c k) = io_log k" "kernel.more (switch_save c k) = kernel.more k"
  "tpidr (regs (switch_save c k) e) = tpidr (regs k e)"
  by (simp_all add: switch_save_def insn_defs)

lemma switch_restore_spec:
  assumes "frame_holds (mem k) (sp_reg (regs k c)) r"
  shows "\<And>n. n \<in> {19..30} \<Longrightarrow> xreg (regs (switch_restore c k) c) n = xreg r n"
    and "daif (regs (switch_restore c k) c) = daif r"
    and "sp_reg (regs (switch_restore c k) c) = sp_reg (regs k c) + 112"
    and "pc_reg (regs (switch_restore c k) c) = xreg r 30"
proof -
  have e: "(n \<in> {19..30::nat}) = (n = 19 \<or> n = 20 \<or> n = 21 \<or> n = 22 \<or> n = 23 \<or> n = 24 \<or> n = 25 \<or>
     n = 26 \<or> n = 27 \<or> n = 28 \<or> n = 29 \<or> n = 30)" for n
    unfolding atLeastAtMost_iff by presburger
  show "\<And>n. n \<in> {19..30} \<Longrightarrow> xreg (regs (switch_restore c k) c) n = xreg r n"
    using assms unfolding e
    by (elim disjE) (simp_all add: switch_restore_def insn_defs frame_holds_def add.assoc)
  show "daif (regs (switch_restore c k) c) = daif r"
    "sp_reg (regs (switch_restore c k) c) = sp_reg (regs k c) + 112"
    "pc_reg (regs (switch_restore c k) c) = xreg r 30"
    using assms by (simp_all add: switch_restore_def insn_defs frame_holds_def add.assoc)
qed

lemma switch_restore_frame [simp]:
  "tcbs (switch_restore c k) = tcbs k" "mem (switch_restore c k) = mem k"
  "d \<noteq> c \<Longrightarrow> regs (switch_restore c k) d = regs k d"
  "cpu_locals (switch_restore c k) = cpu_locals k" "runqueues (switch_restore c k) = runqueues k"
  "locks (switch_restore c k) = locks k" "active_policy (switch_restore c k) = active_policy k"
  "smp_online (switch_restore c k) = smp_online k" "dev (switch_restore c k) = dev k"
  "io_log (switch_restore c k) = io_log k" "kernel.more (switch_restore c k) = kernel.more k"
  "tpidr (regs (switch_restore c k) e) = tpidr (regs k e)"
  by (simp_all add: switch_restore_def insn_defs)

section \<open>switch\_to as a whole\<close>

lemma switch_to_unfold:
  "switch_to c p ns k =
     switch_restore c
       (upd_regs c (\<lambda>r. r\<lparr>xreg := (xreg r)(19 := p, 20 := ns, 21 := sp_reg (regs (switch_save c k) c)),
                          sp_reg := ns\<rparr>)
        (upd_tcb p (\<lambda>t. t\<lparr>tcb_sp := sp_reg (regs (switch_save c k) c)\<rparr>) (switch_save c k)))"
  by (simp add: switch_to_def insn_defs)

lemma switch_to_frame [frame_simps]:
  "runqueues (switch_to c p ns k) = runqueues k" "cpu_locals (switch_to c p ns k) = cpu_locals k"
  "locks (switch_to c p ns k) = locks k" "active_policy (switch_to c p ns k) = active_policy k"
  "smp_online (switch_to c p ns k) = smp_online k" "dev (switch_to c p ns k) = dev k"
  "io_log (switch_to c p ns k) = io_log k" "kernel.more (switch_to c p ns k) = kernel.more k"
  "tpidr (regs (switch_to c p ns k) d) = tpidr (regs k d)"
  "d \<noteq> c \<Longrightarrow> regs (switch_to c p ns k) d = regs k d"
  by (simp_all add: switch_to_unfold)

lemma switch_to_tcbs [frame_simps]:
  "tcbs (switch_to c p ns k) = (tcbs k)(p := (tcbs k p)\<lparr>tcb_sp := sp_reg (regs k c) - 112\<rparr>)"
proof -
  have "sp_reg (regs (switch_save c k) c) = sp_reg (regs k c) - 112"
    by (rule switch_save_spec(1)) simp
  then show ?thesis by (simp add: switch_to_unfold)
qed

lemma switch_to_mem:
  "mem (switch_to c p ns k) = mem (switch_save c k)"
  by (simp add: switch_to_unfold)

text \<open>The context being left is in a frame just below the old stack pointer.\<close>

lemma switch_to_saves:
  "frame_holds (mem (switch_to c p ns k)) (sp_reg (regs k c) - 112) (regs k c)"
  unfolding switch_to_mem by (rule switch_save_spec(2)) simp

text \<open>The context of the new frame is installed, provided saving the old one did not overwrite it.\<close>

lemma switch_to_restores:
  assumes "frame_holds (mem k) ns r"
    and "set (frame_addrs (sp_reg (regs k c) - 112)) \<inter> set (frame_addrs ns) = {}"
  shows "n \<in> {19..30} \<Longrightarrow> xreg (regs (switch_to c p ns k) c) n = xreg r n"
    and "daif (regs (switch_to c p ns k) c) = daif r"
    and "sp_reg (regs (switch_to c p ns k) c) = ns + 112"
    and "pc_reg (regs (switch_to c p ns k) c) = xreg r 30"
proof -
  let ?b = "sp_reg (regs k c) - 112"
  have "mem (switch_save c k) x = mem k x" if "x \<in> set (frame_addrs ns)" for x
    using that assms(2) by (intro switch_save_spec(3) [of k c ?b]) auto
  then have "frame_holds (mem (switch_save c k)) ns r"
    using assms(1) frame_holds_cong [of ns "mem (switch_save c k)" "mem k" r] by blast
  then have *: "frame_holds (mem k1) (sp_reg (regs k1 c)) r" "sp_reg (regs k1 c) = ns"
    if "k1 = upd_regs c (\<lambda>r. r\<lparr>xreg := (xreg r)(19 := p, 20 := ns, 21 := sp_reg (regs (switch_save c k) c)),
                          sp_reg := ns\<rparr>)
        (upd_tcb p (\<lambda>t. t\<lparr>tcb_sp := sp_reg (regs (switch_save c k) c)\<rparr>) (switch_save c k))" for k1 :: "'a kernel_scheme"
    using that by simp_all
  show "n \<in> {19..30} \<Longrightarrow> xreg (regs (switch_to c p ns k) c) n = xreg r n"
    "daif (regs (switch_to c p ns k) c) = daif r" "sp_reg (regs (switch_to c p ns k) c) = ns + 112"
    "pc_reg (regs (switch_to c p ns k) c) = xreg r 30"
    unfolding switch_to_unfold using switch_restore_spec [OF *(1) [OF refl]] *(2) [OF refl]
    by simp_all
qed

section \<open>The first frame of a task\<close>

lemma zero_words_frame:
  "zero_words 14 a m = m(a := 0, a + 8 := 0, a + 16 := 0, a + 24 := 0, a + 32 := 0, a + 40 := 0,
     a + 48 := 0, a + 56 := 0, a + 64 := 0, a + 72 := 0, a + 80 := 0, a + 88 := 0, a + 96 := 0,
     a + 104 := 0)"
  by (simp add: eval_nat_numeral add.assoc)

definition first_regs :: "u64 \<Rightarrow> cpu_regs" where
  "first_regs tramp = \<lparr>xreg = (\<lambda>_. 0)(30 := tramp), sp_reg = 0, pc_reg = 0, daif = 0, nzcv = 0, elr = 0, spsr = 0, esr = 0, tpidr = 0\<rparr>"

lemma stack_top: "stack_addr t (STACK_WORDS - 1) = t + 4096"
  by (simp add: stack_addr_def STACK_WORDS_def)

lemma frame_base: "stack_addr t (STACK_WORDS - 1) - 112 = t + 3984"
  unfolding stack_top by (simp add: algebra_simps)

lemma task_init_sp [simp]: "tcb_sp (tcbs (task_init tramp t entry k) t) = t + 3984"
  unfolding task_init_def Let_def frame_base by (simp add: store64_def)

lemma task_init_mem:
  "mem (task_init tramp t entry k) =
     (zero_words 14 (t + 3984) ((mem k)(t + 8 := CANARY, t + 4096 := CANARY)))
       (t + 3984 := 0, t + 4008 := tramp)"
  unfolding task_init_def Let_def frame_base stack_top
  by (simp add: store64_def stack_addr_def add.assoc) (simp add: add.commute)

lemma task_init_frame [frame_simps]:
  "regs (task_init tramp t entry k) = regs k" "cpu_locals (task_init tramp t entry k) = cpu_locals k"
  "runqueues (task_init tramp t entry k) = runqueues k" "locks (task_init tramp t entry k) = locks k"
  "tcb_state (tcbs (task_init tramp t entry k) u) = tcb_state (tcbs k u)"
  "tcb_cpu (tcbs (task_init tramp t entry k) u) = tcb_cpu (tcbs k u)"
  by (auto simp: task_init_def Let_def store64_def)

lemma task_init_frame_holds:
  "frame_holds (mem (task_init tramp t entry k)) (t + 3984) (first_regs tramp)"
  by (simp add: task_init_mem zero_words_frame frame_holds_def first_regs_def add.assoc)

section \<open>Properties\<close>

text \<open>C22: a context switch away and back is invisible to the task: if task \<open>prev\<close> is switched out on
  CPU \<open>c\<close> and later, after anything that leaves its saved frame and saved stack pointer alone,
  switched in on any CPU \<open>d\<close>, then \<open>d\<close> continues at the return address of \<open>prev\<close>'s call with its
  stack pointer, its callee-saved registers x19 to x30 and its interrupt mask.\<close>

theorem switch_to_round_trip:
  assumes k1: "k1 = switch_to c prev ns k"
    and sp: "tcb_sp (tcbs k2 prev) = tcb_sp (tcbs k1 prev)"
    and frame: "\<forall>a\<in>set (frame_addrs (tcb_sp (tcbs k1 prev))). mem k2 a = mem k1 a"
    and disj: "set (frame_addrs (sp_reg (regs k2 d) - 112)) \<inter> set (frame_addrs (tcb_sp (tcbs k2 prev))) = {}"
    and k3: "k3 = switch_to d other (tcb_sp (tcbs k2 prev)) k2"
  shows "(\<forall>n\<in>{19..30}. xreg (regs k3 d) n = xreg (regs k c) n) \<and>
         sp_reg (regs k3 d) = sp_reg (regs k c) \<and> daif (regs k3 d) = daif (regs k c) \<and>
         pc_reg (regs k3 d) = xreg (regs k c) 30"
proof -
  let ?f = "sp_reg (regs k c) - 112"
  have f: "tcb_sp (tcbs k1 prev) = ?f" by (simp add: k1 switch_to_tcbs)
  have "frame_holds (mem k1) ?f (regs k c)" unfolding k1 by (rule switch_to_saves)
  then have "frame_holds (mem k2) ?f (regs k c)"
    using frame f frame_holds_cong [of ?f "mem k2" "mem k1"] by simp
  from switch_to_restores [OF this, of d] disj sp f show ?thesis by (auto simp: k3)
qed

text \<open>C28: the first activation of a task: after \<open>task_init\<close> (and anything that leaves the frame and
  the saved stack pointer alone) the first \<open>switch_to\<close> into the task lands in \<open>task_trampoline\<close>
  with the stack pointer at the top of its stack, x19 to x29 zero and interrupts unmasked, and the
  trampoline continues at the task's entry.\<close>

theorem task_first_activation:
  assumes k1: "k1 = task_init tramp t entry k"
    and sp: "tcb_sp (tcbs k2 t) = tcb_sp (tcbs k1 t)" and en: "tcb_entry (tcbs k2 t) = tcb_entry (tcbs k1 t)"
    and frame: "\<forall>a\<in>set (frame_addrs (tcb_sp (tcbs k1 t))). mem k2 a = mem k1 a"
    and disj: "set (frame_addrs (sp_reg (regs k2 d) - 112)) \<inter> set (frame_addrs (tcb_sp (tcbs k2 t))) = {}"
    and k3: "k3 = switch_to d other (tcb_sp (tcbs k2 t)) k2" and cur: "current d k3 = t"
  shows "pc_reg (regs k3 d) = tramp \<and> daif (regs k3 d) = 0 \<and>
         sp_reg (regs k3 d) = stack_addr t (STACK_WORDS - 1) \<and>
         (\<forall>n\<in>{19..29}. xreg (regs k3 d) n = 0) \<and>
         pc_reg (regs (task_trampoline d k3) d) = entry \<and> \<not> irq_masked d (task_trampoline d k3)"
proof -
  have s1: "tcb_sp (tcbs k1 t) = t + 3984" by (simp add: k1)
  have "frame_holds (mem k2) (t + 3984) (first_regs tramp)"
    using frame frame_holds_cong [of "t + 3984" "mem k2" "mem k1"] task_init_frame_holds k1 s1 by metis
  note r = switch_to_restores [OF this, where c = d and p = other, folded s1, folded sp, OF disj, folded k3]
  have "tcb_entry (tcbs k3 t) = entry"
    using en by (auto simp: k3 switch_to_tcbs k1 task_init_def Let_def store64_def)
  moreover have "current d (upd_regs d f k3) = current d k3" if "\<And>x. tpidr (f x) = tpidr x" for f
    by (simp add: current_def this_cpu_def that)
  ultimately show ?thesis unfolding stack_top using r s1 sp cur
    by (simp add: first_regs_def task_trampoline_def Let_def irq_masked_def add.commute)
qed

text \<open>The stack \<open>task_init\<close> prepares: both canaries are in place, the frame lies between them
  inside the task's own stack array, and the stack pointer is 16-byte aligned as the architecture
  demands, for every 16-byte aligned block that fits in the address space.\<close>

lemma task_init_stack:
  assumes "unat t mod 16 = 0" and "unat t + 0x1030 \<le> 2 ^ 64"
  shows "mem (task_init tramp t entry k) (stack_addr t 0) = CANARY \<and>
         mem (task_init tramp t entry k) (stack_addr t (STACK_WORDS - 1)) = CANARY \<and>
         stack_addr t 0 < tcb_sp (tcbs (task_init tramp t entry k) t) \<and>
         (\<forall>a\<in>set (frame_addrs (tcb_sp (tcbs (task_init tramp t entry k) t))).
            stack_addr t 0 < a \<and> a < stack_addr t (STACK_WORDS - 1)) \<and>
         unat (tcb_sp (tcbs (task_init tramp t entry k) t)) mod 16 = 0"
proof -
  have add: "unat (t + of_nat n) = unat t + n" if "n \<le> 4096" for n :: nat
    using that assms(2) by (simp add: unat_word_ariths unat_of_nat)
  have lt: "t + of_nat m < t + of_nat n" if "m < n" "n \<le> 4096" for m n :: nat
    using that add [of m] add [of n] by (simp add: word_less_nat_alt)
  have a: "set (frame_addrs (t + 3984)) = (\<lambda>i. t + of_nat (3984 + 8 * i)) ` {0..<14}"
    by (auto simp: frame_addrs_def add.assoc)
  have "\<forall>a\<in>set (frame_addrs (t + 3984)). t + 8 < a \<and> a < t + 4096"
  proof
    fix x assume "x \<in> set (frame_addrs (t + 3984))"
    then obtain i :: nat where i: "i < 14" "x = t + of_nat (3984 + 8 * i)" unfolding a by auto
    then have "t + of_nat 8 < x \<and> x < t + of_nat 4096"
      unfolding i(2) by (intro conjI lt) simp_all
    then show "t + 8 < x \<and> x < t + 4096" by simp
  qed
  moreover have "unat (t + 3984) mod 16 = 0"
    using add [of 3984] assms(1) by (simp add: mod_add_left_eq [symmetric])
  moreover have "t + 8 < t + 3984" using lt [of 8 3984] by simp
  ultimately show ?thesis unfolding stack_top
    by (simp add: stack_addr_def [of t 0] task_init_mem zero_words_frame add.assoc)
qed

theorem switch_to_round_trip_witness:
  "\<exists>k3 :: kernel. xreg (regs k3 1) 25 = 25 \<and> sp_reg (regs k3 1) = 0x40001800 \<and> daif (regs k3 1) = DAIF_I"
proof -
  let ?k1 = "switch_to 0 0x40001000 0x40003F90 sample_kernel"
  let ?k2 = "upd_regs 1 (\<lambda>r. r\<lparr>sp_reg := 0x40004800\<rparr>) ?k1"
  let ?k3 = "switch_to 1 0x40005000 (tcb_sp (tcbs ?k2 0x40001000)) ?k2"
  have "set (frame_addrs (sp_reg (regs ?k2 1) - 112)) \<inter>
        set (frame_addrs (tcb_sp (tcbs ?k2 0x40001000))) = {}"
    by (simp add: switch_to_tcbs frame_addrs_expand sample_defs)
  from switch_to_round_trip [of ?k1 0 "0x40001000" "0x40003F90" sample_kernel ?k2 1 ?k3 "0x40005000",
      OF refl _ _ this refl]
  have r: "(\<forall>n\<in>{19..30}. xreg (regs ?k3 1) n = xreg (regs sample_kernel 0) n) \<and>
    sp_reg (regs ?k3 1) = sp_reg (regs sample_kernel 0) \<and> daif (regs ?k3 1) = daif (regs sample_kernel 0)"
    by simp
  have s: "xreg (regs sample_kernel 0) 25 = 25" "sp_reg (regs sample_kernel 0) = 0x40001800"
    "daif (regs sample_kernel 0) = DAIF_I" by (simp_all add: sample_defs)
  have m: "(25::nat) \<in> {19..30}" by simp
  show ?thesis
    using bspec [OF conjunct1 [OF r] m] conjunct1 [OF conjunct2 [OF r]] conjunct2 [OF conjunct2 [OF r]]
    unfolding s by blast
qed

theorem task_first_activation_witness:
  "\<exists>k3 :: kernel. pc_reg (regs k3 0) = 0x40000500 \<and> sp_reg (regs k3 0) = 0x40004000 \<and>
        pc_reg (regs (task_trampoline 0 k3) 0) = 0x40000700 \<and> \<not> irq_masked 0 (task_trampoline 0 k3)"
proof -
  let ?t = "0x40003000 :: u64"
  let ?k1 = "task_init 0x40000500 ?t 0x40000700 (set_current 0 ?t sample_kernel)"
  let ?k3 = "switch_to 0 0x40001000 (tcb_sp (tcbs ?k1 ?t)) ?k1"
  have "set (frame_addrs (sp_reg (regs ?k1 0) - 112)) \<inter> set (frame_addrs (tcb_sp (tcbs ?k1 ?t))) = {}"
    by (simp add: frame_simps set_current_def frame_addrs_expand sample_defs)
  moreover have "current 0 ?k3 = ?t"
    by (simp add: current_def this_cpu_def frame_simps set_current_def)
  ultimately have "pc_reg (regs ?k3 0) = 0x40000500 \<and> daif (regs ?k3 0) = 0 \<and>
      sp_reg (regs ?k3 0) = stack_addr ?t (STACK_WORDS - 1) \<and> (\<forall>n\<in>{19..29}. xreg (regs ?k3 0) n = 0) \<and>
      pc_reg (regs (task_trampoline 0 ?k3) 0) = 0x40000700 \<and> \<not> irq_masked 0 (task_trampoline 0 ?k3)"
    by (intro task_first_activation [OF refl refl refl _ _ refl]) auto
  then show ?thesis unfolding stack_top by (intro exI [of _ ?k3]) simp
qed

end
