(* ===== verification/Uart.thy ===== *)
theory Uart
  imports Kernel_State
begin

text \<open>
  The polled PL011 driver (\<open>kernel/uart.c\<close>). The busy wait on the flag register is a
  \<open>partial_function\<close>: it ends exactly when the device reports room. What the driver relies on is
  \<open>uart_live\<close>: however the registers were accessed before, polling the flag register long enough
  sees the FIFO not full. Under it every call returns, holds \<open>uart_lock\<close> only for its duration and
  sends its bytes in order.
\<close>

section \<open>The driver\<close>

definition UART_DR :: u64 where "UART_DR = 0x09000000"
definition UART_FR :: u64 where "UART_FR = 0x09000018"
definition UART_FR_TXFF :: u32 where "UART_FR_TXFF = push_bit 5 1"

text \<open>\<open>while (UART_FR & UART_FR_TXFF) {}\<close>\<close>

partial_function (option) uart_wait :: "'z kernel_scheme \<Rightarrow> 'z kernel_scheme option" where
  "uart_wait k =
     (if fst (read32 UART_FR k) AND UART_FR_TXFF \<noteq> 0 then uart_wait (snd (read32 UART_FR k))
      else Some (snd (read32 UART_FR k)))"

definition uart_putc :: "char \<Rightarrow> 'z kernel_scheme \<Rightarrow> 'z kernel_scheme option" where
  "uart_putc ch k = do { k \<leftarrow> uart_wait k; Some (io_write (Wr32 UART_DR (of_char ch)) k) }"

text \<open>\<open>while (*s) uart_putc( *s++)\<close>, over the characters before the terminating NUL.\<close>

fun uart_emit :: "string \<Rightarrow> 'z kernel_scheme \<Rightarrow> 'z kernel_scheme option" where
  "uart_emit [] k = Some k"
| "uart_emit (ch # s) k = do { k \<leftarrow> uart_putc ch k; uart_emit s k }"

definition uart_puts :: "nat \<Rightarrow> string \<Rightarrow> 'z kernel_scheme \<Rightarrow> 'z kernel_scheme option" where
  "uart_puts c s k = do {
     (flags, k) \<leftarrow> spin_lock_irqsave c Uart_lock k;
     k \<leftarrow> uart_emit s k;
     Some (spin_unlock_irqrestore c Uart_lock flags k) }"

text \<open>The digit loop: \<open>buf[--i] = '0' + v % 10; v /= 10\<close>. Running past the front of the buffer would
  be an access out of bounds: \<open>None\<close>.\<close>

function dec_fill :: "u64 \<Rightarrow> nat \<Rightarrow> string \<Rightarrow> (nat \<times> string) option" where
  "dec_fill v i buf =
     (if v > 0 then
        (if i = 0 then None
         else dec_fill (v div 10) (i - 1) (buf[i - 1 := char_of (unat (48 + v mod 10))]))
      else Some (i, buf))"
  by pat_completeness auto
termination
  by (relation "measure (\<lambda>(v, i, buf). unat v)") (auto simp: unat_div word_gt_0 unat_gt_0)

declare dec_fill.simps [simp del]

text \<open>\<open>while (buf[i]) \<dots> buf[i++]\<close>: the characters from \<open>i\<close> up to the NUL at the end.\<close>

definition dec_chars :: "u64 \<Rightarrow> string option" where
  "dec_chars v =
     (if v = 0 then Some ''0''
      else do { (i, buf) \<leftarrow> dec_fill v 20 (replicate 21 (char_of (0::nat)));
                Some (takeWhile (\<lambda>ch. ch \<noteq> char_of (0::nat)) (drop i buf)) })"

definition uart_print_dec :: "u64 \<Rightarrow> 'z kernel_scheme \<Rightarrow> 'z kernel_scheme option" where
  "uart_print_dec v k = do { s \<leftarrow> dec_chars v; uart_emit s k }"

definition klog :: "nat \<Rightarrow> string \<Rightarrow> u64 \<Rightarrow> bool \<Rightarrow> string \<Rightarrow> 'z kernel_scheme \<Rightarrow> 'z kernel_scheme option" where
  "klog c prefix val has_val suffix k = do {
     (flags, k) \<leftarrow> spin_lock_irqsave c Uart_lock k;
     k \<leftarrow> uart_emit prefix k;
     k \<leftarrow> (if has_val then uart_print_dec val k else Some k);
     k \<leftarrow> uart_emit suffix k;
     Some (spin_unlock_irqrestore c Uart_lock flags k) }"

section \<open>Decimal output\<close>

text \<open>Reference: the decimal digits of a number, most significant first.\<close>

fun decimal :: "nat \<Rightarrow> string" where
  "decimal n = (if n < 10 then [char_of (48 + n)] else decimal (n div 10) @ [char_of (48 + n mod 10)])"

declare decimal.simps [simp del]

definition parse_decimal :: "string \<Rightarrow> nat" where
  "parse_decimal s = foldl (\<lambda>a ch. 10 * a + (of_char ch - 48)) 0 s"

lemma of_char_digit: "d < 10 \<Longrightarrow> of_char (char_of (48 + d :: nat)) = 48 + d"
  by simp

lemma parse_decimal_decimal: "parse_decimal (decimal n) = n"
proof (induction n rule: decimal.induct)
  case (1 n)
  then show ?case
    by (subst decimal.simps) (auto simp: parse_decimal_def of_char_digit)
qed

lemma decimal_nonzero: "ch \<in> set (decimal n) \<Longrightarrow> ch \<noteq> char_of (0::nat)"
proof (induction n rule: decimal.induct)
  case (1 n)
  have "char_of (48 + d) \<noteq> char_of (0::nat)" if "d < 10" for d :: nat
    using of_char_digit [OF that] by (metis add_is_0 of_char_of mod_0 zero_neq_numeral)
  with 1 show ?case by (subst (asm) decimal.simps) (auto split: if_splits)
qed

lemma decimal_nonempty: "decimal n \<noteq> []"
  by (subst decimal.simps) simp

lemma length_decimal: "n < 10 ^ Suc d \<Longrightarrow> length (decimal n) \<le> Suc d"
proof (induction d arbitrary: n)
  case 0
  then show ?case by (simp add: decimal.simps)
next
  case (Suc d)
  have "n div 10 < 10 ^ Suc d" using Suc.prems by (simp add: less_mult_imp_div_less mult.commute)
  then show ?case using Suc.IH by (subst decimal.simps) auto
qed

text \<open>The loop writes the digits right-aligned in front of position \<open>i\<close>.\<close>

lemma dec_fill_decimal:
  assumes "0 < unat v" and "length (decimal (unat v)) \<le> i" and "i \<le> length buf"
  shows "dec_fill v i buf =
     Some (i - length (decimal (unat v)),
           take (i - length (decimal (unat v))) buf @ decimal (unat v) @ drop i buf)"
  using assms
proof (induction v i buf rule: dec_fill.induct)
  case (1 v i buf)
  let ?d = "char_of (48 + unat v mod 10)"
  have ch: "char_of (unat (48 + v mod 10)) = ?d"
    by (subst unat_word_ariths, subst unat_mod) (simp add: mod_less)
  have i: "0 < i" using "1.prems"(2) decimal_nonempty [of "unat v"] by (cases i) auto
  have v: "v > 0" using "1.prems"(1) by (simp add: word_gt_0 unat_gt_0)
  have step: "dec_fill v i buf = dec_fill (v div 10) (i - 1) (buf[i - 1 := ?d])"
    using v i by (subst dec_fill.simps) (simp add: ch)
  have at: "drop (i - 1) (buf[i - 1 := ?d]) = ?d # drop i buf"
    using i "1.prems"(3) drop_update_self [of "i - 1" buf] by simp
  show ?case
  proof (cases "unat v < 10")
    case True
    then have z: "v div 10 = 0" by (simp add: word_unat_eq_iff unat_div)
    have "buf[i - 1 := ?d] = take (i - 1) buf @ ?d # drop i buf"
      using i "1.prems"(3) by (subst upd_conv_take_nth_drop) auto
    then show ?thesis using True i v step z
      by (simp add: decimal.simps [of "unat v"] dec_fill.simps [of 0])
  next
    case False
    then have ih: "0 < unat (v div 10)" by (simp add: unat_div)
    have dv: "decimal (unat v) = decimal (unat (v div 10)) @ [?d]"
      using False by (subst decimal.simps) (simp add: unat_div)
    show ?thesis
      using "1.IH" [OF v _ ih] i "1.prems" at step ch dv by simp
  qed
qed

lemma dec_chars_decimal: "dec_chars v = Some (decimal (unat v))"
proof (cases "v = 0")
  case True
  have "char_of (48::nat) = CHR ''0''" by code_simp
  with True show ?thesis by (simp add: dec_chars_def decimal.simps)
next
  case False
  let ?z = "char_of (0::nat)"
  have "unat v < 2 ^ LENGTH(64)" by (rule unsigned_less)
  then have "unat v < 10 ^ Suc 19" by simp
  then have len: "length (decimal (unat v)) \<le> 20" using length_decimal [of "unat v" 19] by simp
  let ?i = "20 - length (decimal (unat v))"
  have "dec_fill v 20 (replicate 21 ?z) =
          Some (?i, take ?i (replicate 21 ?z) @ decimal (unat v) @ [?z])"
    using dec_fill_decimal [of v 20 "replicate 21 ?z"] False len by (simp add: unat_gt_0)
  moreover have "takeWhile (\<lambda>ch. ch \<noteq> ?z) (decimal (unat v) @ [?z]) = decimal (unat v)"
    using decimal_nonzero by (subst takeWhile_append2) auto
  ultimately show ?thesis using False len by (simp add: dec_chars_def)
qed

section \<open>Effect on the device\<close>

definition uart_live :: "'z kernel_scheme \<Rightarrow> bool" where
  "uart_live k \<longleftrightarrow> (\<forall>log. \<exists>n. (ucast (dev k (log @ replicate n (Rd32 UART_FR)) UART_FR) :: u32)
                              AND UART_FR_TXFF = 0)"

text \<open>The bytes a history of accesses has sent to the UART.\<close>

fun uart_sent :: "io list \<Rightarrow> u32 list" where
  "uart_sent [] = []"
| "uart_sent (Wr32 a v # l) = (if a = UART_DR then v # uart_sent l else uart_sent l)"
| "uart_sent (_ # l) = uart_sent l"

lemma uart_sent_append [simp]: "uart_sent (l @ l') = uart_sent l @ uart_sent l'"
  by (induction l rule: uart_sent.induct) auto

lemma uart_sent_replicate [simp]: "uart_sent (replicate n (Rd32 a)) = []"
  by (induction n) auto

lemma uart_wait_returns:
  assumes "(ucast (dev k (io_log k @ replicate n (Rd32 UART_FR)) UART_FR) :: u32) AND UART_FR_TXFF = 0"
  shows "\<exists>m. uart_wait k = Some (k\<lparr>io_log := io_log k @ replicate m (Rd32 UART_FR)\<rparr>)"
  using assms
proof (induction n arbitrary: k)
  case 0
  then show ?case by (subst uart_wait.simps) (auto simp: read32_def intro: exI [of _ 1])
next
  case (Suc n)
  show ?case
  proof (cases "fst (read32 UART_FR k) AND UART_FR_TXFF = 0")
    case True
    then show ?thesis by (subst uart_wait.simps) (auto simp: read32_def intro: exI [of _ 1])
  next
    case False
    let ?k = "k\<lparr>io_log := io_log k @ [Rd32 UART_FR]\<rparr>"
    have "(ucast (dev ?k (io_log ?k @ replicate n (Rd32 UART_FR)) UART_FR) :: u32) AND UART_FR_TXFF = 0"
      using Suc.prems by simp
    from Suc.IH [OF this] obtain m where
      "uart_wait ?k = Some (?k\<lparr>io_log := io_log ?k @ replicate m (Rd32 UART_FR)\<rparr>)" by blast
    with False show ?thesis
      by (subst uart_wait.simps) (auto simp: read32_def intro: exI [of _ "Suc m"])
  qed
qed

lemma uart_putc_returns:
  assumes "uart_live k"
  shows "\<exists>l. uart_putc ch k = Some (k\<lparr>io_log := io_log k @ l\<rparr>) \<and> uart_sent l = [of_char ch]"
proof -
  obtain n where "(ucast (dev k (io_log k @ replicate n (Rd32 UART_FR)) UART_FR) :: u32)
                    AND UART_FR_TXFF = 0"
    using assms unfolding uart_live_def by blast
  from uart_wait_returns [OF this] obtain m where
    "uart_wait k = Some (k\<lparr>io_log := io_log k @ replicate m (Rd32 UART_FR)\<rparr>)" by blast
  then show ?thesis
    by (intro exI [of _ "replicate m (Rd32 UART_FR) @ [Wr32 UART_DR (of_char ch)]"])
       (simp add: uart_putc_def io_write_def)
qed

lemma uart_emit_returns:
  assumes "uart_live k"
  shows "\<exists>l. uart_emit s k = Some (k\<lparr>io_log := io_log k @ l\<rparr>) \<and> uart_sent l = map of_char s"
  using assms
proof (induction s arbitrary: k)
  case Nil
  then show ?case by (auto intro: exI [of _ "[]"])
next
  case (Cons ch s)
  obtain l where l: "uart_putc ch k = Some (k\<lparr>io_log := io_log k @ l\<rparr>)" "uart_sent l = [of_char ch]"
    using uart_putc_returns [OF Cons.prems] by blast
  have "uart_live (k\<lparr>io_log := io_log k @ l\<rparr>)" using Cons.prems by (simp add: uart_live_def)
  from Cons.IH [OF this] obtain l' where
    "uart_emit s (k\<lparr>io_log := io_log k @ l\<rparr>) = Some (k\<lparr>io_log := io_log k @ l @ l'\<rparr>)"
    "uart_sent l' = map of_char s" by auto
  with l show ?case by (intro exI [of _ "l @ l'"]) simp
qed

lemma unlock_after_lock:
  assumes "locks k l = 0"
  shows "spin_unlock_irqrestore c l (daif (regs k c))
     (upd_regs c (\<lambda>r. r\<lparr>daif := d\<rparr>) k\<lparr>locks := (locks k)(l := 1), io_log := x\<rparr>) = k\<lparr>io_log := x\<rparr>"
  using assms by (simp add: lock_defs fun_upd_idem)

lemma klog_returns:
  assumes "locks k Uart_lock = 0" and "uart_live k"
  shows "\<exists>l. klog c prefix val has_val suffix k = Some (k\<lparr>io_log := io_log k @ l\<rparr>) \<and>
     uart_sent l = map of_char (prefix @ (if has_val then decimal (unat val) else []) @ suffix)"
proof -
  let ?k0 = "upd_regs c (\<lambda>r. r\<lparr>daif := daif r OR DAIF_I\<rparr>) k\<lparr>locks := (locks k)(Uart_lock := 1)\<rparr>"
  have live: "uart_live (?k0\<lparr>io_log := x\<rparr>)" for x using assms(2) by (simp add: uart_live_def)
  have emit: "\<exists>l. uart_emit s (?k0\<lparr>io_log := x\<rparr>) = Some (?k0\<lparr>io_log := x @ l\<rparr>) \<and>
      uart_sent l = map of_char s" for s x
    using uart_emit_returns [OF live, of s x] by simp
  obtain l1 where l1: "uart_emit prefix ?k0 = Some (?k0\<lparr>io_log := io_log k @ l1\<rparr>)"
    "uart_sent l1 = map of_char prefix" using emit [of prefix "io_log k"] by auto
  obtain l2 where l2: "(if has_val then uart_print_dec val (?k0\<lparr>io_log := io_log k @ l1\<rparr>)
       else Some (?k0\<lparr>io_log := io_log k @ l1\<rparr>)) = Some (?k0\<lparr>io_log := io_log k @ l1 @ l2\<rparr>)"
    "uart_sent l2 = map of_char (if has_val then decimal (unat val) else [])"
    using emit [of "decimal (unat val)" "io_log k @ l1"] that [of "[]"]
    by (cases has_val) (auto simp: uart_print_dec_def dec_chars_decimal)
  obtain l3 where l3: "uart_emit suffix (?k0\<lparr>io_log := io_log k @ l1 @ l2\<rparr>) =
      Some (?k0\<lparr>io_log := io_log k @ l1 @ l2 @ l3\<rparr>)" "uart_sent l3 = map of_char suffix"
    using emit [of suffix "io_log k @ l1 @ l2"] by auto
  have "klog c prefix val has_val suffix k =
      Some (spin_unlock_irqrestore c Uart_lock (daif (regs k c)) (?k0\<lparr>io_log := io_log k @ l1 @ l2 @ l3\<rparr>))"
    using l1 l2 l3 assms(1) by (simp add: klog_def spin_lock_irqsave_free)
  also have "\<dots> = Some (k\<lparr>io_log := io_log k @ l1 @ l2 @ l3\<rparr>)"
    using unlock_after_lock [OF assms(1), of c] by simp
  finally show ?thesis using l1(2) l2(2) l3(2)
    by (intro exI [of _ "l1 @ l2 @ l3"]) simp
qed

end
