(* ===== verification/Sched.thy ===== *)
theory Sched
  imports Context_Switch Uart
begin

text \<open>
  The scheduler (\<open>kernel/sched.c\<close>): per-CPU run queues, the selection policies behind
  \<open>sched_policy_t\<close>, wake-up, the tick and \<open>yield\<close>. Migration and load balancing are in
  \<open>Balance\<close>. The definitions follow the file; the lemmas give each scan loop a closed reading.
  What the callers of \<open>select_next\<close> rely on is in \<open>Policy\<close>.
\<close>

section \<open>Run queues\<close>

text \<open>\<open>&runqueues[cpu]\<close>, out of bounds beyond \<open>MAX_CPUS\<close>.\<close>

definition rq_at :: "nat \<Rightarrow> 'z kernel_scheme \<Rightarrow> runqueue option" where
  "rq_at cpu k = (if cpu < MAX_CPUS then Some (runqueues k cpu) else None)"

abbreviation my_id :: "nat \<Rightarrow> 'z kernel_scheme \<Rightarrow> nat" where
  "my_id c k \<equiv> cpu_id (this_cpu c k)"

definition this_rq :: "nat \<Rightarrow> 'z kernel_scheme \<Rightarrow> runqueue" where
  "this_rq c k = runqueues k (my_id c k)"

text \<open>The section of \<open>sched_register_on\<close> under the queue lock: dropped silently when the queue is full.\<close>

definition rq_append :: "nat \<Rightarrow> nat \<Rightarrow> u64 \<Rightarrow> 'z kernel_scheme \<Rightarrow> 'z kernel_scheme" where
  "rq_append c cpu t k =
    (if num_tasks (runqueues k cpu) < MAX_TASKS then
       (let k = upd_rq cpu (\<lambda>rq. rq\<lparr>tasks := (tasks rq)[num_tasks rq := t]\<rparr>) k;
            k = upd_tcb t (\<lambda>x. x\<lparr>tcb_cpu := cpu\<rparr>) k;
            k = (if cpu = my_id c k \<and> t = current c k
                 then upd_rq cpu (\<lambda>rq. rq\<lparr>current_idx := num_tasks rq\<rparr>) k else k)
        in upd_rq cpu (\<lambda>rq. rq\<lparr>num_tasks := num_tasks rq + 1\<rparr>) k)
     else k)"

definition sched_register_on ::
    "nat \<Rightarrow> nat \<Rightarrow> u64 \<Rightarrow> 'z kernel_scheme \<Rightarrow> 'z kernel_scheme option" where
  "sched_register_on c cpu t k = do {
     _ \<leftarrow> rq_at cpu k;
     (f, k) \<leftarrow> spin_lock_irqsave c (Rq_lock cpu) k;
     Some (spin_unlock_irqrestore c (Rq_lock cpu) f (rq_append c cpu t k)) }"

definition sched_register :: "nat \<Rightarrow> u64 \<Rightarrow> 'z kernel_scheme \<Rightarrow> 'z kernel_scheme option" where
  "sched_register c t k = sched_register_on c (my_id c k) t k"

section \<open>Selection policies\<close>

text \<open>\<open>for (i = 1; i <= num_tasks; i++)\<close> over \<open>(current_idx + i) % num_tasks\<close>, first READY slot.\<close>

function rr_scan :: "'z kernel_scheme \<Rightarrow> runqueue \<Rightarrow> nat \<Rightarrow> nat option" where
  "rr_scan k rq i =
     (if i \<le> num_tasks rq then
        (let idx = (current_idx rq + i) mod num_tasks rq
         in if tcb_state (tcbs k (tasks rq ! idx)) = 0 then Some idx else rr_scan k rq (i + 1))
      else None)"
  by pat_completeness auto
termination
  by (relation "measure (\<lambda>(k, rq, i). num_tasks rq + 1 - i)") auto

declare rr_scan.simps [simp del]

text \<open>\<open>for (i = 0; i < num_tasks; i++) if (tasks[i] == t)\<close>: the search that several functions share.\<close>

function find_task :: "runqueue \<Rightarrow> u64 \<Rightarrow> nat \<Rightarrow> nat option" where
  "find_task rq t i =
     (if i < num_tasks rq then (if tasks rq ! i = t then Some i else find_task rq t (i + 1)) else None)"
  by pat_completeness auto
termination
  by (relation "measure (\<lambda>(rq, t, i). num_tasks rq - i)") auto

declare find_task.simps [simp del]

definition resync_current :: "nat \<Rightarrow> 'z kernel_scheme \<Rightarrow> 'z kernel_scheme" where
  "resync_current c k =
     (case find_task (this_rq c k) (current c k) 0 of
        Some i \<Rightarrow> upd_rq (my_id c k) (\<lambda>rq. rq\<lparr>current_idx := i\<rparr>) k
      | None \<Rightarrow> k)"

definition choose_slot :: "nat \<Rightarrow> nat \<Rightarrow> 'z kernel_scheme \<Rightarrow> 'z kernel_scheme" where
  "choose_slot c idx k =
     upd_rq (my_id c k) (\<lambda>rq. rq\<lparr>current_idx := idx,
        select_count := (select_count rq)[idx := select_count rq ! idx + 1]\<rparr>) k"

definition roundrobin_select_next :: "nat \<Rightarrow> 'z kernel_scheme \<Rightarrow> u64 \<times> 'z kernel_scheme" where
  "roundrobin_select_next c k =
     (case rr_scan k (this_rq c k) 1 of
        Some idx \<Rightarrow> (tasks (this_rq c k) ! idx, choose_slot c idx k)
      | None \<Rightarrow> (current c k, resync_current c k))"

text \<open>The scan of \<open>load_aware_select_next\<close> with its locals \<open>best\<close> and \<open>best_idx\<close>.\<close>

function la_scan :: "'z kernel_scheme \<Rightarrow> runqueue \<Rightarrow> nat \<Rightarrow> u64 \<Rightarrow> int \<Rightarrow> u64 \<times> int" where
  "la_scan k rq i best best_idx =
     (if i \<le> num_tasks rq then
        (let idx = (current_idx rq + i) mod num_tasks rq; t = tasks rq ! idx
         in if tcb_state (tcbs k t) = 0 \<and>
               (best = NULL \<or> ewma_load (tcbs k t) < ewma_load (tcbs k best))
            then la_scan k rq (i + 1) t (int idx)
            else la_scan k rq (i + 1) best best_idx)
      else (best, best_idx))"
  by pat_completeness auto
termination
  by (relation "measure (\<lambda>(k, rq, i, best, best_idx). num_tasks rq + 1 - i)") (auto simp: Let_def)

declare la_scan.simps [simp del]

definition load_aware_select_next :: "nat \<Rightarrow> 'z kernel_scheme \<Rightarrow> u64 \<times> 'z kernel_scheme" where
  "load_aware_select_next c k =
     (let (best, best_idx) = la_scan k (this_rq c k) 1 NULL (-1)
      in if best \<noteq> NULL then (best, choose_slot c (nat best_idx) k)
         else (current c k, resync_current c k))"

definition EWMA_ALPHA_NUM :: u32 where "EWMA_ALPHA_NUM = 3"
definition EWMA_ALPHA_DEN :: u32 where "EWMA_ALPHA_DEN = 10"
definition EWMA_SCALE :: u32 where "EWMA_SCALE = 1000"

definition ewma_next :: "u32 \<Rightarrow> u32" where
  "ewma_next x = (EWMA_ALPHA_NUM * EWMA_SCALE + (EWMA_ALPHA_DEN - EWMA_ALPHA_NUM) * x) div EWMA_ALPHA_DEN"

definition ewma_on_tick :: "u64 \<Rightarrow> 'z kernel_scheme \<Rightarrow> 'z kernel_scheme" where
  "ewma_on_tick cur k = upd_tcb cur (\<lambda>t. t\<lparr>ewma_load := ewma_next (ewma_load t)\<rparr>) k"

record 'z sched_policy =
  select_next :: "nat \<Rightarrow> 'z kernel_scheme \<Rightarrow> u64 \<times> 'z kernel_scheme"
  on_tick :: "(u64 \<Rightarrow> 'z kernel_scheme \<Rightarrow> 'z kernel_scheme) option"

text \<open>The three static policy structures a policy pointer can point to.\<close>

fun policy_of :: "policy_id \<Rightarrow> 'z sched_policy" where
  "policy_of Policy_roundrobin = \<lparr>select_next = roundrobin_select_next, on_tick = None\<rparr>"
| "policy_of Policy_ewma = \<lparr>select_next = roundrobin_select_next, on_tick = Some ewma_on_tick\<rparr>"
| "policy_of Policy_load_aware = \<lparr>select_next = load_aware_select_next, on_tick = Some ewma_on_tick\<rparr>"

definition pick_next_ready :: "nat \<Rightarrow> 'z kernel_scheme \<Rightarrow> (u64 \<times> 'z kernel_scheme) option" where
  "pick_next_ready c k = do {
     let l = Rq_lock (my_id c k);
     (f, k) \<leftarrow> spin_lock_irqsave c l k;
     let (n, k) = select_next (policy_of (active_policy k)) c k;
     Some (n, spin_unlock_irqrestore c l f k) }"

definition sched_wake :: "nat \<Rightarrow> u64 \<Rightarrow> 'z kernel_scheme \<Rightarrow> 'z kernel_scheme option" where
  "sched_wake c t k = do {
     let l = Rq_lock (tcb_cpu (tcbs k t));
     _ \<leftarrow> rq_at (tcb_cpu (tcbs k t)) k;
     (f, k) \<leftarrow> spin_lock_irqsave c l k;
     let k = upd_tcb t (\<lambda>x. x\<lparr>tcb_state := 0\<rparr>) k;
     let k = spin_unlock_irqrestore c l f k;
     Some (dsb_sev k) }"

definition sched_on_tick :: "nat \<Rightarrow> 'z kernel_scheme \<Rightarrow> 'z kernel_scheme" where
  "sched_on_tick c k =
     (case on_tick (policy_of (active_policy k)) of
        Some f \<Rightarrow> f (current c k) k
      | None \<Rightarrow> k)"

section \<open>Debug accessors\<close>

definition sched_debug_current_idx :: "'z kernel_scheme \<Rightarrow> nat" where
  "sched_debug_current_idx k = current_idx (runqueues k 0)"

definition sched_debug_num_tasks :: "'z kernel_scheme \<Rightarrow> nat" where
  "sched_debug_num_tasks k = num_tasks (runqueues k 0)"

definition sched_debug_task_state :: "int \<Rightarrow> 'z kernel_scheme \<Rightarrow> int" where
  "sched_debug_task_state i k =
     (if i < 0 \<or> i \<ge> int (num_tasks (runqueues k 0)) then -1
      else tcb_state (tcbs k (tasks (runqueues k 0) ! nat i)))"

definition sched_debug_task_ptr :: "int \<Rightarrow> 'z kernel_scheme \<Rightarrow> u64" where
  "sched_debug_task_ptr i k =
     (if i < 0 \<or> i \<ge> int (num_tasks (runqueues k 0)) then NULL else tasks (runqueues k 0) ! nat i)"

text \<open>No range check in the source: an index outside the array is \<open>None\<close>.\<close>

definition sched_debug_select_count :: "int \<Rightarrow> 'z kernel_scheme \<Rightarrow> u64 option" where
  "sched_debug_select_count i k =
     (if 0 \<le> i \<and> i < int MAX_TASKS then Some (select_count (runqueues k 0) ! nat i) else None)"

definition sched_debug_select_count_for :: "nat \<Rightarrow> u64 \<Rightarrow> 'z kernel_scheme \<Rightarrow> u64" where
  "sched_debug_select_count_for cpu t k =
     (case find_task (runqueues k cpu) t 0 of
        Some i \<Rightarrow> select_count (runqueues k cpu) ! i
      | None \<Rightarrow> 0)"

section \<open>Giving up the CPU\<close>

text \<open>
  How a call that may switch tasks ends, seen from the CPU: it returns; or control has left for
  another task and the caller's \<open>flags\<close> are still to be restored when it is resumed; or the caller
  keeps the CPU but waits in \<open>wfe\<close> for its state to become READY.
\<close>

datatype 'k outcome = Returned 'k | Switched u64 'k | Waiting 'k

fun state_of :: "'k outcome \<Rightarrow> 'k" where
  "state_of (Returned k) = k"
| "state_of (Switched f k) = k"
| "state_of (Waiting k) = k"

text \<open>The variant of \<open>checked_switch_to\<close> that the default build compiles.\<close>

definition checked_switch_to :: "nat \<Rightarrow> u64 \<Rightarrow> u64 \<Rightarrow> 'z kernel_scheme \<Rightarrow> 'z kernel_scheme" where
  "checked_switch_to c prev nxt k = switch_to c prev (tcb_sp (tcbs k nxt)) k"

definition yield :: "nat \<Rightarrow> 'z kernel_scheme \<Rightarrow> 'z kernel_scheme outcome option" where
  "yield c k =
     (let (flags, k) = irq_disable_save c k in do {
        (nxt, k) \<leftarrow> pick_next_ready c k;
        if nxt \<noteq> current c k then
          (let prev = current c k; k = set_current c nxt k
           in Some (Switched flags (checked_switch_to c prev nxt k)))
        else Some (Returned (irq_restore c flags k)) })"

section \<open>What the scans compute\<close>

definition rq_tasks :: "runqueue \<Rightarrow> u64 list" where
  "rq_tasks rq = take (num_tasks rq) (tasks rq)"

definition wf_rq :: "runqueue \<Rightarrow> bool" where
  "wf_rq rq \<longleftrightarrow> length (tasks rq) = MAX_TASKS \<and> length (select_count rq) = MAX_TASKS \<and>
     num_tasks rq \<le> MAX_TASKS \<and> current_idx rq < max 1 (num_tasks rq)"

lemma length_rq_tasks [simp]: "wf_rq rq \<Longrightarrow> length (rq_tasks rq) = num_tasks rq"
  by (simp add: wf_rq_def rq_tasks_def)

lemma nth_rq_tasks: "i < num_tasks rq \<Longrightarrow> rq_tasks rq ! i = tasks rq ! i"
  by (simp add: rq_tasks_def)

lemma in_rq_tasks: "wf_rq rq \<Longrightarrow> t \<in> set (rq_tasks rq) \<longleftrightarrow> (\<exists>i<num_tasks rq. tasks rq ! i = t)"
  by (auto simp: in_set_conv_nth nth_rq_tasks)

text \<open>Position \<open>j\<close> after the current one, in cyclic order.\<close>

abbreviation after :: "runqueue \<Rightarrow> nat \<Rightarrow> nat" where
  "after rq j \<equiv> (current_idx rq + j) mod num_tasks rq"

lemma rr_scan_Some:
  assumes "rr_scan k rq i = Some idx"
  shows "\<exists>j\<ge>i. j \<le> num_tasks rq \<and> idx = after rq j \<and> ready k (tasks rq ! idx) \<and>
           (\<forall>m. i \<le> m \<longrightarrow> m < j \<longrightarrow> \<not> ready k (tasks rq ! after rq m))"
  using assms
proof (induction k rq i rule: rr_scan.induct)
  case (1 k rq i)
  show ?case
  proof (cases "i \<le> num_tasks rq \<and> \<not> ready k (tasks rq ! after rq i)")
    case True
    with "1.prems" have "rr_scan k rq (i + 1) = Some idx" by (simp add: rr_scan.simps [of k rq i] Let_def)
    with "1.IH" True obtain j where j: "j \<ge> i + 1" "j \<le> num_tasks rq" "idx = after rq j"
      "ready k (tasks rq ! idx)" "\<forall>m. i + 1 \<le> m \<longrightarrow> m < j \<longrightarrow> \<not> ready k (tasks rq ! after rq m)"
      by auto
    have "\<not> ready k (tasks rq ! after rq m)" if "i \<le> m" "m < j" for m
      using that j(5) True by (cases "m = i") auto
    with j show ?thesis by (intro exI [of _ j]) auto
  next
    case False
    with "1.prems" show ?thesis
      by (intro exI [of _ i]) (auto simp: rr_scan.simps [of k rq i] Let_def split: if_splits)
  qed
qed

lemma rr_scan_None:
  "rr_scan k rq i = None \<longleftrightarrow> (\<forall>j\<ge>i. j \<le> num_tasks rq \<longrightarrow> \<not> ready k (tasks rq ! after rq j))"
proof (induction k rq i rule: rr_scan.induct)
  case (1 k rq i)
  have split: "(\<forall>j\<ge>i. P j) = (P i \<and> (\<forall>j\<ge>Suc i. P j))" for P :: "nat \<Rightarrow> bool"
    by (metis Suc_leD Suc_leI le_neq_implies_less le_refl)
  show ?case
    using "1.IH" by (subst rr_scan.simps, subst split) (auto simp: Let_def)
qed

lemma find_task_Some:
  assumes "find_task rq t i = Some j"
  shows "i \<le> j \<and> j < num_tasks rq \<and> tasks rq ! j = t \<and> (\<forall>m. i \<le> m \<longrightarrow> m < j \<longrightarrow> tasks rq ! m \<noteq> t)"
  using assms
proof (induction rq t i rule: find_task.induct)
  case (1 rq t i)
  show ?case
  proof (cases "i < num_tasks rq \<and> tasks rq ! i \<noteq> t")
    case True
    with "1.prems" have "find_task rq t (i + 1) = Some j" by (simp add: find_task.simps [of rq t i])
    with "1.IH" True have ih: "i + 1 \<le> j" "j < num_tasks rq" "tasks rq ! j = t"
      "\<forall>m. i + 1 \<le> m \<longrightarrow> m < j \<longrightarrow> tasks rq ! m \<noteq> t" by auto
    have "tasks rq ! m \<noteq> t" if "i \<le> m" "m < j" for m using that ih True by (cases "m = i") auto
    with ih show ?thesis by auto
  next
    case False
    with "1.prems" show ?thesis by (auto simp: find_task.simps [of rq t i] split: if_splits)
  qed
qed

lemma find_task_None: "find_task rq t i = None \<longleftrightarrow> (\<forall>j\<ge>i. j < num_tasks rq \<longrightarrow> tasks rq ! j \<noteq> t)"
proof (induction rq t i rule: find_task.induct)
  case (1 rq t i)
  have split: "(\<forall>j\<ge>i. P j) = (P i \<and> (\<forall>j\<ge>Suc i. P j))" for P :: "nat \<Rightarrow> bool"
    by (metis Suc_leD Suc_leI le_neq_implies_less le_refl)
  show ?case
    using "1.IH" by (subst find_task.simps, subst split) auto
qed

lemma find_task_rq:
  assumes "wf_rq rq"
  shows "find_task rq t 0 = None \<longleftrightarrow> t \<notin> set (rq_tasks rq)"
    and "find_task rq t 0 = Some i \<Longrightarrow> i < num_tasks rq \<and> rq_tasks rq ! i = t"
  using assms find_task_Some [of rq t 0 i]
  by (auto simp: find_task_None in_rq_tasks nth_rq_tasks)

text \<open>The loop invariant of the load-aware scan: \<open>best\<close> is the first task of least load among the READY
  ones at the positions below \<open>i\<close>, null if there is none.\<close>

definition la_inv :: "'z kernel_scheme \<Rightarrow> runqueue \<Rightarrow> nat \<Rightarrow> u64 \<Rightarrow> int \<Rightarrow> bool" where
  "la_inv k rq i best best_idx \<longleftrightarrow>
     (let load = (\<lambda>m. ewma_load (tcbs k (tasks rq ! after rq m)));
          rdy = (\<lambda>m. ready k (tasks rq ! after rq m))
      in if best = NULL then \<forall>m. 1 \<le> m \<longrightarrow> m < i \<longrightarrow> \<not> rdy m
         else \<exists>j\<ge>1. j < i \<and> best_idx = int (after rq j) \<and> best = tasks rq ! after rq j \<and> rdy j \<and>
              (\<forall>m. 1 \<le> m \<longrightarrow> m < i \<longrightarrow> rdy m \<longrightarrow> load j \<le> load m \<and> (m < j \<longrightarrow> load j < load m)))"

lemma la_inv_start: "la_inv k rq 1 NULL x"
  by (simp add: la_inv_def)

lemma la_inv_take:
  assumes "la_inv k rq i best bi" and "tasks rq ! after rq i \<noteq> NULL" and "1 \<le> i"
    and "ready k (tasks rq ! after rq i)"
    and "best = NULL \<or> ewma_load (tcbs k (tasks rq ! after rq i)) < ewma_load (tcbs k best)"
  shows "la_inv k rq (Suc i) (tasks rq ! after rq i) (int (after rq i))"
proof -
  let ?load = "\<lambda>m. ewma_load (tcbs k (tasks rq ! after rq m))"
  have "?load i < ?load m" if "1 \<le> m" "m < i" "ready k (tasks rq ! after rq m)" for m
    using assms(1,5) that by (auto simp: la_inv_def Let_def split: if_splits dest: less_le_trans)
  then show ?thesis using assms(2,3,4)
    by (auto simp: la_inv_def Let_def less_Suc_eq intro!: exI [of _ i] intro: less_imp_le)
qed

lemma la_inv_skip:
  assumes "la_inv k rq i best bi"
    and "\<not> (ready k (tasks rq ! after rq i) \<and>
            (best = NULL \<or> ewma_load (tcbs k (tasks rq ! after rq i)) < ewma_load (tcbs k best)))"
  shows "la_inv k rq (Suc i) best bi"
  using assms by (fastforce simp: la_inv_def Let_def less_Suc_eq not_less split: if_splits)

lemma la_scan_inv:
  assumes "la_scan k rq i best bi = (b, x)" and "la_inv k rq i best bi" and "1 \<le> i"
    and "i \<le> Suc (num_tasks rq)"
    and "\<forall>j. 1 \<le> j \<longrightarrow> j \<le> num_tasks rq \<longrightarrow> tasks rq ! after rq j \<noteq> NULL"
  shows "la_inv k rq (Suc (num_tasks rq)) b x"
  using assms
proof (induction k rq i best bi rule: la_scan.induct)
  case (1 k rq i best bi)
  let ?t = "tasks rq ! after rq i"
  let ?take = "ready k ?t \<and> (best = NULL \<or> ewma_load (tcbs k ?t) < ewma_load (tcbs k best))"
  show ?case
  proof (cases "i \<le> num_tasks rq")
    case True
    show ?thesis
    proof (cases ?take)
      case take: True
      have "la_scan k rq (i + 1) ?t (int (after rq i)) = (b, x)"
        using "1.prems"(1) True take by (subst (asm) la_scan.simps) (simp add: Let_def)
      moreover have "la_inv k rq (i + 1) ?t (int (after rq i))"
        using la_inv_take [OF "1.prems"(2) _ "1.prems"(3)] take "1.prems"(3,5) True by simp
      ultimately show ?thesis using "1.IH"(1) True take "1.prems"(5) by simp
    next
      case skip: False
      have "la_scan k rq (i + 1) best bi = (b, x)"
        using "1.prems"(1) True skip by (subst (asm) la_scan.simps) (simp add: Let_def)
      moreover have "la_inv k rq (i + 1) best bi"
        using la_inv_skip [OF "1.prems"(2) skip] by simp
      ultimately show ?thesis using "1.IH"(2) True skip "1.prems"(5) by simp
    qed
  next
    case False
    then have "i = Suc (num_tasks rq)" using "1.prems"(4) by simp
    with "1.prems"(1,2) show ?thesis by (simp add: la_scan.simps)
  qed
qed

end
