(* ===== verification/Policy.thy ===== *)
theory Policy
  imports Sched
begin

text \<open>
  The contract between the scheduling policies and their callers. \<open>picks\<close> is the abstract
  specification of a selection; the locale \<open>select_policy\<close> is the interface \<open>sched_policy_t\<close> offers
  through its \<open>select_next\<close> pointer, interpreted on every policy structure of \<open>sched.c\<close>, and its
  clients \<open>pick_next_ready\<close> and \<open>yield\<close> are verified once against it. The properties of the two
  selection algorithms and of the EWMA estimator follow.
\<close>

section \<open>The abstract specification of a selection\<close>

definition rq_ok :: "runqueue \<Rightarrow> bool" where
  "rq_ok rq \<longleftrightarrow> wf_rq rq \<and> distinct (rq_tasks rq) \<and> NULL \<notin> set (rq_tasks rq)"

text \<open>A selection on CPU \<open>c\<close> may only move the cursor and the statistics of \<open>c\<close>'s own queue. It hands
  out a READY task of that queue if there is one and otherwise the task that is running, and the
  cursor points to the task handed out whenever that is on the queue.\<close>

definition pick_target :: "nat \<Rightarrow> 'z kernel_scheme \<Rightarrow> u64 \<Rightarrow> bool" where
  "pick_target c k t \<longleftrightarrow>
     (if \<exists>u\<in>set (rq_tasks (this_rq c k)). ready k u
      then t \<in> set (rq_tasks (this_rq c k)) \<and> ready k t
      else t = current c k)"

definition picks :: "nat \<Rightarrow> 'z kernel_scheme \<Rightarrow> u64 \<Rightarrow> 'z kernel_scheme \<Rightarrow> bool" where
  "picks c k t k' \<longleftrightarrow>
     (\<exists>idx cnt. k' = upd_rq (my_id c k) (\<lambda>rq. rq\<lparr>current_idx := idx, select_count := cnt\<rparr>) k \<and>
        length cnt = MAX_TASKS \<and>
        idx < max 1 (num_tasks (this_rq c k)) \<and>
        (t \<in> set (rq_tasks (this_rq c k)) \<longrightarrow> rq_tasks (this_rq c k) ! idx = t)) \<and>
     pick_target c k t"

lemma picksI:
  assumes "k' = upd_rq (my_id c k) (\<lambda>rq. rq\<lparr>current_idx := idx, select_count := cnt\<rparr>) k"
    "length cnt = MAX_TASKS"
    "idx < max 1 (num_tasks (this_rq c k))"
    "t \<in> set (rq_tasks (this_rq c k)) \<longrightarrow> rq_tasks (this_rq c k) ! idx = t"
    "pick_target c k t"
  shows "picks c k t k'"
  unfolding picks_def using assms by (intro conjI exI) assumption+

lemma picksE:
  assumes "picks c k t k'"
  obtains idx cnt where
    "k' = upd_rq (my_id c k) (\<lambda>rq. rq\<lparr>current_idx := idx, select_count := cnt\<rparr>) k"
    "length cnt = MAX_TASKS"
    "idx < max 1 (num_tasks (this_rq c k))"
    "t \<in> set (rq_tasks (this_rq c k)) \<longrightarrow> rq_tasks (this_rq c k) ! idx = t"
    "pick_target c k t"
  using assms unfolding picks_def by (elim conjE exE) (rule that)

lemma picks_target:
  assumes "picks c k t k'"
  shows "t = current c k \<or> (t \<in> set (rq_tasks (this_rq c k)) \<and> ready k t)"
  using assms by (auto elim!: picksE simp: pick_target_def split: if_splits)

section \<open>The interface of a policy\<close>

locale select_policy =
  fixes select :: "nat \<Rightarrow> 'z kernel_scheme \<Rightarrow> u64 \<times> 'z kernel_scheme"
  assumes select_picks: "rq_ok (this_rq c k) \<Longrightarrow> picks c k (fst (select c k)) (snd (select c k))"
begin

lemma select_frame:
  assumes "rq_ok (this_rq c k)"
  shows "regs (snd (select c k)) = regs k" "tcbs (snd (select c k)) = tcbs k"
    "cpu_locals (snd (select c k)) = cpu_locals k" "locks (snd (select c k)) = locks k"
    "i \<noteq> my_id c k \<Longrightarrow> runqueues (snd (select c k)) i = runqueues k i"
    "rq_tasks (runqueues (snd (select c k)) i) = rq_tasks (runqueues k i)"
  using select_picks [OF assms]
  by (auto elim!: picksE simp: rq_tasks_def)

lemma select_never_blocked:
  assumes "rq_ok (this_rq c k)" and "\<exists>u\<in>set (rq_tasks (this_rq c k)). ready k u"
  shows "ready k (fst (select c k))"
  using select_picks [OF assms(1)] assms(2)
  by (auto elim!: picksE simp: pick_target_def split: if_splits)

end

text \<open>Both algorithms fall back to the running task and resynchronise the cursor.\<close>

lemma picks_resync:
  assumes ok: "rq_ok (this_rq c k)" and none: "\<forall>u\<in>set (rq_tasks (this_rq c k)). \<not> ready k u"
  shows "picks c k (current c k) (resync_current c k)"
proof -
  let ?rq = "this_rq c k"
  have wf: "wf_rq ?rq" using ok by (simp add: rq_ok_def)
  have tgt: "pick_target c k (current c k)" using none by (auto simp: pick_target_def)
  show ?thesis
  proof (cases "find_task ?rq (current c k) 0")
    case None
    have "resync_current c k = upd_rq (my_id c k)
        (\<lambda>rq. rq\<lparr>current_idx := current_idx ?rq, select_count := select_count ?rq\<rparr>) k"
      using None by (simp add: resync_current_def this_rq_def)
    moreover have "current c k \<notin> set (rq_tasks ?rq)" using None wf find_task_rq(1) by blast
    ultimately show ?thesis using wf tgt by (intro picksI) (auto simp: wf_rq_def)
  next
    case (Some i)
    have "i < num_tasks ?rq \<and> rq_tasks ?rq ! i = current c k" using Some wf find_task_rq(2) by blast
    moreover have "resync_current c k = upd_rq (my_id c k)
        (\<lambda>rq. rq\<lparr>current_idx := i, select_count := select_count ?rq\<rparr>) k"
      using Some by (simp add: resync_current_def this_rq_def)
    ultimately show ?thesis using wf tgt by (intro picksI) (auto simp: wf_rq_def)
  qed
qed

lemma picks_choose:
  assumes ok: "rq_ok (this_rq c k)" and idx: "idx < num_tasks (this_rq c k)"
    and rdy: "ready k (tasks (this_rq c k) ! idx)"
  shows "picks c k (tasks (this_rq c k) ! idx) (choose_slot c idx k)"
proof -
  let ?rq = "this_rq c k"
  have t: "rq_tasks ?rq ! idx = tasks ?rq ! idx" using idx by (rule nth_rq_tasks)
  have "idx < length (rq_tasks ?rq)" using idx ok by (simp add: rq_ok_def)
  then have "tasks ?rq ! idx \<in> set (rq_tasks ?rq)" using t by (metis nth_mem)
  then have "pick_target c k (tasks ?rq ! idx)" using rdy by (auto simp: pick_target_def)
  moreover have "choose_slot c idx k = upd_rq (my_id c k) (\<lambda>rq. rq\<lparr>current_idx := idx,
      select_count := (select_count ?rq)[idx := select_count ?rq ! idx + 1]\<rparr>) k"
    by (simp add: choose_slot_def this_rq_def)
  ultimately show ?thesis using ok idx t by (intro picksI) (auto simp: rq_ok_def wf_rq_def)
qed

lemma after_covers:
  assumes "wf_rq rq" and "u \<in> set (rq_tasks rq)"
  shows "\<exists>j. 1 \<le> j \<and> j \<le> num_tasks rq \<and> tasks rq ! after rq j = u"
proof -
  obtain i where i: "i < num_tasks rq" "tasks rq ! i = u" using assms in_rq_tasks by blast
  then show ?thesis using cyclic_cover [OF i(1), of "current_idx rq"] by auto
qed

lemma after_in_rq:
  assumes "wf_rq rq" and "1 \<le> j" and "j \<le> num_tasks rq"
  shows "after rq j < num_tasks rq" and "tasks rq ! after rq j \<in> set (rq_tasks rq)"
proof -
  show *: "after rq j < num_tasks rq" using assms by simp
  then show "tasks rq ! after rq j \<in> set (rq_tasks rq)" using assms(1) in_rq_tasks by blast
qed

lemma roundrobin_picks:
  assumes "rq_ok (this_rq c k)"
  shows "picks c k (fst (roundrobin_select_next c k)) (snd (roundrobin_select_next c k))"
proof (cases "rr_scan k (this_rq c k) 1")
  case None
  have wf: "wf_rq (this_rq c k)" using assms by (simp add: rq_ok_def)
  have "\<forall>u\<in>set (rq_tasks (this_rq c k)). \<not> ready k u"
    using None after_covers [OF wf] unfolding rr_scan_None by blast
  then show ?thesis using None picks_resync [OF assms] by (simp add: roundrobin_select_next_def)
next
  case (Some idx)
  then obtain j where "1 \<le> j" "j \<le> num_tasks (this_rq c k)" "idx = after (this_rq c k) j"
    "ready k (tasks (this_rq c k) ! idx)" using rr_scan_Some [OF Some] by auto
  then have "idx < num_tasks (this_rq c k)" by simp
  then show ?thesis
    using picks_choose [OF assms] \<open>ready k (tasks (this_rq c k) ! idx)\<close> Some
    by (simp add: roundrobin_select_next_def)
qed

lemma load_aware_scan:
  assumes "rq_ok (this_rq c k)" and "la_scan k (this_rq c k) 1 NULL (-1) = (b, x)"
  shows "la_inv k (this_rq c k) (Suc (num_tasks (this_rq c k))) b x"
proof -
  have "tasks (this_rq c k) ! after (this_rq c k) j \<noteq> NULL"
    if "1 \<le> j" "j \<le> num_tasks (this_rq c k)" for j
    using assms(1) after_in_rq(2) [OF _ that] by (metis rq_ok_def)
  then show ?thesis using la_scan_inv [OF assms(2) la_inv_start] by simp
qed

lemma load_aware_picks:
  assumes "rq_ok (this_rq c k)"
  shows "picks c k (fst (load_aware_select_next c k)) (snd (load_aware_select_next c k))"
proof -
  let ?rq = "this_rq c k"
  obtain b x where bx: "la_scan k ?rq 1 NULL (-1) = (b, x)" by fastforce
  note inv = load_aware_scan [OF assms bx]
  have wf: "wf_rq ?rq" using assms by (simp add: rq_ok_def)
  show ?thesis
  proof (cases "b = NULL")
    case True
    have "\<forall>u\<in>set (rq_tasks ?rq). \<not> ready k u"
      using inv True after_covers [OF wf] by (fastforce simp: la_inv_def Let_def less_Suc_eq_le)
    then show ?thesis using True bx picks_resync [OF assms] by (simp add: load_aware_select_next_def)
  next
    case False
    then obtain j where j: "1 \<le> j" "j \<le> num_tasks ?rq" "x = int (after ?rq j)"
      "b = tasks ?rq ! after ?rq j" "ready k (tasks ?rq ! after ?rq j)"
      using inv by (auto simp: la_inv_def Let_def less_Suc_eq_le)
    then show ?thesis
      using False bx picks_choose [OF assms, of "after ?rq j"] by (simp add: load_aware_select_next_def)
  qed
qed

interpretation pol: select_policy "select_next (policy_of p)" for p
proof unfold_locales
  fix c :: nat and k :: "'a kernel_scheme"
  assume "rq_ok (this_rq c k)"
  then show "picks c k (fst (select_next (policy_of p) c k)) (snd (select_next (policy_of p) c k))"
    using roundrobin_picks load_aware_picks by (cases p) auto
qed

section \<open>pick\_next\_ready\<close>

text \<open>The queue lock and the interrupt mask do not change what is selected, and both are restored.\<close>

lemma picks_masked:
  assumes "picks c (upd_regs c (\<lambda>r. r\<lparr>daif := d\<rparr>) k\<lparr>locks := (locks k)(l := 1)\<rparr>) t k'"
    and "locks k l = 0"
  shows "picks c k t (spin_unlock_irqrestore c l (daif (regs k c)) k')"
proof -
  let ?k = "upd_regs c (\<lambda>r. r\<lparr>daif := d\<rparr>) k\<lparr>locks := (locks k)(l := 1)\<rparr>"
  have same: "this_cpu c ?k = this_cpu c k" "this_rq c ?k = this_rq c k" "current c ?k = current c k"
    by (simp_all add: this_cpu_def this_rq_def current_def)
  have tgt: "pick_target c ?k t = pick_target c k t" by (simp add: pick_target_def same)
  from assms(1) obtain idx cnt where *:
    "k' = upd_rq (my_id c k) (\<lambda>rq. rq\<lparr>current_idx := idx, select_count := cnt\<rparr>) ?k"
    "length cnt = MAX_TASKS" "idx < max 1 (num_tasks (this_rq c k))"
    "t \<in> set (rq_tasks (this_rq c k)) \<longrightarrow> rq_tasks (this_rq c k) ! idx = t" "pick_target c k t"
    unfolding tgt [symmetric] by (rule picksE) (simp only: same)
  have "spin_unlock_irqrestore c l (daif (regs k c)) k' =
      upd_rq (my_id c k) (\<lambda>rq. rq\<lparr>current_idx := idx, select_count := cnt\<rparr>) k"
    using assms(2) by (simp add: *(1) lock_defs fun_upd_idem)
  then show ?thesis using *(2-5) by (intro picksI)
qed

lemma pick_next_ready_picks:
  assumes "rq_ok (this_rq c k)" and "locks k (Rq_lock (my_id c k)) = 0"
  shows "\<exists>t k'. pick_next_ready c k = Some (t, k') \<and> picks c k t k'"
proof -
  let ?l = "Rq_lock (my_id c k)"
  let ?k = "upd_regs c (\<lambda>r. r\<lparr>daif := daif (regs k c) OR DAIF_I\<rparr>) k\<lparr>locks := (locks k)(?l := 1)\<rparr>"
  have "this_rq c ?k = this_rq c k" by (simp add: this_cpu_def this_rq_def)
  then have "picks c ?k (fst (select_next (policy_of (active_policy k)) c ?k))
      (snd (select_next (policy_of (active_policy k)) c ?k))"
    using assms(1) pol.select_picks [of c ?k] by simp
  from picks_masked [OF this assms(2)] show ?thesis
    using assms(2) by (simp add: pick_next_ready_def spin_lock_irqsave_free case_prod_beta Let_def)
qed

lemma picks_frame:
  assumes "picks c k t k'"
  shows "tcbs k' = tcbs k" "regs k' = regs k" "cpu_locals k' = cpu_locals k" "locks k' = locks k"
    "mem k' = mem k" "kernel.more k' = kernel.more k" "current d k' = current d k"
    "this_cpu d k' = this_cpu d k" "active_policy k' = active_policy k" "io_log k' = io_log k"
    "dev k' = dev k" "smp_online k' = smp_online k"
    "i \<noteq> my_id c k \<Longrightarrow> runqueues k' i = runqueues k i"
    "tasks (runqueues k' i) = tasks (runqueues k i)"
    "num_tasks (runqueues k' i) = num_tasks (runqueues k i)"
    "rq_tasks (runqueues k' i) = rq_tasks (runqueues k i)"
  using assms by (auto elim!: picksE simp: rq_tasks_def current_def this_cpu_def)


section \<open>Selection order\<close>

lemma roundrobin_select:
  assumes ok: "rq_ok (this_rq c k)" and ex: "\<exists>u\<in>set (rq_tasks (this_rq c k)). ready k u"
  shows "\<exists>j. 1 \<le> j \<and> j \<le> num_tasks (this_rq c k) \<and>
     roundrobin_select_next c k =
       (tasks (this_rq c k) ! after (this_rq c k) j, choose_slot c (after (this_rq c k) j) k) \<and>
     ready k (tasks (this_rq c k) ! after (this_rq c k) j) \<and>
     (\<forall>m. 1 \<le> m \<longrightarrow> m < j \<longrightarrow> \<not> ready k (tasks (this_rq c k) ! after (this_rq c k) m))"
proof -
  have wf: "wf_rq (this_rq c k)" using ok by (simp add: rq_ok_def)
  obtain idx where idx: "rr_scan k (this_rq c k) 1 = Some idx"
    using ex after_covers [OF wf] rr_scan_None [of k "this_rq c k" 1] by fastforce
  have "roundrobin_select_next c k = (tasks (this_rq c k) ! idx, choose_slot c idx k)"
    using idx by (simp add: roundrobin_select_next_def)
  with rr_scan_Some [OF idx] show ?thesis by auto
qed

lemma load_aware_select:
  assumes ok: "rq_ok (this_rq c k)" and ex: "\<exists>u\<in>set (rq_tasks (this_rq c k)). ready k u"
  shows "\<exists>j. 1 \<le> j \<and> j \<le> num_tasks (this_rq c k) \<and>
     load_aware_select_next c k =
       (tasks (this_rq c k) ! after (this_rq c k) j, choose_slot c (after (this_rq c k) j) k) \<and>
     ready k (tasks (this_rq c k) ! after (this_rq c k) j) \<and>
     (\<forall>m. 1 \<le> m \<longrightarrow> m \<le> num_tasks (this_rq c k) \<longrightarrow> ready k (tasks (this_rq c k) ! after (this_rq c k) m) \<longrightarrow>
        ewma_load (tcbs k (tasks (this_rq c k) ! after (this_rq c k) j))
          \<le> ewma_load (tcbs k (tasks (this_rq c k) ! after (this_rq c k) m)) \<and>
        (m < j \<longrightarrow> ewma_load (tcbs k (tasks (this_rq c k) ! after (this_rq c k) j))
          < ewma_load (tcbs k (tasks (this_rq c k) ! after (this_rq c k) m))))"
proof -
  let ?rq = "this_rq c k"
  have wf: "wf_rq ?rq" using ok by (simp add: rq_ok_def)
  obtain b x where bx: "la_scan k ?rq 1 NULL (-1) = (b, x)" by fastforce
  note inv = load_aware_scan [OF ok bx]
  have "b \<noteq> NULL"
    using inv ex after_covers [OF wf] by (fastforce simp: la_inv_def Let_def less_Suc_eq_le)
  with inv obtain j where j: "1 \<le> j" "j \<le> num_tasks ?rq" "x = int (after ?rq j)"
      "b = tasks ?rq ! after ?rq j" "ready k (tasks ?rq ! after ?rq j)"
      "\<forall>m. 1 \<le> m \<longrightarrow> m < Suc (num_tasks ?rq) \<longrightarrow> ready k (tasks ?rq ! after ?rq m) \<longrightarrow>
         ewma_load (tcbs k b) \<le> ewma_load (tcbs k (tasks ?rq ! after ?rq m)) \<and>
         (m < j \<longrightarrow> ewma_load (tcbs k b) < ewma_load (tcbs k (tasks ?rq ! after ?rq m)))"
    by (auto simp: la_inv_def Let_def less_Suc_eq_le)
  have "load_aware_select_next c k = (tasks ?rq ! after ?rq j, choose_slot c (after ?rq j) k)"
    using bx \<open>b \<noteq> NULL\<close> j(3,4) by (simp add: load_aware_select_next_def)
  with j show ?thesis by (intro exI [of _ j]) (auto simp: less_Suc_eq_le)
qed

text \<open>One selection either takes the task \<open>d\<close> positions ahead or brings the cursor closer to it.\<close>

lemma roundrobin_progress:
  assumes ok: "rq_ok (this_rq c k)" and d: "1 \<le> d" "d \<le> num_tasks (this_rq c k)"
    and rdy: "ready k (tasks (this_rq c k) ! after (this_rq c k) d)"
  defines "rq' \<equiv> this_rq c (snd (roundrobin_select_next c k))"
  shows "fst (roundrobin_select_next c k) = tasks (this_rq c k) ! after (this_rq c k) d \<or>
     (\<exists>d'. 1 \<le> d' \<and> d' < d \<and> after rq' d' = after (this_rq c k) d)"
proof -
  let ?rq = "this_rq c k"
  have wf: "wf_rq ?rq" using ok by (simp add: rq_ok_def)
  obtain j where j: "1 \<le> j" "roundrobin_select_next c k = (tasks ?rq ! after ?rq j, choose_slot c (after ?rq j) k)"
    "\<forall>m. 1 \<le> m \<longrightarrow> m < j \<longrightarrow> \<not> ready k (tasks ?rq ! after ?rq m)"
    using roundrobin_select [OF ok] rdy after_in_rq(2) [OF wf d] by blast
  have "j \<le> d" using j(3) rdy d(1) by (meson not_le)
  show ?thesis
  proof (cases "j = d")
    case True
    then show ?thesis using j(2) by simp
  next
    case False
    have "current_idx rq' = after ?rq j" "num_tasks rq' = num_tasks ?rq"
      by (simp_all add: rq'_def j(2) choose_slot_def this_rq_def this_cpu_def)
    then have "after rq' (d - j) = (current_idx ?rq + j + (d - j)) mod num_tasks ?rq"
      by (simp add: mod_add_left_eq)
    then have "after rq' (d - j) = after ?rq d" using \<open>j \<le> d\<close> by simp
    then show ?thesis using False \<open>j \<le> d\<close> j(1) by (intro disjI2 exI [of _ "d - j"]) auto
  qed
qed

lemma ewma_next_unat:
  assumes "unat x \<le> 1000"
  shows "unat (ewma_next x) = (3000 + 7 * unat x) div 10"
proof -
  have "(7::u32) * x = of_nat (7 * unat x)" by simp
  then have "unat (7 * x) = 7 * unat x" using assms
    by (simp only: unat_of_nat) (simp add: mod_less)
  moreover have "(3000::u32) + 7 * x = of_nat (3000 + 7 * unat x)" by simp
  then have "unat (3000 + 7 * x) = 3000 + 7 * unat x" using assms
    by (simp only: unat_of_nat) (simp add: mod_less)
  ultimately show ?thesis by (simp add: ewma_next_def EWMA_ALPHA_NUM_def EWMA_ALPHA_DEN_def EWMA_SCALE_def unat_div)
qed

lemma picks_rq_ok:
  assumes "picks c k t k'" and "rq_ok (this_rq c k)"
  shows "rq_ok (this_rq c k')"
  using assms by (auto elim!: picksE simp: this_rq_def this_cpu_def rq_ok_def wf_rq_def rq_tasks_def)

lemma picks_daif:
  assumes "picks c (upd_regs c (\<lambda>r. r\<lparr>daif := d\<rparr>) k) t k'"
  shows "\<exists>k''. picks c k t k'' \<and> k' = upd_regs c (\<lambda>r. r\<lparr>daif := d\<rparr>) k''"
proof -
  let ?k = "upd_regs c (\<lambda>r. r\<lparr>daif := d\<rparr>) k"
  have same: "this_cpu c ?k = this_cpu c k" "this_rq c ?k = this_rq c k" "current c ?k = current c k"
    by (simp_all add: this_cpu_def this_rq_def current_def)
  have tgt: "pick_target c ?k t = pick_target c k t" by (simp add: pick_target_def same)
  from assms obtain idx cnt where *:
    "k' = upd_rq (my_id c k) (\<lambda>rq. rq\<lparr>current_idx := idx, select_count := cnt\<rparr>) ?k"
    "length cnt = MAX_TASKS" "idx < max 1 (num_tasks (this_rq c k))"
    "t \<in> set (rq_tasks (this_rq c k)) \<longrightarrow> rq_tasks (this_rq c k) ! idx = t" "pick_target c k t"
    unfolding tgt [symmetric] by (rule picksE) (simp only: same)
  let ?k'' = "upd_rq (my_id c k) (\<lambda>rq. rq\<lparr>current_idx := idx, select_count := cnt\<rparr>) k"
  have "picks c k t ?k''" using *(2-5) by (intro picksI) simp_all
  moreover have "k' = upd_regs c (\<lambda>r. r\<lparr>daif := d\<rparr>) ?k''" using *(1) by simp
  ultimately show ?thesis by blast
qed

lemma roundrobin_wait:
  fixes ks :: "nat \<Rightarrow> 'z kernel_scheme"
  assumes "rq_ok (this_rq c (ks 0))" and "1 \<le> d" and "d \<le> num_tasks (this_rq c (ks 0))"
    and "tasks (this_rq c (ks 0)) ! after (this_rq c (ks 0)) d = u"
    and "\<And>i. ready (ks i) u"
    and "\<And>i. this_rq c (ks (Suc i)) = this_rq c (snd (roundrobin_select_next c (ks i)))"
  shows "\<exists>n<d. fst (roundrobin_select_next c (ks n)) = u"
  using assms
proof (induction d arbitrary: ks rule: less_induct)
  case (less d)
  let ?rq = "this_rq c (ks 0)"
  from roundrobin_progress [of c "ks 0" d] less.prems
  consider "fst (roundrobin_select_next c (ks 0)) = u"
    | d' where "1 \<le> d'" "d' < d" "after (this_rq c (ks 1)) d' = after ?rq d"
    by auto
  then show ?case
  proof cases
    case 1
    then show ?thesis using less.prems(2) by (intro exI [of _ 0]) simp
  next
    case 2
    have p: "picks c (ks 0) (fst (roundrobin_select_next c (ks 0))) (snd (roundrobin_select_next c (ks 0)))"
      using roundrobin_picks less.prems(1) .
    have ok: "rq_ok (this_rq c (ks (Suc 0)))"
      using picks_rq_ok [OF p less.prems(1)] less.prems(6) [of 0] by simp
    have same: "tasks (this_rq c (ks (Suc 0))) = tasks ?rq"
      "num_tasks (this_rq c (ks (Suc 0))) = num_tasks ?rq"
      using picks_frame(8,14,15) [OF p] less.prems(6) [of 0] by (simp_all add: this_rq_def)
    from less.IH [of d' "\<lambda>i. ks (Suc i)"] obtain n where
      "n < d'" "fst (roundrobin_select_next c (ks (Suc n))) = u"
      using 2 ok same less.prems by auto
    then show ?thesis using 2(2) by (intro exI [of _ "Suc n"]) auto
  qed
qed

text \<open>The recurrence the 32-bit computation stands for.\<close>

definition ewma_ref :: "nat \<Rightarrow> nat" where
  "ewma_ref a = (3000 + 7 * a) div 10"

lemma ewma_ref_mono: "mono ewma_ref"
  by (intro monoI) (simp add: ewma_ref_def div_le_mono)

lemma ewma_ref_bounds: "a \<le> 997 \<Longrightarrow> a \<le> ewma_ref a \<and> ewma_ref a \<le> 997"
  unfolding ewma_ref_def by (rule conjI; linarith)

lemma ewma_ref_18: "(ewma_ref ^^ 18) 0 = 997"
proof -
  have "(18::nat) = Suc (Suc (Suc (Suc (Suc (Suc (Suc (Suc (Suc (Suc (Suc (Suc (Suc (Suc (Suc
    (Suc (Suc (Suc 0)))))))))))))))))" by simp
  then show ?thesis by (simp only: funpow.simps) (simp add: ewma_ref_def)
qed

lemma ewma_iterate:
  assumes "unat x \<le> 997"
  shows "unat ((ewma_next ^^ n) x) = (ewma_ref ^^ n) (unat x) \<and> unat ((ewma_next ^^ n) x) \<le> 997"
proof (induction n)
  case (Suc n)
  then have "unat (ewma_next ((ewma_next ^^ n) x)) = ewma_ref (unat ((ewma_next ^^ n) x))"
    unfolding ewma_ref_def by (intro ewma_next_unat) simp
  with Suc ewma_ref_bounds show ?case by auto
qed (use assms in simp)

lemma ewma_next_saturates:
  assumes "unat x \<le> 997"
  shows "unat ((ewma_next ^^ n) x) \<le> 997 \<and> unat x \<le> unat ((ewma_next ^^ n) x) \<and>
     (18 \<le> n \<longrightarrow> (ewma_next ^^ n) x = 997)"
proof -
  have lo: "unat x \<le> (ewma_ref ^^ n) (unat x)" for n
  proof (induction n)
    case (Suc n)
    have "(ewma_ref ^^ n) (unat x) \<le> 997" using ewma_iterate [OF assms, of n] by simp
    with Suc ewma_ref_bounds show ?case by (auto intro: le_trans)
  qed simp
  have "(ewma_next ^^ n) x = 997" if "18 \<le> n"
  proof -
    have "997 = (ewma_ref ^^ 18) 0" by (rule ewma_ref_18 [symmetric])
    also have "\<dots> \<le> (ewma_ref ^^ 18) ((ewma_ref ^^ (n - 18)) (unat x))"
      using funpow_mono [OF ewma_ref_mono] by simp
    also have "\<dots> = (ewma_ref ^^ (18 + (n - 18))) (unat x)" by (simp only: funpow_add comp_apply)
    also have "\<dots> = (ewma_ref ^^ n) (unat x)" using that by simp
    finally have "unat ((ewma_next ^^ n) x) = 997" using ewma_iterate [OF assms, of n] by simp
    then show ?thesis by (simp add: word_unat_eq_iff)
  qed
  then show ?thesis using ewma_iterate [OF assms, of n] lo [of n] by auto
qed

lemma sched_ticks:
  assumes "active_policy k \<noteq> Policy_roundrobin"
  shows "(sched_on_tick c ^^ n) k =
     upd_tcb (current c k) (\<lambda>t. t\<lparr>ewma_load := (ewma_next ^^ n) (ewma_load t)\<rparr>) k"
proof (induction n)
  case (Suc n)
  let ?y = "(ewma_next ^^ n) (ewma_load (tcbs k (current c k)))"
  have "sched_on_tick c (upd_tcb (current c k) (\<lambda>t. t\<lparr>ewma_load := ?y\<rparr>) k)
      = upd_tcb (current c k) (\<lambda>t. t\<lparr>ewma_load := ewma_next ?y\<rparr>) k"
    using assms by (cases "active_policy k")
      (simp_all add: sched_on_tick_def ewma_on_tick_def current_def this_cpu_def)
  then show ?case unfolding funpow.simps comp_apply Suc .
qed simp

lemma yield_result:
  assumes "rq_ok (this_rq c k)" and "locks k (Rq_lock (my_id c k)) = 0"
  shows "\<exists>t k'. picks c k t k' \<and> yield c k = Some
     (if t = current c k then Returned k'
      else Switched (daif (regs k c)) (switch_to c (current c k) (tcb_sp (tcbs k t))
        (set_current c t (upd_regs c (\<lambda>r. r\<lparr>daif := daif (regs k c) OR DAIF_I\<rparr>) k'))))"
proof -
  let ?m = "upd_regs c (\<lambda>r. r\<lparr>daif := daif (regs k c) OR DAIF_I\<rparr>)"
  have same: "this_cpu c (?m k) = this_cpu c k" "this_rq c (?m k) = this_rq c k"
    by (simp_all add: this_cpu_def this_rq_def)
  obtain t k1 where p: "pick_next_ready c (?m k) = Some (t, k1)" "picks c (?m k) t k1"
    using pick_next_ready_picks [of c "?m k"] assms by (auto simp: same)
  from picks_daif [OF p(2)] obtain k' where k': "picks c k t k'" "k1 = ?m k'" by blast
  note fr = picks_frame [OF k'(1)]
  have cur: "current c k1 = current c k" using fr(7) by (simp add: k'(2) current_def this_cpu_def)
  have "irq_restore c (daif (regs k c)) k1 = k'"
    using fr(2) by (simp add: irq_restore_def k'(2) fun_upd_idem)
  moreover have "tcb_sp (tcbs (set_current c t k1) t) = tcb_sp (tcbs k t)"
    using fr(1) by (simp add: set_current_def k'(2))
  ultimately show ?thesis using p(1) k' cur
    by (intro exI [of _ t] exI [of _ k']) (simp add: yield_def irq_disable_save_def checked_switch_to_def Let_def)
qed

section \<open>Properties\<close>

text \<open>C23: \<open>pick_next_ready\<close> implements the abstract selection under every policy: with the queue lock free
  it returns; it hands out a READY task of the caller's own queue whenever there is one and otherwise
  the running task, so a BLOCKED task never gets the CPU from it; the cursor ends on the task handed out; and nothing
  but the cursor and the statistics of that queue differ afterwards, the lock and DAIF included.\<close>

theorem pick_next_ready_refines:
  assumes "rq_ok (this_rq c k)" and "locks k (Rq_lock (my_id c k)) = 0"
  shows "\<exists>t k'. pick_next_ready c k = Some (t, k') \<and> picks c k t k'"
  using assms by (rule pick_next_ready_picks)

text \<open>C25: round robin does not starve. Over any run of selections on a queue, whatever else changes
  between them, a task of the queue that stays READY is selected within as many selections as the
  queue has tasks.\<close>

theorem roundrobin_bounded_wait:
  fixes ks :: "nat \<Rightarrow> 'z kernel_scheme"
  assumes "rq_ok (this_rq c (ks 0))" and "u \<in> set (rq_tasks (this_rq c (ks 0)))"
    and "\<And>i. ready (ks i) u"
    and "\<And>i. this_rq c (ks (Suc i)) = this_rq c (snd (roundrobin_select_next c (ks i)))"
  shows "\<exists>n<num_tasks (this_rq c (ks 0)). fst (roundrobin_select_next c (ks n)) = u"
proof -
  have "wf_rq (this_rq c (ks 0))" using assms(1) by (simp add: rq_ok_def)
  from after_covers [OF this assms(2)] obtain d where
    "1 \<le> d" "d \<le> num_tasks (this_rq c (ks 0))"
    "tasks (this_rq c (ks 0)) ! after (this_rq c (ks 0)) d = u" by blast
  moreover from roundrobin_wait [OF assms(1) this assms(3,4)] obtain n where
    "n < d" "fst (roundrobin_select_next c (ks n)) = u" by blast
  ultimately show ?thesis by (intro exI [of _ n]) simp
qed

text \<open>The load-aware policy hands out a READY task of the queue whose EWMA load is at most that of
  every READY task of the queue.\<close>

lemma load_aware_least_load:
  assumes "rq_ok (this_rq c k)" and "u \<in> set (rq_tasks (this_rq c k))" and "ready k u"
  shows "fst (load_aware_select_next c k) \<in> set (rq_tasks (this_rq c k)) \<and>
     ready k (fst (load_aware_select_next c k)) \<and>
     ewma_load (tcbs k (fst (load_aware_select_next c k))) \<le> ewma_load (tcbs k u)"
proof -
  let ?rq = "this_rq c k"
  have wf: "wf_rq ?rq" using assms(1) by (simp add: rq_ok_def)
  obtain m where m: "1 \<le> m" "m \<le> num_tasks ?rq" "tasks ?rq ! after ?rq m = u"
    using after_covers [OF wf assms(2)] by blast
  from load_aware_select [OF assms(1)] assms(2,3) obtain j where j: "1 \<le> j" "j \<le> num_tasks ?rq"
    "load_aware_select_next c k = (tasks ?rq ! after ?rq j, choose_slot c (after ?rq j) k)"
    "ready k (tasks ?rq ! after ?rq j)"
    "\<forall>m. 1 \<le> m \<longrightarrow> m \<le> num_tasks ?rq \<longrightarrow> ready k (tasks ?rq ! after ?rq m) \<longrightarrow>
       ewma_load (tcbs k (tasks ?rq ! after ?rq j)) \<le> ewma_load (tcbs k (tasks ?rq ! after ?rq m))"
    by blast
  with m assms(3) after_in_rq(2) [OF wf j(1,2)] show ?thesis by auto
qed

text \<open>Ties are broken in round-robin order: when all READY tasks of the queue carry the same load,
  the load-aware policy is the round-robin policy, result and state alike.\<close>

lemma load_aware_roundrobin:
  assumes ok: "rq_ok (this_rq c k)"
    and eq: "\<forall>u\<in>set (rq_tasks (this_rq c k)). ready k u \<longrightarrow> ewma_load (tcbs k u) = x"
  shows "load_aware_select_next c k = roundrobin_select_next c k"
proof (cases "\<exists>u\<in>set (rq_tasks (this_rq c k)). ready k u")
  case True
  let ?rq = "this_rq c k" let ?rdy = "\<lambda>m. ready k (tasks ?rq ! after ?rq m)"
  have wf: "wf_rq ?rq" using ok by (simp add: rq_ok_def)
  obtain i where i: "1 \<le> i" "i \<le> num_tasks ?rq" "?rdy i" "\<forall>m. 1 \<le> m \<longrightarrow> m < i \<longrightarrow> \<not> ?rdy m"
    "roundrobin_select_next c k = (tasks ?rq ! after ?rq i, choose_slot c (after ?rq i) k)"
    using roundrobin_select [OF ok True] by blast
  obtain j where j: "1 \<le> j" "j \<le> num_tasks ?rq" "?rdy j"
    "load_aware_select_next c k = (tasks ?rq ! after ?rq j, choose_slot c (after ?rq j) k)"
    "\<forall>m. 1 \<le> m \<longrightarrow> m \<le> num_tasks ?rq \<longrightarrow> ?rdy m \<longrightarrow> m < j \<longrightarrow>
       ewma_load (tcbs k (tasks ?rq ! after ?rq j)) < ewma_load (tcbs k (tasks ?rq ! after ?rq m))"
    using load_aware_select [OF ok True] by blast
  have load: "ewma_load (tcbs k (tasks ?rq ! after ?rq m)) = x"
    if "1 \<le> m" "m \<le> num_tasks ?rq" "?rdy m" for m
    using eq after_in_rq(2) [OF wf that(1,2)] that(3) by blast
  have "i = j"
  proof (rule linorder_cases [of i j])
    assume "i < j"
    then show ?thesis using j(5) i(1-3) load [OF i(1-3)] load [OF j(1-3)] by auto
  next
    assume "j < i"
    then show ?thesis using i(4) j(1,3) by blast
  qed
  then show ?thesis using i(5) j(4) by simp
next
  case False
  let ?rq = "this_rq c k"
  have wf: "wf_rq ?rq" using ok by (simp add: rq_ok_def)
  have "rr_scan k ?rq 1 = None" unfolding rr_scan_None using False after_in_rq(2) [OF wf] by blast
  moreover obtain b y where sc: "la_scan k ?rq 1 NULL (-1) = (b, y)" by fastforce
  moreover have "b = NULL"
    using load_aware_scan [OF ok sc] False after_in_rq(2) [OF wf]
    by (fastforce simp: la_inv_def Let_def less_Suc_eq_le split: if_splits)
  ultimately show ?thesis by (simp add: roundrobin_select_next_def load_aware_select_next_def)
qed

text \<open>C29: the load estimator over the ticks of a running task, in 32-bit arithmetic. \<open>n\<close> ticks change
  nothing but the load of the running task; a load up to 997 stays at most 997 (no intermediate value
  wraps), never decreases, and is 997 after 18 ticks or more. As no other operation writes loads, the
  load of a task counts its ticks up to saturation and never decays.\<close>

theorem ewma_saturation:
  assumes "active_policy k \<noteq> Policy_roundrobin" and "unat (ewma_load (tcbs k (current c k))) \<le> 997"
  shows "\<exists>y. (sched_on_tick c ^^ n) k = upd_tcb (current c k) (\<lambda>t. t\<lparr>ewma_load := y\<rparr>) k \<and>
     unat y \<le> 997 \<and> ewma_load (tcbs k (current c k)) \<le> y \<and> (18 \<le> n \<longrightarrow> y = 997)"
  using sched_ticks [OF assms(1), of n c] ewma_next_saturates [OF assms(2), of n]
  by (intro exI [of _ "(ewma_next ^^ n) (ewma_load (tcbs k (current c k)))"])
     (simp add: word_le_nat_alt)

section \<open>Witnesses\<close>

text \<open>Three tasks on CPU 0: the first is running, the second is BLOCKED, the third READY.\<close>

definition demo_rq :: runqueue where
  "demo_rq = sample_rq\<lparr>tasks := [0x1000, 0x3000, 0x5000, 0, 0, 0, 0, 0], num_tasks := 3\<rparr>"

definition demo_kernel :: kernel where
  "demo_kernel = sample_kernel\<lparr>
     tcbs := (\<lambda>t. sample_tcb\<lparr>tcb_state := (if t = 0x3000 then 1 else 0),
                              ewma_load := (if t = 0x1000 then 510 else 300)\<rparr>),
     cpu_locals := (\<lambda>i. (cpu_locals sample_kernel i)\<lparr>curr := (if i = 0 then 0x1000 else 0)\<rparr>),
     runqueues := (\<lambda>i. if i = 0 then demo_rq else sample_rq)\<rparr>"

lemmas demo_defs = demo_kernel_def demo_rq_def sample_defs header_consts

lemma demo_rq_simps [simp]: "this_rq 0 demo_kernel = demo_rq" "my_id 0 demo_kernel = 0"
  "current 0 demo_kernel = 0x1000" "rq_tasks demo_rq = [0x1000, 0x3000, 0x5000]" "num_tasks demo_rq = 3"
  "tcb_state (tcbs demo_kernel t) = (if t = 0x3000 then 1 else 0)" "locks demo_kernel l = 0"
  "ewma_load (tcbs demo_kernel t) = (if t = 0x1000 then 510 else 300)" "daif (regs demo_kernel c) = DAIF_I"
  by (simp_all add: this_rq_def this_cpu_def current_def rq_tasks_def demo_defs)

lemma demo_rq_ok: "rq_ok demo_rq"
  by (simp add: rq_ok_def wf_rq_def) (simp add: demo_defs)

lemma roundrobin_tcbs [simp]: "tcbs (snd (roundrobin_select_next c k)) = tcbs k"
  by (simp add: roundrobin_select_next_def resync_current_def choose_slot_def split: option.split)

theorem roundrobin_bounded_wait_witness:
  "\<exists>n<3. fst (roundrobin_select_next 0 (((\<lambda>k. snd (roundrobin_select_next 0 k)) ^^ n) demo_kernel)) = 0x5000"
proof -
  let ?ks = "\<lambda>n. ((\<lambda>k. snd (roundrobin_select_next 0 k)) ^^ n) demo_kernel"
  have "tcbs (?ks n) = tcbs demo_kernel" for n by (induction n) auto
  then have "ready (?ks n) 0x5000" for n by (simp add: demo_defs)
  then show ?thesis using roundrobin_bounded_wait [of 0 ?ks "0x5000"] demo_rq_ok by simp
qed

theorem ewma_saturation_witness:
  "ewma_load (tcbs ((sched_on_tick 0 ^^ 18) demo_kernel) 0x1000) = 997"
proof -
  have "active_policy demo_kernel \<noteq> Policy_roundrobin" by (simp add: demo_defs)
  then show ?thesis using ewma_saturation [of demo_kernel 0 18] by auto
qed

theorem pick_next_ready_refines_witness:
  "\<exists>t k'. pick_next_ready 0 demo_kernel = Some (t, k') \<and> picks 0 demo_kernel t k' \<and> t \<noteq> 0x3000"
proof -
  obtain t k' where p: "pick_next_ready 0 demo_kernel = Some (t, k')" "picks 0 demo_kernel t k'"
    using pick_next_ready_refines [of 0 demo_kernel] demo_rq_ok by auto
  have "t \<noteq> 0x3000" using picks_target [OF p(2)] by auto
  with p show ?thesis by blast
qed

end
