(* ===== verification/Balance.thy ===== *)
theory Balance
  imports Policy
begin

text \<open>
  Migration and load balancing (\<open>sched_migrate\<close> and \<open>sched_load_balance_pass\<close> of
  \<open>kernel/sched.c\<close>), and the invariant of the run queues that every operation of the scheduler
  keeps. The step relation \<open>sched_step\<close> runs whole operations; the theory \<open>Races\<close> looks inside them.
\<close>

section \<open>Migration\<close>

text \<open>Taking the task in slot \<open>idx\<close> out of one queue and appending it to another.\<close>

definition migrate_move :: "u64 \<Rightarrow> nat \<Rightarrow> nat \<Rightarrow> nat \<Rightarrow> 'z kernel_scheme \<Rightarrow> 'z kernel_scheme" where
  "migrate_move t idx src dst k =
    (let k = upd_rq src (\<lambda>rq. rq\<lparr>tasks := (tasks rq)[idx := tasks rq ! (num_tasks rq - 1)]\<rparr>) k;
         k = upd_rq src (\<lambda>rq. rq\<lparr>num_tasks := num_tasks rq - 1\<rparr>) k;
         k = upd_rq src (\<lambda>rq. if current_idx rq \<ge> num_tasks rq then rq\<lparr>current_idx := 0\<rparr> else rq) k;
         k = upd_rq dst (\<lambda>rq. rq\<lparr>tasks := (tasks rq)[num_tasks rq := t]\<rparr>) k;
         k = upd_tcb t (\<lambda>x. x\<lparr>tcb_cpu := dst\<rparr>) k
     in upd_rq dst (\<lambda>rq. rq\<lparr>num_tasks := num_tasks rq + 1\<rparr>) k)"

text \<open>The section of \<open>sched_migrate\<close> under both queue locks.\<close>

definition migrate_locked :: "u64 \<Rightarrow> nat \<Rightarrow> nat \<Rightarrow> 'z kernel_scheme \<Rightarrow> bool \<times> 'z kernel_scheme" where
  "migrate_locked t src dst k =
    (if tcb_state (tcbs k t) = 0 \<and> t \<noteq> curr (cpu_locals k src) then
       (case find_task (runqueues k src) t 0 of
          Some idx \<Rightarrow> if num_tasks (runqueues k dst) < MAX_TASKS
                      then (True, migrate_move t idx src dst k) else (False, k)
        | None \<Rightarrow> (False, k))
     else (False, k))"

definition sched_migrate ::
    "nat \<Rightarrow> u64 \<Rightarrow> nat \<Rightarrow> 'z kernel_scheme \<Rightarrow> (int \<times> 'z kernel_scheme) option" where
  "sched_migrate c t dst k =
    (let src = tcb_cpu (tcbs k t) in
     if dst = src \<or> dst = 0 then Some (-1, k)
     else do {
       let lo = (if src < dst then src else dst);
       let hi = (if src < dst then dst else src);
       _ \<leftarrow> rq_at lo k;
       _ \<leftarrow> rq_at hi k;
       (f, k) \<leftarrow> spin_lock_irqsave c (Rq_lock lo) k;
       k \<leftarrow> spin_lock (Rq_lock hi) k;
       let (ok, k) = migrate_locked t src dst k;
       let k = spin_unlock (Rq_lock hi) k;
       let k = spin_unlock_irqrestore c (Rq_lock lo) f k;
       k \<leftarrow> (if ok then do {
               let k = dsb_sev k;
               k \<leftarrow> klog c ''LB: migrated task, src='' (of_nat src) True '''' k;
               klog c '' dst='' (of_nat dst) True [CHR 0x0D, CHR 0x0A] k }
             else Some k);
       Some (if ok then 0 else -1, k) })"

section \<open>The balancing pass\<close>

text \<open>The scan for the busiest and the idlest secondary, with its four locals.\<close>

function lb_scan :: "'z kernel_scheme \<Rightarrow> nat \<Rightarrow> int \<times> int \<times> int \<times> int \<Rightarrow> (int \<times> int \<times> int \<times> int) option" where
  "lb_scan k cpu (busiest, busiest_n, idlest, idlest_n) =
    (if cpu < smp_online k then do {
       rq \<leftarrow> rq_at cpu k;
       let n = int (num_tasks rq);
       let (busiest, busiest_n) = (if n > busiest_n then (int cpu, n) else (busiest, busiest_n));
       let (idlest, idlest_n) = (if n < idlest_n then (int cpu, n) else (idlest, idlest_n));
       lb_scan k (cpu + 1) (busiest, busiest_n, idlest, idlest_n) }
     else Some (busiest, busiest_n, idlest, idlest_n))"
  by pat_completeness auto
termination
  by (relation "measure (\<lambda>(k, cpu, _). smp_online k - cpu)") auto

declare lb_scan.simps [simp del]

function lb_victim :: "'z kernel_scheme \<Rightarrow> nat \<Rightarrow> nat \<Rightarrow> u64" where
  "lb_victim k busiest i =
    (if i < num_tasks (runqueues k busiest) then
       (let t = tasks (runqueues k busiest) ! i
        in if tcb_state (tcbs k t) = 0 \<and> t \<noteq> curr (cpu_locals k busiest) \<and> pinned (tcbs k t) = 0 then t
           else lb_victim k busiest (i + 1))
     else NULL)"
  by pat_completeness auto
termination
  by (relation "measure (\<lambda>(k, b, i). num_tasks (runqueues k b) - i)") auto

declare lb_victim.simps [simp del]

definition sched_load_balance_pass :: "nat \<Rightarrow> 'z kernel_scheme \<Rightarrow> 'z kernel_scheme option" where
  "sched_load_balance_pass c k = do {
     (busiest, busiest_n, idlest, idlest_n) \<leftarrow> lb_scan k 1 (-1, -1, -1, 2 ^ 30);
     if busiest < 0 \<or> idlest < 0 \<or> busiest = idlest then Some k
     else if busiest_n - idlest_n < 2 then Some k
     else do {
       (f, k) \<leftarrow> spin_lock_irqsave c (Rq_lock (nat busiest)) k;
       let victim = lb_victim k (nat busiest) 0;
       let k = spin_unlock_irqrestore c (Rq_lock (nat busiest)) f k;
       if victim \<noteq> NULL then do { (_, k) \<leftarrow> sched_migrate c victim (nat idlest) k; Some k }
       else Some k } }"

section \<open>The invariant of the run queues\<close>

text \<open>Every queue is well formed, and a task on the queue of a CPU has that CPU as its home: so no
  task is on two queues.\<close>

definition sched_inv :: "'z kernel_scheme \<Rightarrow> bool" where
  "sched_inv k \<longleftrightarrow> (\<forall>i<MAX_CPUS. rq_ok (runqueues k i) \<and>
     (\<forall>t\<in>set (rq_tasks (runqueues k i)). tcb_cpu (tcbs k t) = i))"

definition percpu_ok :: "'z kernel_scheme \<Rightarrow> bool" where
  "percpu_ok k \<longleftrightarrow> (\<forall>c<MAX_CPUS. tpidr (regs k c) = c \<and> cpu_id (cpu_locals k c) = c)"

lemma sched_invI:
  assumes "\<And>i. i < MAX_CPUS \<Longrightarrow> rq_ok (runqueues k i)"
    and "\<And>i t. i < MAX_CPUS \<Longrightarrow> t \<in> set (rq_tasks (runqueues k i)) \<Longrightarrow> tcb_cpu (tcbs k t) = i"
  shows "sched_inv k"
  using assms by (simp add: sched_inv_def)

lemma sched_invD:
  assumes "sched_inv k" and "i < MAX_CPUS"
  shows "rq_ok (runqueues k i)" and "t \<in> set (rq_tasks (runqueues k i)) \<Longrightarrow> tcb_cpu (tcbs k t) = i"
  using assms by (simp_all add: sched_inv_def)

lemma percpu_simps:
  assumes "percpu_ok k" and "c < MAX_CPUS"
  shows "my_id c k = c" and "this_rq c k = runqueues k c" and "current c k = curr (cpu_locals k c)"
  using assms by (simp_all add: percpu_ok_def this_cpu_def this_rq_def current_def)

text \<open>What an operation must leave alone for the invariant to survive.\<close>

lemma sched_inv_cong:
  assumes "sched_inv k" and "runqueues k' = runqueues k" and "\<And>t. tcb_cpu (tcbs k' t) = tcb_cpu (tcbs k t)"
  shows "sched_inv k'"
  using assms by (simp add: sched_inv_def)

section \<open>What a migration does\<close>

definition migratable :: "'z kernel_scheme \<Rightarrow> u64 \<Rightarrow> nat \<Rightarrow> bool" where
  "migratable k t dst \<longleftrightarrow> (let src = tcb_cpu (tcbs k t) in
     dst \<noteq> src \<and> dst \<noteq> 0 \<and> ready k t \<and> t \<noteq> curr (cpu_locals k src) \<and>
     t \<in> set (rq_tasks (runqueues k src)) \<and> num_tasks (runqueues k dst) < MAX_TASKS)"

text \<open>The abstract move: \<open>t\<close> leaves the queue of \<open>src\<close> and joins the end of the queue of \<open>dst\<close>.\<close>

definition moves :: "u64 \<Rightarrow> nat \<Rightarrow> nat \<Rightarrow> 'z kernel_scheme \<Rightarrow> 'z kernel_scheme \<Rightarrow> bool" where
  "moves t src dst k k' \<longleftrightarrow>
     mset (rq_tasks (runqueues k' src)) = mset (rq_tasks (runqueues k src)) - {#t#} \<and>
     rq_tasks (runqueues k' dst) = rq_tasks (runqueues k dst) @ [t] \<and>
     (\<forall>i. i \<noteq> src \<longrightarrow> i \<noteq> dst \<longrightarrow> runqueues k' i = runqueues k i) \<and>
     (\<exists>qs l. k' = k\<lparr>tcbs := (tcbs k)(t := (tcbs k t)\<lparr>tcb_cpu := dst\<rparr>), runqueues := qs, io_log := l\<rparr>)"

lemma migrate_move_frame:
  "migrate_move t idx src dst k = k\<lparr>tcbs := (tcbs k)(t := (tcbs k t)\<lparr>tcb_cpu := dst\<rparr>),
     runqueues := runqueues (migrate_move t idx src dst k)\<rparr>"
  by (simp add: migrate_move_def Let_def)

lemma migrate_move_queues:
  assumes "src \<noteq> dst"
  shows "tasks (runqueues (migrate_move t idx src dst k) src) =
      (tasks (runqueues k src))[idx := tasks (runqueues k src) ! (num_tasks (runqueues k src) - 1)]"
    and "num_tasks (runqueues (migrate_move t idx src dst k) src) = num_tasks (runqueues k src) - 1"
    and "select_count (runqueues (migrate_move t idx src dst k) i) = select_count (runqueues k i)"
    and "current_idx (runqueues (migrate_move t idx src dst k) src) =
      (if current_idx (runqueues k src) \<ge> num_tasks (runqueues k src) - 1 then 0
       else current_idx (runqueues k src))"
    and "tasks (runqueues (migrate_move t idx src dst k) dst) =
      (tasks (runqueues k dst))[num_tasks (runqueues k dst) := t]"
    and "num_tasks (runqueues (migrate_move t idx src dst k) dst) = num_tasks (runqueues k dst) + 1"
    and "current_idx (runqueues (migrate_move t idx src dst k) dst) = current_idx (runqueues k dst)"
    and "i \<noteq> src \<Longrightarrow> i \<noteq> dst \<Longrightarrow> runqueues (migrate_move t idx src dst k) i = runqueues k i"
  using assms by (simp_all add: migrate_move_def Let_def)

lemma migrate_move_moves:
  assumes "src \<noteq> dst" and "wf_rq (runqueues k src)" and "wf_rq (runqueues k dst)"
    and "idx < num_tasks (runqueues k src)" and "tasks (runqueues k src) ! idx = t"
    and "num_tasks (runqueues k dst) < MAX_TASKS"
  shows "moves t src dst k (migrate_move t idx src dst k)"
proof -
  have "mset (rq_tasks (runqueues (migrate_move t idx src dst k) src)) =
      mset (rq_tasks (runqueues k src)) - {#t#}"
    using mset_swap_remove [of "num_tasks (runqueues k src)" "tasks (runqueues k src)" idx] assms
    by (simp add: rq_tasks_def migrate_move_queues wf_rq_def)
  moreover have "rq_tasks (runqueues (migrate_move t idx src dst k) dst) = rq_tasks (runqueues k dst) @ [t]"
    using assms by (simp add: rq_tasks_def migrate_move_queues wf_rq_def set_take_update_append)
  moreover have "migrate_move t idx src dst k = k\<lparr>tcbs := (tcbs k)(t := (tcbs k t)\<lparr>tcb_cpu := dst\<rparr>),
      runqueues := runqueues (migrate_move t idx src dst k), io_log := io_log (migrate_move t idx src dst k)\<rparr>"
    by (simp add: migrate_move_def Let_def)
  ultimately show ?thesis using assms(1) unfolding moves_def
    by (intro conjI exI allI impI) (simp_all add: migrate_move_queues)
qed

lemma migrate_move_wf:
  assumes "src \<noteq> dst" and "wf_rq (runqueues k src)" and "wf_rq (runqueues k dst)"
    and "num_tasks (runqueues k dst) < MAX_TASKS" and "wf_rq (runqueues k i)"
  shows "wf_rq (runqueues (migrate_move t idx src dst k) i)"
proof -
  consider "i = src" | "i = dst" | "i \<noteq> src" "i \<noteq> dst" by blast
  then show ?thesis
    using assms by cases (auto simp: wf_rq_def migrate_move_queues)
qed

lemma migrate_move_regs_locks:
  "migrate_move t idx src dst (k\<lparr>regs := r, locks := l\<rparr>) = (migrate_move t idx src dst k)\<lparr>regs := r, locks := l\<rparr>"
  by (simp add: migrate_move_def Let_def)

lemma moves_source:
  assumes "moves t src dst k k'" and "distinct (rq_tasks (runqueues k src))"
  shows "distinct (rq_tasks (runqueues k' src))" "set (rq_tasks (runqueues k' src)) = set (rq_tasks (runqueues k src)) - {t}"
proof -
  have ms: "mset (rq_tasks (runqueues k' src)) = mset (remove1 t (rq_tasks (runqueues k src)))"
    using assms(1) by (simp add: moves_def)
  show "distinct (rq_tasks (runqueues k' src))" using mset_eq_imp_distinct_iff [OF ms] assms(2) by simp
  show "set (rq_tasks (runqueues k' src)) = set (rq_tasks (runqueues k src)) - {t}" using mset_eq_setD [OF ms] assms(2) by simp
qed

lemma moves_inv:
  assumes inv: "sched_inv k" and mv: "moves t src dst k k'" and ne: "src \<noteq> dst"
    and lt: "src < MAX_CPUS" "dst < MAX_CPUS" and t: "t \<in> set (rq_tasks (runqueues k src))"
    and wf: "\<And>i. i < MAX_CPUS \<Longrightarrow> wf_rq (runqueues k' i)"
  shows "sched_inv k'"
proof (rule sched_invI)
  fix i assume i: "i < MAX_CPUS"
  have old: "distinct (rq_tasks (runqueues k j))" "NULL \<notin> set (rq_tasks (runqueues k j))" "u \<in> set (rq_tasks (runqueues k j)) \<Longrightarrow> tcb_cpu (tcbs k u) = j"
    if "j < MAX_CPUS" for j u using sched_invD [OF inv that] by (simp_all add: rq_ok_def)
  have cpu: "tcb_cpu (tcbs k' u) = (if u = t then dst else tcb_cpu (tcbs k u))" for u using mv by (auto simp: moves_def)
  have ds: "rq_tasks (runqueues k' dst) = rq_tasks (runqueues k dst) @ [t]" using mv by (simp add: moves_def)
  have t_src: "t \<notin> set (rq_tasks (runqueues k j))" if "j < MAX_CPUS" "j \<noteq> src" for j
    using old(3) [OF that(1)] old(3) [OF lt(1) t] that(2) by blast
  note src = moves_source [OF mv old(1) [OF lt(1)]]
  consider "i = src" | "i = dst" | "i \<noteq> src" "i \<noteq> dst" by blast
  then have "rq_ok (runqueues k' i) \<and> (\<forall>u \<in> set (rq_tasks (runqueues k' i)). tcb_cpu (tcbs k' u) = i)"
  proof cases
    case 1
    then show ?thesis using wf [OF i] src old(2,3) [OF i] cpu by (auto simp: rq_ok_def)
  next
    case 2
    then show ?thesis using wf [OF i] ds old [OF i] t_src [OF i] ne old(2) [OF lt(1)] t cpu by (auto simp: rq_ok_def)
  next
    case 3
    then have "runqueues k' i = runqueues k i" using mv by (simp add: moves_def)
    then show ?thesis using sched_invD(1) [OF inv i] old(3) [OF i] t_src [OF i 3(1)] cpu by auto
  qed
  then show "rq_ok (runqueues k' i)" "u \<in> set (rq_tasks (runqueues k' i)) \<Longrightarrow> tcb_cpu (tcbs k' u) = i" for u by auto
qed

lemma moves_log:
  assumes "moves t src dst k k'"
  shows "moves t src dst k (k'\<lparr>io_log := l\<rparr>)"
  using assms unfolding moves_def by (elim conjE exE) (intro conjI exI; simp)

definition all_free :: "'z kernel_scheme \<Rightarrow> bool" where
  "all_free k \<longleftrightarrow> (\<forall>i<MAX_CPUS. locks k (Rq_lock i) = 0) \<and> locks k Uart_lock = 0 \<and> uart_live k"

lemma migrate_log:
  assumes "all_free k"
  shows "\<exists>l. do { k \<leftarrow> klog c ''LB: migrated task, src='' (of_nat src) True '''' (dsb_sev k);
               klog c '' dst='' (of_nat dst) True [CHR 0x0D, CHR 0x0A] k }
     = Some (k\<lparr>io_log := l\<rparr>)"
proof -
  have free: "locks (k\<lparr>io_log := x\<rparr>) Uart_lock = 0" "uart_live (k\<lparr>io_log := x\<rparr>)" for x
    using assms by (simp_all add: all_free_def uart_live_def)
  have "\<exists>l. klog c p v b s (k\<lparr>io_log := x\<rparr>) = Some (k\<lparr>io_log := l\<rparr>)" for x p v b s
    using klog_returns [OF free, of c p v b s x] by auto
  then show ?thesis by (metis dsb_sev_def io_write_def bind.bind_lunit)
qed

lemma migrate_locked_regs_locks:
  "migrate_locked t src dst (k\<lparr>regs := r, locks := l\<rparr>) =
     (fst (migrate_locked t src dst k), (snd (migrate_locked t src dst k))\<lparr>regs := r, locks := l\<rparr>)"
  by (simp add: migrate_locked_def migrate_move_regs_locks split: option.split)

lemma migrate_locked_result:
  assumes inv: "sched_inv k" and src: "src = tcb_cpu (tcbs k t)" "src < MAX_CPUS"
    and dst: "dst < MAX_CPUS" "dst \<noteq> src" "dst \<noteq> 0"
  shows "if migratable k t dst
    then \<exists>k'. migrate_locked t src dst k = (True, k') \<and> moves t src dst k k' \<and> sched_inv k' \<and>
      regs k' = regs k \<and> locks k' = locks k
    else migrate_locked t src dst k = (False, k)"
proof (cases "migratable k t dst")
  case True
  have wf: "wf_rq (runqueues k i)" if "i < MAX_CPUS" for i
    using sched_invD(1) [OF inv that] by (simp add: rq_ok_def)
  from True have m: "ready k t" "t \<noteq> curr (cpu_locals k src)" "t \<in> set (rq_tasks (runqueues k src))"
    "num_tasks (runqueues k dst) < MAX_TASKS" using src(1) by (auto simp: migratable_def Let_def)
  then obtain idx where f: "find_task (runqueues k src) t 0 = Some idx"
    using find_task_rq(1) [OF wf [OF src(2)]] by fastforce
  from find_task_rq(2) [OF wf [OF src(2)] f] have idx: "idx < num_tasks (runqueues k src)"
    "tasks (runqueues k src) ! idx = t" by (auto simp: nth_rq_tasks)
  let ?k = "migrate_move t idx src dst k"
  have mv: "moves t src dst k ?k"
    using migrate_move_moves [of src dst k idx t] wf src dst idx m(4) by simp
  moreover have "sched_inv ?k"
    by (rule moves_inv [OF inv mv _ src(2) dst(1) m(3)])
       (use dst(2) wf src(2) dst(1) m(4) in \<open>auto intro: migrate_move_wf\<close>)
  moreover have "regs ?k = regs k" "locks ?k = locks k"
    by (simp_all add: migrate_move_def Let_def)
  ultimately show ?thesis using True m f by (simp add: migrate_locked_def)
next
  case False
  have wf: "wf_rq (runqueues k src)" using sched_invD(1) [OF inv src(2)] by (simp add: rq_ok_def)
  show ?thesis using False dst(2,3) src(1) find_task_rq(1) [OF wf, of t]
    by (auto simp: migratable_def migrate_locked_def Let_def split: option.split)
qed

text \<open>Taking both queue locks, working, and releasing them.\<close>

lemma migrate_under_locks:
  assumes "src < MAX_CPUS" "dst < MAX_CPUS" "dst \<noteq> src" "dst \<noteq> 0" "src = tcb_cpu (tcbs k t)"
    and free: "all_free k" and loc: "migrate_locked t src dst k = (ok, k1)"
    and same: "regs k1 = regs k" "locks k1 = locks k"
  shows "sched_migrate c t dst k = do {
       k \<leftarrow> (if ok then do {
               k \<leftarrow> klog c ''LB: migrated task, src='' (of_nat src) True '''' (dsb_sev k1);
               klog c '' dst='' (of_nat dst) True [CHR 0x0D, CHR 0x0A] k }
             else Some k1);
       Some (if ok then 0 else -1, k) }"
proof -
  let ?lo = "if src < dst then src else dst" and ?hi = "if src < dst then dst else src"
  have lt: "?lo < MAX_CPUS" "?hi < MAX_CPUS" "?lo \<noteq> ?hi" using assms(1-3) by auto
  have l0: "locks k (Rq_lock ?lo) = 0" "locks k (Rq_lock ?hi) = 0"
    using free lt by (auto simp: all_free_def)
  let ?R = "(regs k)(c := (regs k c)\<lparr>daif := daif (regs k c) OR DAIF_I\<rparr>)"
  let ?L = "(locks k)(Rq_lock ?lo := 1, Rq_lock ?hi := 1)"
  have lock: "do { (f, k) \<leftarrow> spin_lock_irqsave c (Rq_lock ?lo) k; k \<leftarrow> spin_lock (Rq_lock ?hi) k; g f k }
      = g (daif (regs k c)) (k\<lparr>regs := ?R, locks := ?L\<rparr>)" for g :: "u64 \<Rightarrow> 'a kernel_scheme \<Rightarrow> (int \<times> 'a kernel_scheme) option"
    using l0 lt(3) by (simp add: spin_lock_irqsave_free spin_lock_def)
  have "?L(Rq_lock ?hi := 0, Rq_lock ?lo := 0) = locks k" using l0 lt(3) by (auto simp: fun_eq_iff)
  moreover have "?R(c := (?R c)\<lparr>daif := daif (regs k c)\<rparr>) = regs k" by (auto simp: fun_eq_iff)
  ultimately have unlock: "spin_unlock_irqrestore c (Rq_lock ?lo) (daif (regs k c))
      (spin_unlock (Rq_lock ?hi) (k1\<lparr>regs := ?R, locks := ?L\<rparr>)) = k1"
    using same by (simp add: lock_defs)
  have ml: "migrate_locked t src dst (k\<lparr>regs := ?R, locks := ?L\<rparr>) = (ok, k1\<lparr>regs := ?R, locks := ?L\<rparr>)"
    using loc migrate_locked_regs_locks [where k = k and r = ?R and l = ?L and t = t and src = src and dst = dst] by simp
  have rq: "rq_at ?lo k = Some (runqueues k ?lo)" "rq_at ?hi k = Some (runqueues k ?hi)"
    using lt(1,2) by (simp_all only: rq_at_def if_True)
  show ?thesis
    unfolding sched_migrate_def Let_def assms(5) [symmetric] rq bind.bind_lunit
    unfolding lock ml prod.case unlock
    using assms(3,4) by simp
qed

lemma migrate_result:
  assumes inv: "sched_inv k" and free: "all_free k"
    and src: "src = tcb_cpu (tcbs k t)" "src < MAX_CPUS" and dst: "dst < MAX_CPUS"
  shows "if migratable k t dst
    then \<exists>k'. sched_migrate c t dst k = Some (0, k') \<and> moves t src dst k k' \<and> sched_inv k'
    else sched_migrate c t dst k = Some (-1, k)"
proof (cases "dst = src \<or> dst = 0")
  case True
  then show ?thesis using src by (auto simp: migratable_def sched_migrate_def Let_def)
next
  case False
  then have ne: "dst \<noteq> src" "dst \<noteq> 0" by auto
  note res = migrate_locked_result [OF inv src dst ne] and unl = migrate_under_locks [OF src(2) dst ne src(1) free]
  show ?thesis
  proof (cases "migratable k t dst")
    case True
    then obtain k1 where k1: "migrate_locked t src dst k = (True, k1)" "moves t src dst k k1" "sched_inv k1"
      "regs k1 = regs k" "locks k1 = locks k" using res by auto
    have "all_free k1" using free k1(2) by (auto simp: all_free_def moves_def uart_live_def)
    from migrate_log [OF this, of c src dst] obtain l where
      "do { k \<leftarrow> klog c ''LB: migrated task, src='' (of_nat src) True '''' (dsb_sev k1);
               klog c '' dst='' (of_nat dst) True [CHR 0x0D, CHR 0x0A] k } = Some (k1\<lparr>io_log := l\<rparr>)" ..
    with unl [OF k1(1,4,5), of c] have "sched_migrate c t dst k = Some (0, k1\<lparr>io_log := l\<rparr>)" by simp
    moreover have "sched_inv (k1\<lparr>io_log := l\<rparr>)" using k1(3) by (rule sched_inv_cong) simp_all
    ultimately show ?thesis using True moves_log [OF k1(2)] by auto
  next
    case False
    then show ?thesis using res unl [of False k c] by simp
  qed
qed

section \<open>What a balancing pass does\<close>

definition secondary :: "'z kernel_scheme \<Rightarrow> nat \<Rightarrow> bool" where
  "secondary k i \<longleftrightarrow> 1 \<le> i \<and> i < smp_online k"

definition lb_inv :: "'z kernel_scheme \<Rightarrow> nat \<Rightarrow> int \<times> int \<times> int \<times> int \<Rightarrow> bool" where
  "lb_inv k cpu s \<longleftrightarrow>
     (cpu = 1 \<and> s = (-1, -1, -1, 2 ^ 30)) \<or>
     (\<exists>b i. s = (int b, int (num_tasks (runqueues k b)), int i, int (num_tasks (runqueues k i))) \<and>
        1 \<le> b \<and> b < cpu \<and> 1 \<le> i \<and> i < cpu \<and>
        (\<forall>j. 1 \<le> j \<longrightarrow> j < cpu \<longrightarrow> num_tasks (runqueues k i) \<le> num_tasks (runqueues k j) \<and>
           num_tasks (runqueues k j) \<le> num_tasks (runqueues k b)))"

lemma lb_inv_step:
  assumes "lb_inv k cpu (b, bn, i, jn)" and "num_tasks (runqueues k cpu) \<le> MAX_TASKS" and "1 \<le> cpu"
  defines "n \<equiv> int (num_tasks (runqueues k cpu))"
  shows "lb_inv k (cpu + 1) (if n > bn then int cpu else b, if n > bn then n else bn,
     if n < jn then int cpu else i, if n < jn then n else jn)"
proof -
  from assms(1) consider "cpu = 1" "b = -1" "bn = -1" "i = -1" "jn = 2 ^ 30"
    | B I where "b = int B" "bn = int (num_tasks (runqueues k B))" "i = int I"
      "jn = int (num_tasks (runqueues k I))" "1 \<le> B" "B < cpu" "1 \<le> I" "I < cpu"
      "\<forall>j. 1 \<le> j \<longrightarrow> j < cpu \<longrightarrow> num_tasks (runqueues k I) \<le> num_tasks (runqueues k j) \<and>
           num_tasks (runqueues k j) \<le> num_tasks (runqueues k B)"
    by (auto simp: lb_inv_def)
  then show ?thesis
  proof cases
    case 1
    then show ?thesis using assms(2)
      by (auto simp: lb_inv_def n_def header_consts less_Suc_eq intro!: exI [of _ 1])
  next
    case 2
    let ?b = "if n > bn then cpu else B" and ?i = "if n < jn then cpu else I"
    have "num_tasks (runqueues k ?i) \<le> num_tasks (runqueues k j) \<and>
           num_tasks (runqueues k j) \<le> num_tasks (runqueues k ?b)" if "1 \<le> j" "j < cpu + 1" for j
    proof (cases "j = cpu")
      case False
      then have "num_tasks (runqueues k I) \<le> num_tasks (runqueues k j)"
        "num_tasks (runqueues k j) \<le> num_tasks (runqueues k B)" using that 2(9) by auto
      then show ?thesis using 2(2,4) by (auto simp: n_def)
    qed (use 2(2,4) in \<open>auto simp: n_def\<close>)
    then show ?thesis using 2(1-8) assms(3) unfolding lb_inv_def
      by (intro disjI2 exI [of _ ?b] exI [of _ ?i]) (auto simp: n_def)
  qed
qed

lemma lb_scan_inv:
  assumes "lb_inv k cpu s" and "1 \<le> cpu" and "cpu \<le> max 1 (smp_online k)" and "smp_online k \<le> MAX_CPUS"
    and "\<And>i. i < MAX_CPUS \<Longrightarrow> num_tasks (runqueues k i) \<le> MAX_TASKS"
  shows "\<exists>s'. lb_scan k cpu s = Some s' \<and> lb_inv k (max 1 (smp_online k)) s'"
  using assms(1-3)
proof (induction "smp_online k - cpu" arbitrary: cpu s rule: less_induct)
  case less
  obtain b bn i jn where s: "s = (b, bn, i, jn)" by (metis prod.exhaust)
  show ?case
  proof (cases "cpu < smp_online k")
    case True
    let ?n = "int (num_tasks (runqueues k cpu))"
    let ?s = "(if ?n > bn then int cpu else b, if ?n > bn then ?n else bn,
       if ?n < jn then int cpu else i, if ?n < jn then ?n else jn)"
    have "lb_scan k cpu s = lb_scan k (cpu + 1) ?s"
      using True assms(4) by (subst s, subst lb_scan.simps) (auto simp: rq_at_def Let_def)
    moreover have "lb_inv k (cpu + 1) ?s"
      using lb_inv_step [of k cpu b bn i jn] less.prems(1,2) assms(4,5) True s by simp
    ultimately show ?thesis using less.hyps [of "cpu + 1" ?s] True by simp
  next
    case False
    then have "cpu = max 1 (smp_online k)" using less.prems(2,3) by simp
    then show ?thesis using less.prems(1) False s by (subst s, subst lb_scan.simps) auto
  qed
qed

abbreviation eligible :: "'z kernel_scheme \<Rightarrow> nat \<Rightarrow> u64 \<Rightarrow> bool" where
  "eligible k b t \<equiv> ready k t \<and> t \<noteq> curr (cpu_locals k b) \<and> pinned (tcbs k t) = 0"

lemma lb_victim_found:
  assumes "lb_victim k b i \<noteq> NULL"
  shows "(\<exists>j<num_tasks (runqueues k b). tasks (runqueues k b) ! j = lb_victim k b i) \<and>
     eligible k b (lb_victim k b i)"
  using assms
proof (induction k b i rule: lb_victim.induct)
  case (1 k b i)
  then show ?case
    by (cases "i < num_tasks (runqueues k b) \<and> \<not> eligible k b (tasks (runqueues k b) ! i)")
       (auto simp: lb_victim.simps [of k b i] Let_def split: if_splits)
qed

lemma lb_victim_none:
  assumes "lb_victim k b i = NULL" and "\<And>j. j < num_tasks (runqueues k b) \<Longrightarrow> tasks (runqueues k b) ! j \<noteq> NULL"
    and "i \<le> j" and "j < num_tasks (runqueues k b)"
  shows "\<not> eligible k b (tasks (runqueues k b) ! j)"
  using assms
proof (induction k b i rule: lb_victim.induct)
  case (1 k b i)
  let ?t = "tasks (runqueues k b) ! i"
  have i: "i < num_tasks (runqueues k b)" using "1.prems"(3,4) by simp
  with "1.prems"(1,2) have ne: "\<not> eligible k b ?t" and nx: "lb_victim k b (i + 1) = NULL"
    by (auto simp: lb_victim.simps [of k b i] Let_def split: if_splits)
  show ?case
  proof (cases "j = i")
    case False
    then show ?thesis using "1.IH" [OF i refl] ne nx "1.prems"(2-4) by simp
  qed (use ne in simp)
qed

lemma lb_victim_regs_locks [simp]: "lb_victim (k\<lparr>regs := r, locks := l\<rparr>) b i = lb_victim k b i"
proof (induction k b i rule: lb_victim.induct)
  case (1 k b i)
  then show ?case
    by (subst lb_victim.simps, subst (2) lb_victim.simps) (auto simp: Let_def)
qed

text \<open>The secondaries the pass chooses: a longest and a shortest queue.\<close>

definition lb_extremes :: "'z kernel_scheme \<Rightarrow> nat \<Rightarrow> nat \<Rightarrow> bool" where
  "lb_extremes k b i \<longleftrightarrow> secondary k b \<and> secondary k i \<and>
     (\<forall>j. secondary k j \<longrightarrow> num_tasks (runqueues k i) \<le> num_tasks (runqueues k j) \<and>
        num_tasks (runqueues k j) \<le> num_tasks (runqueues k b))"

lemma lb_scan_extremes:
  assumes inv: "sched_inv k" and on: "smp_online k \<le> MAX_CPUS"
  obtains "smp_online k \<le> 1" "lb_scan k 1 (-1, -1, -1, 2 ^ 30) = Some (-1, -1, -1, 2 ^ 30)"
    | b i where "lb_extremes k b i" "b < MAX_CPUS" "i < MAX_CPUS" "i \<noteq> 0"
        "lb_scan k 1 (-1, -1, -1, 2 ^ 30) = Some (int b, int (num_tasks (runqueues k b)), int i, int (num_tasks (runqueues k i)))"
proof -
  have wf: "wf_rq (runqueues k i)" if "i < MAX_CPUS" for i using sched_invD(1) [OF inv that] by (simp add: rq_ok_def)
  have "\<exists>s. lb_scan k 1 (-1, -1, -1, 2 ^ 30) = Some s \<and> lb_inv k (max 1 (smp_online k)) s"
    by (rule lb_scan_inv) (use on wf in \<open>auto simp: lb_inv_def wf_rq_def\<close>)
  then obtain s where s: "lb_scan k 1 (-1, -1, -1, 2 ^ 30) = Some s" "lb_inv k (max 1 (smp_online k)) s" by blast
  show ?thesis
  proof (cases "smp_online k \<le> 1")
    case True
    then show ?thesis using that(1) s by (auto simp: lb_inv_def)
  next
    case False
    then have "max 1 (smp_online k) = smp_online k" by simp
    with s(2) False obtain b i where bi: "s = (int b, int (num_tasks (runqueues k b)), int i, int (num_tasks (runqueues k i)))"
      and ext: "lb_extremes k b i" by (auto simp: lb_inv_def lb_extremes_def secondary_def)
    moreover have "b < MAX_CPUS" "i < MAX_CPUS" "i \<noteq> 0" using ext on by (auto simp: lb_extremes_def secondary_def)
    ultimately show ?thesis using that(2) s(1) by simp
  qed
qed

lemma balance_pass_eq:
  assumes free: "all_free k" and b: "b < MAX_CPUS"
    and s: "lb_scan k 1 (-1, -1, -1, 2 ^ 30) = Some (int b, int (num_tasks (runqueues k b)), int i, int (num_tasks (runqueues k i)))"
  shows "sched_load_balance_pass c k =
     (if b = i \<or> num_tasks (runqueues k b) < num_tasks (runqueues k i) + 2 \<or> lb_victim k b 0 = NULL then Some k
      else do { (_, k) \<leftarrow> sched_migrate c (lb_victim k b 0) i k; Some k })"
proof -
  have "spin_unlock_irqrestore c (Rq_lock b) (daif (regs k c)) (upd_regs c (\<lambda>r. r\<lparr>daif := daif r OR DAIF_I\<rparr>) k\<lparr>locks := (locks k)(Rq_lock b := 1)\<rparr>) = k"
    using free b by (simp add: lock_defs all_free_def fun_upd_idem)
  then show ?thesis using s free b by (simp add: sched_load_balance_pass_def spin_lock_irqsave_free all_free_def Let_def)
qed

lemma balance_result:
  assumes inv: "sched_inv k" and free: "all_free k" and on: "smp_online k \<le> MAX_CPUS"
  shows "\<exists>k'. sched_load_balance_pass c k = Some k' \<and> sched_inv k' \<and>
     ((\<exists>b i t. lb_extremes k b i \<and> num_tasks (runqueues k i) + 2 \<le> num_tasks (runqueues k b) \<and>
         t \<in> set (rq_tasks (runqueues k b)) \<and> eligible k b t \<and> moves t b i k k') \<or>
      k' = k \<and> (smp_online k \<le> 1 \<or> (\<exists>b i. lb_extremes k b i \<and>
         (num_tasks (runqueues k b) < num_tasks (runqueues k i) + 2 \<or>
          (\<forall>t\<in>set (rq_tasks (runqueues k b)). \<not> eligible k b t)))))"
  using inv on
proof (cases rule: lb_scan_extremes)
  case 1
  then show ?thesis using inv by (simp add: sched_load_balance_pass_def)
next
  case (2 b i)
  have wf: "wf_rq (runqueues k b)" "NULL \<notin> set (rq_tasks (runqueues k b))" using sched_invD(1) [OF inv 2(2)] by (simp_all add: rq_ok_def)
  let ?v = "lb_victim k b 0"
  note pass = balance_pass_eq [OF free 2(2,5), of c]
  show ?thesis
  proof (cases "b = i \<or> num_tasks (runqueues k b) < num_tasks (runqueues k i) + 2 \<or> ?v = NULL")
    case True
    have "\<forall>t\<in>set (rq_tasks (runqueues k b)). \<not> eligible k b t" if "?v = NULL"
      using lb_victim_none [OF that] wf by (metis in_rq_tasks le0)
    with True have "num_tasks (runqueues k b) < num_tasks (runqueues k i) + 2 \<or>
        (\<forall>t\<in>set (rq_tasks (runqueues k b)). \<not> eligible k b t)" by auto
    then show ?thesis using pass True 2(1) inv by auto
  next
    case False
    with lb_victim_found [of k b 0] have v: "?v \<in> set (rq_tasks (runqueues k b))" "eligible k b ?v"
      using wf(1) in_rq_tasks by auto
    have home: "b = tcb_cpu (tcbs k ?v)" using sched_invD(2) [OF inv 2(2) v(1)] by simp
    have "num_tasks (runqueues k i) < MAX_TASKS" using False wf(1) by (auto simp: wf_rq_def)
    then have "migratable k ?v i" using v home False 2(4) by (auto simp: migratable_def Let_def)
    with migrate_result [OF inv free home 2(2,3), of c] obtain k' where
      k': "sched_migrate c ?v i k = Some (0, k')" "moves ?v b i k k'" "sched_inv k'" by auto
    then show ?thesis using pass False v 2(1) by (intro exI [of _ k'] conjI disjI1 exI [of _ b] exI [of _ i] exI [of _ ?v]) auto
  qed
qed

section \<open>Every operation keeps the invariant\<close>

text \<open>The state between operations: run queues and per-CPU data in order, no scheduler or UART lock held.\<close>

definition sched_ok :: "'z kernel_scheme \<Rightarrow> bool" where
  "sched_ok k \<longleftrightarrow> sched_inv k \<and> percpu_ok k \<and> all_free k"

lemma sched_okI:
  assumes "sched_inv k'" and "sched_ok k" and "locks k' = locks k" and "dev k' = dev k"
    and "\<And>i. tpidr (regs k' i) = tpidr (regs k i)" and "\<And>i. cpu_id (cpu_locals k' i) = cpu_id (cpu_locals k i)"
  shows "sched_ok k'"
  using assms by (simp add: sched_ok_def percpu_ok_def all_free_def uart_live_def)

lemma sched_ok_cong:
  assumes "sched_ok k" and "runqueues k' = runqueues k" and "\<And>t. tcb_cpu (tcbs k' t) = tcb_cpu (tcbs k t)"
    and "locks k' = locks k" and "dev k' = dev k"
    and "\<And>i. tpidr (regs k' i) = tpidr (regs k i)" and "\<And>i. cpu_id (cpu_locals k' i) = cpu_id (cpu_locals k i)"
  shows "sched_ok k'"
  using assms sched_inv_cong [of k k'] by (intro sched_okI [OF _ assms(1)]) (auto simp: sched_ok_def)

lemma sched_ok_moves:
  assumes "sched_ok k" and "moves t src dst k k'" and "sched_inv k'"
  shows "sched_ok k'"
  using assms by (intro sched_okI [OF _ assms(1)]) (auto simp: moves_def)

lemma rq_at_Some: "rq_at i k = Some rq \<longleftrightarrow> i < MAX_CPUS \<and> rq = runqueues k i"
  by (auto simp: rq_at_def)

lemma rq_append_closed:
  "rq_append c cpu t k =
    (if num_tasks (runqueues k cpu) < MAX_TASKS then
       upd_rq cpu (\<lambda>rq. rq\<lparr>tasks := (tasks rq)[num_tasks rq := t],
         current_idx := (if cpu = my_id c k \<and> t = current c k then num_tasks rq else current_idx rq),
         num_tasks := num_tasks rq + 1\<rparr>) (upd_tcb t (\<lambda>x. x\<lparr>tcb_cpu := cpu\<rparr>) k)
     else k)"
  by (simp add: rq_append_def Let_def this_cpu_def current_def)

lemma register_result:
  assumes "cpu < MAX_CPUS" and "locks k (Rq_lock cpu) = 0"
  shows "sched_register_on c cpu t k = Some (rq_append c cpu t k)"
proof -
  have "rq_append c cpu t (masked c d m k k) = masked c d m k (rq_append c cpu t k)" for d m
    by (simp add: rq_append_closed this_cpu_def current_def)
  then show ?thesis using critical_section [of k "Rq_lock cpu" "rq_append c cpu t" c] assms
    by (simp add: sched_register_on_def rq_at_def) (simp add: rq_append_closed)
qed

lemma rq_append_tasks:
  assumes "wf_rq (runqueues k cpu)" and "num_tasks (runqueues k cpu) < MAX_TASKS"
  shows "rq_tasks (runqueues (rq_append c cpu t k) cpu) = rq_tasks (runqueues k cpu) @ [t]"
    and "wf_rq (runqueues (rq_append c cpu t k) cpu)"
  using assms by (auto simp: rq_append_closed wf_rq_def rq_tasks_def set_take_update_append)

lemma rq_append_inv:
  assumes inv: "sched_inv k" and cpu: "cpu < MAX_CPUS"
    and t: "t \<noteq> NULL" "\<And>i. i < MAX_CPUS \<Longrightarrow> t \<notin> set (rq_tasks (runqueues k i))"
  shows "sched_inv (rq_append c cpu t k)"
proof (cases "num_tasks (runqueues k cpu) < MAX_TASKS")
  case True
  let ?k = "rq_append c cpu t k"
  have ok: "rq_ok (runqueues k cpu)" using sched_invD(1) [OF inv cpu] .
  then have wf: "wf_rq (runqueues k cpu)" by (simp add: rq_ok_def)
  note new = rq_append_tasks [OF wf True, of c t]
  have other: "runqueues ?k i = runqueues k i" if "i \<noteq> cpu" for i
    using True that by (simp add: rq_append_closed)
  have home: "tcb_cpu (tcbs ?k u) = (if u = t then cpu else tcb_cpu (tcbs k u))" for u
    using True by (simp add: rq_append_closed)
  show ?thesis
  proof (rule sched_invI)
    fix i assume i: "i < MAX_CPUS"
    show "rq_ok (runqueues ?k i)"
      using new ok t(1) t(2) [OF cpu] other sched_invD(1) [OF inv i] by (cases "i = cpu") (auto simp: rq_ok_def)
    show "tcb_cpu (tcbs ?k u) = i" if "u \<in> set (rq_tasks (runqueues ?k i))" for u
      using that new(1) other home t(2) [OF i] sched_invD(2) [OF inv i] by (cases "i = cpu") auto
  qed
next
  case False
  then show ?thesis using inv by (simp add: rq_append_closed)
qed

lemma picks_inv:
  assumes "sched_inv k" and "picks c k t k'" and "my_id c k < MAX_CPUS"
  shows "sched_inv k'"
proof (rule sched_invI)
  note fr = picks_frame [OF assms(2)]
  fix i assume i: "i < MAX_CPUS"
  show "rq_ok (runqueues k' i)"
  proof (cases "i = my_id c k")
    case True
    have "rq_ok (this_rq c k)" unfolding this_rq_def using sched_invD(1) [OF assms(1,3)] .
    then have "rq_ok (this_rq c k')" by (rule picks_rq_ok [OF assms(2)])
    then show ?thesis using True fr(8) by (simp add: this_rq_def)
  next
    case False
    then show ?thesis using fr(13) sched_invD(1) [OF assms(1) i] by simp
  qed
  show "tcb_cpu (tcbs k' u) = i" if "u \<in> set (rq_tasks (runqueues k' i))" for u
    using that fr sched_invD(2) [OF assms(1) i] by simp
qed


lemma wake_result:
  assumes "tcb_cpu (tcbs k t) < MAX_CPUS" and "locks k (Rq_lock (tcb_cpu (tcbs k t))) = 0"
  shows "sched_wake c t k = Some ((upd_tcb t (\<lambda>x. x\<lparr>tcb_state := 0\<rparr>) k)\<lparr>io_log := io_log k @ [Sev]\<rparr>)"
  using assms critical_section [of k "Rq_lock (tcb_cpu (tcbs k t))" "upd_tcb t (\<lambda>x. x\<lparr>tcb_state := 0\<rparr>)" c]
  by (simp add: sched_wake_def rq_at_def Let_def dsb_sev_def io_write_def spin_lock_irqsave_free)

text \<open>Whole operations of the scheduler, each run on some CPU.\<close>

inductive sched_step :: "'z kernel_scheme \<Rightarrow> 'z kernel_scheme \<Rightarrow> bool" where
  Register: "c < MAX_CPUS \<Longrightarrow> cpu < MAX_CPUS \<Longrightarrow> t \<noteq> NULL \<Longrightarrow>
    (\<And>i. i < MAX_CPUS \<Longrightarrow> t \<notin> set (rq_tasks (runqueues k i))) \<Longrightarrow>
    sched_register_on c cpu t k = Some k' \<Longrightarrow> sched_step k k'"
| Pick: "c < MAX_CPUS \<Longrightarrow> pick_next_ready c k = Some (t, k') \<Longrightarrow> sched_step k k'"
| Wake: "c < MAX_CPUS \<Longrightarrow> sched_wake c t k = Some k' \<Longrightarrow> sched_step k k'"
| Tick: "c < MAX_CPUS \<Longrightarrow> sched_step k (sched_on_tick c k)"
| Migrate: "c < MAX_CPUS \<Longrightarrow> dst < MAX_CPUS \<Longrightarrow> sched_migrate c t dst k = Some (r, k') \<Longrightarrow> sched_step k k'"
| Balance: "c < MAX_CPUS \<Longrightarrow> smp_online k \<le> MAX_CPUS \<Longrightarrow> sched_load_balance_pass c k = Some k' \<Longrightarrow> sched_step k k'"
| Yield: "c < MAX_CPUS \<Longrightarrow> yield c k = Some r \<Longrightarrow> sched_step k (state_of r)"

lemma moves_frame:
  assumes "moves t src dst k k'"
  shows "locks k' = locks k" "dev k' = dev k" "regs k' = regs k" "cpu_locals k' = cpu_locals k"
    "smp_online k' = smp_online k" "tcb_state (tcbs k' u) = tcb_state (tcbs k u)"
  using assms by (auto simp: moves_def)

lemma migrate_ok:
  assumes ok: "sched_ok k" and dst: "dst < MAX_CPUS" and r: "sched_migrate c t dst k = Some (r, k')"
  shows "sched_ok k'"
proof (cases "tcb_cpu (tcbs k t) < MAX_CPUS")
  case True
  show ?thesis
  proof (cases "migratable k t dst")
    case m: True
    then have "moves t (tcb_cpu (tcbs k t)) dst k k' \<and> sched_inv k'"
      using migrate_result [OF _ _ refl True dst, of c] ok r by (auto simp: sched_ok_def)
    then show ?thesis using sched_ok_moves [OF ok] by blast
  next
    case False
    then show ?thesis using migrate_result [OF _ _ refl True dst, of c] ok r by (auto simp: sched_ok_def)
  qed
next
  case False
  then have "dst \<noteq> 0 \<longrightarrow> sched_migrate c t dst k = None" using dst
    by (auto simp: sched_migrate_def rq_at_def Let_def)
  then show ?thesis using r ok by (cases "dst = 0") (auto simp: sched_migrate_def)
qed

lemma register_ok:
  assumes ok: "sched_ok k" and cpu: "cpu < MAX_CPUS"
    and t: "t \<noteq> NULL" "\<And>i. i < MAX_CPUS \<Longrightarrow> t \<notin> set (rq_tasks (runqueues k i))"
    and r: "sched_register_on c cpu t k = Some k'"
  shows "sched_ok k'"
proof -
  have "k' = rq_append c cpu t k"
    using register_result [OF cpu, of k c t] ok cpu r by (simp add: sched_ok_def all_free_def)
  moreover have "sched_inv (rq_append c cpu t k)"
    using rq_append_inv [OF _ cpu t] ok by (simp add: sched_ok_def)
  ultimately show ?thesis by (intro sched_okI [OF _ ok]) (simp_all add: rq_append_closed)
qed

lemma picks_ok:
  assumes "sched_ok k" and "picks c k t k'" and "c < MAX_CPUS"
  shows "sched_ok k'"
  using assms picks_inv [OF _ assms(2)]
  by (intro sched_okI [OF _ assms(1)]) (simp_all add: sched_ok_def percpu_simps picks_frame [OF assms(2)])

lemma sched_ok_this:
  assumes "sched_ok k" and "c < MAX_CPUS"
  shows "rq_ok (this_rq c k)" and "locks k (Rq_lock (my_id c k)) = 0"
  using assms sched_invD(1) by (auto simp: sched_ok_def percpu_simps all_free_def)

lemma wake_ok:
  assumes ok: "sched_ok k" and r: "sched_wake c t k = Some k'"
  shows "sched_ok k'"
proof -
  have lt: "tcb_cpu (tcbs k t) < MAX_CPUS" using r by (auto simp: sched_wake_def rq_at_def split: if_splits)
  then have k': "k' = (upd_tcb t (\<lambda>x. x\<lparr>tcb_state := 0\<rparr>) k)\<lparr>io_log := io_log k @ [Sev]\<rparr>"
    using wake_result [OF lt, of c] ok r by (simp add: sched_ok_def all_free_def)
  show ?thesis
    by (rule sched_ok_cong [OF ok]) (simp_all add: k')
qed

lemma tick_ok:
  assumes "sched_ok k"
  shows "sched_ok (sched_on_tick c k)"
  by (rule sched_ok_cong [OF assms]; cases "active_policy k")
     (simp_all add: sched_on_tick_def ewma_on_tick_def)

lemma switch_to_ok:
  assumes "sched_ok k"
  shows "sched_ok (switch_to c p ns k)"
  by (rule sched_ok_cong [OF assms]) (simp_all add: frame_simps)

lemma set_current_ok:
  assumes "sched_ok k"
  shows "sched_ok (set_current c t k)"
  by (rule sched_ok_cong [OF assms]) (simp_all add: set_current_def)

lemma daif_ok:
  assumes "sched_ok k"
  shows "sched_ok (upd_regs c (\<lambda>r. r\<lparr>daif := d\<rparr>) k)"
  by (rule sched_ok_cong [OF assms]) (simp_all)

lemma yield_ok:
  assumes ok: "sched_ok k" and c: "c < MAX_CPUS" and r: "yield c k = Some r"
  shows "sched_ok (state_of r)"
proof -
  obtain t k' where p: "picks c k t k'" "yield c k = Some
     (if t = current c k then Returned k'
      else Switched (daif (regs k c)) (switch_to c (current c k) (tcb_sp (tcbs k t))
        (set_current c t (upd_regs c (\<lambda>r. r\<lparr>daif := daif (regs k c) OR DAIF_I\<rparr>) k'))))"
    using yield_result [OF sched_ok_this [OF ok c]] by blast
  have "sched_ok k'" using picks_ok [OF ok p(1) c] .
  with p(2) r show ?thesis by (auto intro: switch_to_ok set_current_ok daif_ok)
qed

lemma balance_ok:
  assumes ok: "sched_ok k" and on: "smp_online k \<le> MAX_CPUS" and r: "sched_load_balance_pass c k = Some k'"
  shows "sched_ok k'"
proof -
  have "sched_inv k' \<and> ((\<exists>b i t. moves t b i k k') \<or> k' = k)"
    using balance_result [OF _ _ on, of c] ok r by (auto simp: sched_ok_def)
  then show ?thesis using sched_ok_moves [OF ok] ok by blast
qed

lemma sched_step_ok:
  assumes "sched_step k k'" and "sched_ok k"
  shows "sched_ok k'"
  using assms
proof (induction rule: sched_step.induct)
  case (Pick c k t k')
  then show ?case using pick_next_ready_picks [OF sched_ok_this [OF Pick(3,1)]] picks_ok by fastforce
qed (blast intro: register_ok wake_ok tick_ok migrate_ok balance_ok yield_ok)+

section \<open>Properties\<close>

text \<open>C2: the run queues stay in order. Whatever sequence of registrations (of new tasks), selections, wake-ups,
  ticks, migrations, balancing passes and yields runs on whichever CPUs, each operation whole: every
  queue stays within its array with its cursor on a live slot, holds no task twice and no null
  pointer, every task on a queue has that queue's CPU as its home, all scheduler locks are free
  between operations, and no task is on two queues.\<close>

theorem sched_invariant:
  assumes "sched_step\<^sup>*\<^sup>* k0 k" and "sched_ok k0"
  shows "sched_ok k \<and> (\<forall>i<MAX_CPUS. \<forall>j<MAX_CPUS. i \<noteq> j \<longrightarrow>
     set (rq_tasks (runqueues k i)) \<inter> set (rq_tasks (runqueues k j)) = {})"
proof -
  from assms have ok: "sched_ok k" by (induction rule: rtranclp_induct) (auto intro: sched_step_ok)
  then have "sched_inv k" by (simp add: sched_ok_def)
  with ok show ?thesis using sched_invD(2) by blast
qed

text \<open>C24: \<open>sched_migrate\<close>, on every branch. It always returns. It succeeds exactly when the target is
  another secondary with a free slot and the task is READY, on its home queue and not running there;
  then the task leaves that queue, is appended to the target's, its home is the target, and nothing
  else changes but the log. Otherwise it returns -1 and the state is exactly what it was, so a
  BLOCKED or running task is never moved.\<close>

theorem sched_migrate_spec:
  assumes "sched_ok k" and "tcb_cpu (tcbs k t) < MAX_CPUS" and "dst < MAX_CPUS"
  shows "if migratable k t dst
    then \<exists>k'. sched_migrate c t dst k = Some (0, k') \<and> moves t (tcb_cpu (tcbs k t)) dst k k' \<and> sched_ok k'
    else sched_migrate c t dst k = Some (-1, k)"
  using migrate_result [OF _ _ refl assms(2,3), of c] sched_ok_moves [OF assms(1)] assms(1)
  by (auto simp: sched_ok_def)

text \<open>C26: a balancing pass either moves exactly one task, from a longest to a shortest queue among the
  online secondaries, at least two tasks apart, the task being READY, not pinned and not running; or it
  leaves the state as it was because there is one CPU only, the lengths differ by less than two, or
  no task of the longest queue may move.\<close>

theorem sched_load_balance_spec:
  assumes "sched_ok k" and "smp_online k \<le> MAX_CPUS"
  shows "\<exists>k'. sched_load_balance_pass c k = Some k' \<and> sched_ok k' \<and>
     ((\<exists>b i t. lb_extremes k b i \<and> num_tasks (runqueues k i) + 2 \<le> num_tasks (runqueues k b) \<and>
         t \<in> set (rq_tasks (runqueues k b)) \<and> eligible k b t \<and> moves t b i k k') \<or>
      k' = k \<and> (smp_online k \<le> 1 \<or> (\<exists>b i. lb_extremes k b i \<and>
         (num_tasks (runqueues k b) < num_tasks (runqueues k i) + 2 \<or>
          (\<forall>t\<in>set (rq_tasks (runqueues k b)). \<not> eligible k b t)))))"
proof -
  obtain k' where "sched_load_balance_pass c k = Some k'"
    "(\<exists>b i t. lb_extremes k b i \<and> num_tasks (runqueues k i) + 2 \<le> num_tasks (runqueues k b) \<and>
         t \<in> set (rq_tasks (runqueues k b)) \<and> eligible k b t \<and> moves t b i k k') \<or>
      k' = k \<and> (smp_online k \<le> 1 \<or> (\<exists>b i. lb_extremes k b i \<and>
         (num_tasks (runqueues k b) < num_tasks (runqueues k i) + 2 \<or>
          (\<forall>t\<in>set (rq_tasks (runqueues k b)). \<not> eligible k b t))))"
    using balance_result [of k c] assms unfolding sched_ok_def by blast
  moreover have "sched_ok k'" using balance_ok [OF assms] calculation(1) .
  ultimately show ?thesis by blast
qed

text \<open>Registration returns; it appends the task to the queue of the CPU and makes that its home,
  or, when the queue is full, leaves the state as it was without telling the caller.\<close>

lemma sched_register_spec:
  assumes "sched_ok k" and "cpu < MAX_CPUS"
  shows "\<exists>k'. sched_register_on c cpu t k = Some k' \<and>
    (if num_tasks (runqueues k cpu) < MAX_TASKS
     then rq_tasks (runqueues k' cpu) = rq_tasks (runqueues k cpu) @ [t] \<and> tcb_cpu (tcbs k' t) = cpu \<and>
       (\<forall>i. i \<noteq> cpu \<longrightarrow> runqueues k' i = runqueues k i) \<and> (\<forall>u. u \<noteq> t \<longrightarrow> tcbs k' u = tcbs k u)
     else k' = k)"
proof -
  have "sched_inv k" using assms(1) by (simp add: sched_ok_def)
  from sched_invD(1) [OF this assms(2)] have "wf_rq (runqueues k cpu)" by (simp add: rq_ok_def)
  moreover have "locks k (Rq_lock cpu) = 0" using assms by (simp add: sched_ok_def all_free_def)
  ultimately show ?thesis
    using register_result [OF assms(2), of k c t] rq_append_tasks(1) [of k cpu c t]
    by (auto simp: rq_append_closed)
qed

section \<open>Witnesses\<close>

text \<open>CPU 1 runs the first of three tasks; the other queues are empty.\<close>

definition lb_kernel :: kernel where
  "lb_kernel = sample_kernel\<lparr>
     tcbs := (\<lambda>t. sample_tcb\<lparr>tcb_cpu := 1\<rparr>),
     cpu_locals := (\<lambda>i. (cpu_locals sample_kernel i)\<lparr>curr := (if i = 1 then 0x1000 else 0)\<rparr>),
     runqueues := (\<lambda>i. if i = 1 then demo_rq else sample_rq)\<rparr>"

lemma lb_kernel_simps [simp]: "tcbs lb_kernel t = sample_tcb\<lparr>tcb_cpu := 1\<rparr>"
  "runqueues lb_kernel i = (if i = 1 then demo_rq else sample_rq)" "smp_online lb_kernel = 4"
  "curr (cpu_locals lb_kernel i) = (if i = 1 then 0x1000 else 0)"
  "rq_tasks sample_rq = []" "num_tasks sample_rq = 0"
  by (simp_all add: lb_kernel_def sample_defs rq_tasks_def)

lemma lb_kernel_ok: "sched_ok lb_kernel"
proof -
  have "rq_ok sample_rq" by (simp add: rq_ok_def wf_rq_def rq_tasks_def sample_rq_def header_consts)
  then have "sched_inv lb_kernel" using demo_rq_ok by (intro sched_invI) (auto split: if_splits)
  then show ?thesis
    by (simp add: sched_ok_def percpu_ok_def all_free_def uart_live_def lb_kernel_def sample_defs)
qed

lemma lb_migratable: "migratable lb_kernel 0x3000 2"
  by (simp add: migratable_def Let_def) (simp add: sample_tcb_def header_consts)

theorem sched_migrate_spec_witness:
  "\<exists>k'. sched_migrate 0 0x3000 2 lb_kernel = Some (0, k') \<and> rq_tasks (runqueues k' 2) = [0x3000]"
proof -
  have "\<exists>k'. sched_migrate 0 0x3000 2 lb_kernel = Some (0, k') \<and> moves 0x3000 1 2 lb_kernel k'"
    using sched_migrate_spec [OF lb_kernel_ok, of "0x3000" 2 0] lb_migratable by (auto simp: header_consts)
  then show ?thesis by (auto simp: moves_def)
qed

theorem sched_invariant_witness:
  "\<exists>k. sched_step\<^sup>*\<^sup>* lb_kernel k \<and> sched_ok k \<and> 0x3000 \<in> set (rq_tasks (runqueues k 2)) \<and>
     0x3000 \<notin> set (rq_tasks (runqueues k 1))"
proof -
  obtain k' where k': "sched_migrate 0 0x3000 2 lb_kernel = Some (0, k')" "moves 0x3000 1 2 lb_kernel k'"
    using migrate_result [of lb_kernel 1 "0x3000" 2 0] lb_migratable lb_kernel_ok
    by (auto simp: sched_ok_def header_consts)
  have "sched_step lb_kernel k'" by (rule sched_step.Migrate [OF _ _ k'(1)]) (simp_all add: header_consts)
  then have reach: "sched_step\<^sup>*\<^sup>* lb_kernel k'" by blast
  moreover have "0x3000 \<in> set (rq_tasks (runqueues k' 2))" using k'(2) by (simp add: moves_def)
  moreover have "sched_ok k'" "set (rq_tasks (runqueues k' 2)) \<inter> set (rq_tasks (runqueues k' 1)) = {}"
    using sched_invariant [OF reach lb_kernel_ok] by (simp_all add: header_consts)
  ultimately show ?thesis by blast
qed

theorem sched_load_balance_spec_witness:
  "\<exists>k' i t. sched_load_balance_pass 0 lb_kernel = Some k' \<and> i \<noteq> 1 \<and> t \<noteq> 0x1000 \<and>
     rq_tasks (runqueues k' i) = [t]"
proof -
  have on: "smp_online lb_kernel \<le> MAX_CPUS" by (simp add: header_consts)
  obtain k' where k': "sched_load_balance_pass 0 lb_kernel = Some k'"
    "(\<exists>b i t. lb_extremes lb_kernel b i \<and> num_tasks (runqueues lb_kernel i) + 2 \<le> num_tasks (runqueues lb_kernel b) \<and>
         t \<in> set (rq_tasks (runqueues lb_kernel b)) \<and> eligible lb_kernel b t \<and> moves t b i lb_kernel k') \<or>
      k' = lb_kernel \<and> (smp_online lb_kernel \<le> 1 \<or> (\<exists>b i. lb_extremes lb_kernel b i \<and>
         (num_tasks (runqueues lb_kernel b) < num_tasks (runqueues lb_kernel i) + 2 \<or>
          (\<forall>t\<in>set (rq_tasks (runqueues lb_kernel b)). \<not> eligible lb_kernel b t))))"
    using sched_load_balance_spec [OF lb_kernel_ok on, of 0] by blast
  have ext: "b = 1 \<and> i \<noteq> 1" if "lb_extremes lb_kernel b i" for b i
    using that spec [of _ "2::nat"] by (fastforce simp: lb_extremes_def secondary_def split: if_splits)
  have "\<not> (num_tasks (runqueues lb_kernel b) < num_tasks (runqueues lb_kernel i) + 2 \<or>
          (\<forall>t\<in>set (rq_tasks (runqueues lb_kernel b)). \<not> eligible lb_kernel b t))"
    if "lb_extremes lb_kernel b i" for b i
    using ext [OF that] by (auto simp: sample_tcb_def)
  moreover have "\<not> smp_online lb_kernel \<le> 1" by simp
  ultimately obtain b i t where t: "lb_extremes lb_kernel b i" "t \<noteq> curr (cpu_locals lb_kernel b)"
    "moves t b i lb_kernel k'" using k'(2) by blast
  with k'(1) ext [OF t(1)] show ?thesis by (auto simp: moves_def)
qed

end
