(* ===== verification/Races.thy ===== *)
theory Races
  imports Balance
begin

text \<open>
  The scheduler with several CPUs at work at the same time, at the granularity of its critical
  sections: \<open>pick_next_ready\<close> gives the queue lock back before \<open>current = next\<close> is stored, and that
  store comes before \<open>switch_to\<close> has saved the old stack pointer (\<open>yield\<close> in \<open>sched.c\<close>,
  \<open>block_current_and_switch\<close> in \<open>sync.c\<close>, \<open>irq_handler\<close> and \<open>secondary_irq\<close> in \<open>main.c\<close> all have
  these three steps, with interrupts masked). Other CPUs may act between them.

  The parameter \<open>safe\<close> says whether a balancing pass waits until no CPU is between its selection and
  the end of its switch. The code does not wait: it is the relation with \<open>safe = False\<close>. Tasks are
  registered before this machine starts.
\<close>

section \<open>The machine\<close>

datatype phase = Run | Picked u64 | Committed u64

type_synonym 'z smp_state = "'z kernel_scheme \<times> (nat \<Rightarrow> phase)"

inductive smp_step :: "bool \<Rightarrow> 'z smp_state \<Rightarrow> 'z smp_state \<Rightarrow> bool" for safe where
  pick: "c < MAX_CPUS \<Longrightarrow> ph c = Run \<Longrightarrow> pick_next_ready c k = Some (n, k') \<Longrightarrow>
    smp_step safe (k, ph) (k', ph(c := Picked n))"
| keep: "c < MAX_CPUS \<Longrightarrow> ph c = Picked n \<Longrightarrow> n = current c k \<Longrightarrow>
    smp_step safe (k, ph) (k, ph(c := Run))"
| commit: "c < MAX_CPUS \<Longrightarrow> ph c = Picked n \<Longrightarrow> n \<noteq> current c k \<Longrightarrow>
    smp_step safe (k, ph) (set_current c n k, ph(c := Committed (current c k)))"
| switch: "c < MAX_CPUS \<Longrightarrow> ph c = Committed p \<Longrightarrow>
    smp_step safe (k, ph) (checked_switch_to c p (current c k) k, ph(c := Run))"
| block: "c < MAX_CPUS \<Longrightarrow> ph c = Run \<Longrightarrow>
    smp_step safe (k, ph) (upd_tcb (current c k) (\<lambda>t. t\<lparr>tcb_state := 1\<rparr>) k, ph)"
| wake: "c < MAX_CPUS \<Longrightarrow> ph c = Run \<Longrightarrow> sched_wake c t k = Some k' \<Longrightarrow> smp_step safe (k, ph) (k', ph)"
| tick: "c < MAX_CPUS \<Longrightarrow> ph c = Run \<Longrightarrow> smp_step safe (k, ph) (sched_on_tick c k, ph)"
| balance: "c < MAX_CPUS \<Longrightarrow> ph c = Run \<Longrightarrow> smp_online k \<le> MAX_CPUS \<Longrightarrow>
    (safe \<Longrightarrow> \<forall>d<MAX_CPUS. ph d = Run) \<Longrightarrow>
    sched_load_balance_pass c k = Some k' \<Longrightarrow> smp_step safe (k, ph) (k', ph)"

text \<open>The task whose stack a CPU is running on: until the switch is complete, the old one.\<close>

definition stack_user :: "'z smp_state \<Rightarrow> nat \<Rightarrow> u64" where
  "stack_user s c = (case snd s c of Committed p \<Rightarrow> p | _ \<Rightarrow> current c (fst s))"

definition smp_start :: "'z smp_state \<Rightarrow> bool" where
  "smp_start s \<longleftrightarrow> sched_ok (fst s) \<and> (\<forall>c<MAX_CPUS. snd s c = Run \<and> tcb_cpu (tcbs (fst s) (current c (fst s))) = c)"

section \<open>Running tasks are at home\<close>

text \<open>The task a CPU runs, has selected or is leaving has that CPU as its home.\<close>

definition at_home :: "'z smp_state \<Rightarrow> bool" where
  "at_home s \<longleftrightarrow> sched_ok (fst s) \<and> (\<forall>c<MAX_CPUS.
     tcb_cpu (tcbs (fst s) (current c (fst s))) = c \<and>
     (\<forall>n. snd s c = Picked n \<or> snd s c = Committed n \<longrightarrow> tcb_cpu (tcbs (fst s) n) = c))"

lemma at_home_stack: "at_home s \<Longrightarrow> c < MAX_CPUS \<Longrightarrow> tcb_cpu (tcbs (fst s) (stack_user s c)) = c"
  by (auto simp: at_home_def stack_user_def split: phase.split)

lemma at_home_cong:
  assumes "at_home (k, ph)" and "sched_ok k'" and "\<And>t. tcb_cpu (tcbs k' t) = tcb_cpu (tcbs k t)"
    and "\<And>c. current c k' = current c k"
  shows "at_home (k', ph)"
  using assms by (simp add: at_home_def)

lemma at_home_balance:
  assumes home: "at_home (k, ph)" and run: "\<forall>d<MAX_CPUS. ph d = Run" and on: "smp_online k \<le> MAX_CPUS"
    and pass: "sched_load_balance_pass c k = Some k'"
  shows "at_home (k', ph)"
proof -
  have ok: "sched_ok k" "sched_inv k" "percpu_ok k" "all_free k"
    using home by (simp_all add: at_home_def sched_ok_def)
  from balance_result [OF ok(2,4) on, of c] pass consider "k' = k"
    | b i t where "lb_extremes k b i" "t \<in> set (rq_tasks (runqueues k b))" "eligible k b t" "moves t b i k k'"
    by auto
  then show ?thesis
  proof cases
    case 1
    then show ?thesis using home by simp
  next
    case 2
    have b: "b < MAX_CPUS" using 2(1) on by (auto simp: lb_extremes_def secondary_def)
    have cur: "current d k' = current d k" for d
      using 2(4) by (auto simp: moves_def current_def this_cpu_def)
    have "tcb_cpu (tcbs k' (current d k)) = d" if d: "d < MAX_CPUS" for d
    proof -
      have "current d k \<noteq> t"
      proof
        assume eq: "current d k = t"
        have "tcb_cpu (tcbs k t) = d" using home d eq by (auto simp: at_home_def)
        then have "d = b" using sched_invD(2) [OF ok(2) b 2(2)] by simp
        then show False using eq 2(3) percpu_simps(3) [OF ok(3) d] by simp
      qed
      then show ?thesis using 2(4) home d by (auto simp: moves_def at_home_def)
    qed
    moreover have "sched_ok k'" using balance_ok [OF ok(1) on pass] .
    ultimately show ?thesis using run cur by (simp add: at_home_def)
  qed
qed

lemma at_home_pick:
  assumes home: "at_home (k, ph)" and c: "c < MAX_CPUS" and p: "picks c k n k'"
  shows "at_home (k', ph(c := Picked n))"
proof -
  have ok: "sched_ok k" "sched_inv k" "percpu_ok k" using home by (simp_all add: at_home_def sched_ok_def)
  have "tcb_cpu (tcbs k n) = c"
    using picks_target [OF p] home c sched_invD(2) [OF ok(2) c] percpu_simps [OF ok(3) c]
    by (auto simp: at_home_def)
  then show ?thesis using home picks_ok [OF ok(1) p c] picks_frame [OF p] by (auto simp: at_home_def)
qed

lemma current_set_current:
  assumes "percpu_ok k" and "c < MAX_CPUS" and "d < MAX_CPUS"
  shows "current d (set_current c n k) = (if d = c then n else current d k)"
  using assms by (simp add: percpu_ok_def current_def this_cpu_def set_current_def)

lemma at_home_step:
  assumes "smp_step safe s s'" and "safe" and "at_home s"
  shows "at_home s'"
  using assms
proof (induction rule: smp_step.induct)
  case (pick c ph k n k')
  then have "sched_ok k" by (simp add: at_home_def)
  from pick_next_ready_picks [OF sched_ok_this [OF this pick(1)]] pick(3) have "picks c k n k'" by auto
  then show ?case using at_home_pick pick by blast
next
  case (keep c ph n k)
  then show ?case by (auto simp: at_home_def)
next
  case (commit c ph n k)
  then have "percpu_ok k" by (simp add: at_home_def sched_ok_def)
  then show ?case using commit set_current_ok
    by (auto simp: at_home_def current_set_current) (auto simp: set_current_def)
next
  case (switch c ph p k)
  have "sched_ok k" using switch by (simp add: at_home_def)
  then have "sched_ok (checked_switch_to c p (current c k) k)"
    unfolding checked_switch_to_def by (rule switch_to_ok)
  then have "at_home (checked_switch_to c p (current c k) k, ph)"
    by (intro at_home_cong [OF switch(4)]) (simp_all add: checked_switch_to_def frame_simps current_def this_cpu_def)
  then show ?case by (auto simp: at_home_def)
next
  case (block c ph k)
  have ok: "sched_ok k" using block by (simp add: at_home_def)
  have "sched_ok (upd_tcb (current c k) (\<lambda>t. t\<lparr>tcb_state := 1\<rparr>) k)"
    by (rule sched_ok_cong [OF ok]) simp_all
  then show ?case by (intro at_home_cong [OF block(4)]) (simp_all add: current_def this_cpu_def)
next
  case (wake c ph t k k')
  have ok: "sched_ok k" using wake by (simp add: at_home_def)
  have lt: "tcb_cpu (tcbs k t) < MAX_CPUS" using wake(3) by (auto simp: sched_wake_def rq_at_def split: if_splits)
  then have "k' = (upd_tcb t (\<lambda>x. x\<lparr>tcb_state := 0\<rparr>) k)\<lparr>io_log := io_log k @ [Sev]\<rparr>"
    using wake_result [OF lt, of c] ok wake(3) by (simp add: sched_ok_def all_free_def)
  then show ?case using wake(5) wake_ok [OF ok wake(3)]
    by (intro at_home_cong [OF wake(5)]) (simp_all add: current_def this_cpu_def)
next
  case (tick c ph k)
  then have "sched_ok (sched_on_tick c k)" by (intro tick_ok) (simp add: at_home_def)
  then show ?case
    by (rule at_home_cong [OF tick(4)]; cases "active_policy k")
       (simp_all add: sched_on_tick_def ewma_on_tick_def current_def this_cpu_def)
next
  case (balance c ph k k')
  then show ?case using at_home_balance by blast
qed

section \<open>The race\<close>

text \<open>CPU 1 has blocked its task \<open>0x1000\<close>; of its two other tasks \<open>0x3000\<close> is READY. CPU 2 has
  blocked its only task \<open>0x7000\<close>. CPU 0 is about to balance.\<close>

definition race_kernel :: kernel where
  "race_kernel = sample_kernel\<lparr>
     tcbs := (\<lambda>t. sample_tcb\<lparr>tcb_state := (if t = 0x3000 then 0 else 1),
        tcb_cpu := (if t = 0x7000 then 2 else if t = 0x9000 then 0 else if t = 0xb000 then 3 else 1)\<rparr>),
     cpu_locals := (\<lambda>i. (cpu_locals sample_kernel i)\<lparr>curr :=
        (if i = 1 then 0x1000 else if i = 2 then 0x7000 else if i = 3 then 0xb000 else 0x9000)\<rparr>),
     runqueues := (\<lambda>i. if i = 1 then demo_rq
        else if i = 2 then sample_rq\<lparr>tasks := [0x7000, 0, 0, 0, 0, 0, 0, 0], num_tasks := 1\<rparr> else sample_rq),
     smp_online := 3\<rparr>"

lemma race_queues:
  "rq_tasks (runqueues race_kernel i) = (if i = 1 then [0x1000, 0x3000, 0x5000] else if i = 2 then [0x7000] else [])"
  "num_tasks (runqueues race_kernel i) = (if i = 1 then 3 else if i = 2 then 1 else 0)"
  by (simp_all add: race_kernel_def sample_kernel_def) (simp_all add: rq_tasks_def sample_rq_def)

lemma race_tcbs:
  "ready race_kernel t \<longleftrightarrow> t = 0x3000" "pinned (tcbs race_kernel t) = 0"
  "tcb_cpu (tcbs race_kernel t) = (if t = 0x7000 then 2 else if t = 0x9000 then 0 else if t = 0xb000 then 3 else 1)"
  by (simp_all add: race_kernel_def sample_defs)

lemma race_cpus:
  "current c race_kernel = (if c = 1 then 0x1000 else if c = 2 then 0x7000 else if c = 3 then 0xb000 else 0x9000)"
  "curr (cpu_locals race_kernel c) = (if c = 1 then 0x1000 else if c = 2 then 0x7000 else if c = 3 then 0xb000 else 0x9000)"
  "my_id c race_kernel = c" "smp_online race_kernel = 3"
  by (simp_all add: race_kernel_def sample_defs current_def this_cpu_def)

lemma race_ok: "sched_ok race_kernel"
proof -
  have "rq_ok (sample_rq\<lparr>tasks := [0x7000, 0, 0, 0, 0, 0, 0, 0], num_tasks := 1\<rparr>)" "rq_ok sample_rq"
    by (simp_all add: rq_ok_def wf_rq_def rq_tasks_def sample_rq_def header_consts)
  then have "rq_ok (runqueues race_kernel i)" for i
    using demo_rq_ok by (simp add: race_kernel_def sample_kernel_def)
  then have "sched_inv race_kernel" by (intro sched_invI) (auto simp: race_queues race_tcbs split: if_splits)
  then show ?thesis
    by (simp add: sched_ok_def percpu_ok_def all_free_def uart_live_def race_kernel_def sample_defs)
qed

lemma race_start: "smp_start (race_kernel, \<lambda>_. Run)"
proof -
  have "tcb_cpu (tcbs race_kernel (current c race_kernel)) = c" if "c < MAX_CPUS" for c
  proof -
    have "c = 0 \<or> c = 1 \<or> c = 2 \<or> c = 3" using that unfolding MAX_CPUS_def by linarith
    then show ?thesis by (auto simp: race_tcbs race_cpus)
  qed
  then show ?thesis using race_ok by (simp add: smp_start_def)
qed

text \<open>A queue with a single READY task leaves no choice.\<close>

lemma picks_forced:
  assumes "sched_ok k" and "c < MAX_CPUS" and "u \<in> set (rq_tasks (runqueues k c))" and "ready k u"
    and "\<And>t. t \<in> set (rq_tasks (runqueues k c)) \<Longrightarrow> ready k t \<Longrightarrow> t = u"
  shows "\<exists>k'. pick_next_ready c k = Some (u, k') \<and> picks c k u k'"
proof -
  obtain t k' where p: "pick_next_ready c k = Some (t, k')" "picks c k t k'"
    using pick_next_ready_picks [OF sched_ok_this [OF assms(1,2)]] by blast
  have "this_rq c k = runqueues k c" using assms(1,2) percpu_simps(2) by (auto simp: sched_ok_def)
  moreover have "pick_target c k t" using p(2) by (rule picksE)
  ultimately have "t \<in> set (rq_tasks (runqueues k c)) \<and> ready k t"
    using assms(3,4) by (auto simp: pick_target_def split: if_splits)
  then show ?thesis using p assms(5) by blast
qed

lemma race_pick: "\<exists>k. pick_next_ready 1 race_kernel = Some (0x3000, k) \<and> picks 1 race_kernel 0x3000 k"
  by (rule picks_forced [OF race_ok]) (simp_all add: race_queues race_tcbs header_consts)

lemma balance_forced:
  assumes "sched_ok k" and "smp_online k = 3"
    and "\<And>i. num_tasks (runqueues k i) = (if i = 1 then 3 else if i = 2 then 1 else 0)"
    and "u \<in> set (rq_tasks (runqueues k 1))" and "\<And>t. eligible k 1 t \<longleftrightarrow> t = u"
  shows "\<exists>k'. sched_load_balance_pass c k = Some k' \<and> sched_ok k' \<and> moves u 1 2 k k'"
proof -
  have ext: "b = 1 \<and> i = 2" if e: "lb_extremes k b i" for b i
  proof -
    have "secondary k b" "secondary k i" "num_tasks (runqueues k i) \<le> num_tasks (runqueues k 2)"
      "num_tasks (runqueues k 1) \<le> num_tasks (runqueues k b)"
      using e assms(2) by (simp_all add: lb_extremes_def secondary_def)
    then show ?thesis using assms(2,3) by (auto simp: secondary_def split: if_splits)
  qed
  have on: "smp_online k \<le> MAX_CPUS" "\<not> smp_online k \<le> 1" using assms(2) by (simp_all add: header_consts)
  have inv: "sched_inv k" "all_free k" using assms(1) by (simp_all add: sched_ok_def)
  from balance_result [OF inv on(1), of c] obtain k' where k': "sched_load_balance_pass c k = Some k'"
    "(\<exists>b i t. lb_extremes k b i \<and> eligible k b t \<and> moves t b i k k') \<or>
     (\<exists>b i. lb_extremes k b i \<and> (num_tasks (runqueues k b) < num_tasks (runqueues k i) + 2 \<or>
          (\<forall>t\<in>set (rq_tasks (runqueues k b)). \<not> eligible k b t)))"
    using on(2) by blast
  have "\<not> (num_tasks (runqueues k b) < num_tasks (runqueues k i) + 2 \<or>
      (\<forall>t\<in>set (rq_tasks (runqueues k b)). \<not> eligible k b t))" if "lb_extremes k b i" for b i
    using ext [OF that] assms(3-5) by auto
  then obtain b i t where t: "lb_extremes k b i" "eligible k b t" "moves t b i k k'" using k'(2) by blast
  then have "moves u 1 2 k k'" using ext [OF t(1)] assms(5) by auto
  then show ?thesis using k'(1) balance_ok [OF assms(1) on(1) k'(1)] by blast
qed

lemma switch_steps:
  assumes "c < MAX_CPUS" and "ph c = Picked n" and "percpu_ok k" and "n \<noteq> current c k"
  shows "\<exists>k'. (smp_step safe)\<^sup>*\<^sup>* (k, ph) (k', ph(c := Run)) \<and> percpu_ok k' \<and>
     (\<forall>d<MAX_CPUS. current d k' = (if d = c then n else current d k))"
proof -
  let ?k1 = "set_current c n k"
  let ?k2 = "checked_switch_to c (current c k) (current c ?k1) ?k1"
  have "smp_step safe (k, ph) (?k1, ph(c := Committed (current c k)))"
    by (rule smp_step.commit) (fact assms)+
  moreover have "smp_step safe (?k1, ph(c := Committed (current c k))) (?k2, (ph(c := Committed (current c k)))(c := Run))"
    by (rule smp_step.switch) (simp_all add: assms(1))
  ultimately have "(smp_step safe)\<^sup>*\<^sup>* (k, ph) (?k2, ph(c := Run))" by simp
  moreover have "percpu_ok ?k2" "current d ?k2 = current d ?k1" for d
    using assms(3) by (simp_all add: percpu_ok_def checked_switch_to_def frame_simps set_current_def current_def this_cpu_def)
  ultimately show ?thesis using current_set_current [OF assms(3,1)] by (intro exI [of _ ?k2]) simp
qed

lemma race_run:
  "\<exists>k. (smp_step False)\<^sup>*\<^sup>* (race_kernel, \<lambda>_. Run) (k, \<lambda>_. Run) \<and> current 1 k = 0x3000 \<and> current 2 k = 0x3000"
proof -
  have cpus: "0 < MAX_CPUS" "1 < MAX_CPUS" "2 < MAX_CPUS" by (simp_all add: header_consts)
  let ?ph = "(\<lambda>_. Run) :: nat \<Rightarrow> phase"
  obtain k1 where k1: "pick_next_ready 1 race_kernel = Some (0x3000, k1)" "picks 1 race_kernel 0x3000 k1"
    using race_pick by blast
  note f1 = picks_frame [OF k1(2)]
  have ok1: "sched_ok k1" using picks_ok [OF race_ok k1(2) cpus(2)] .
  have s1: "smp_step False (race_kernel, ?ph) (k1, ?ph(1 := Picked 0x3000))"
    by (rule smp_step.pick [OF cpus(2) _ k1(1)]) simp
  have "\<exists>k2. sched_load_balance_pass 0 k1 = Some k2 \<and> sched_ok k2 \<and> moves 0x3000 1 2 k1 k2"
    by (rule balance_forced [OF ok1]) (auto simp: f1 race_queues race_cpus race_tcbs)
  then obtain k2 where k2: "sched_load_balance_pass 0 k1 = Some k2" "sched_ok k2" "moves 0x3000 1 2 k1 k2"
    by blast
  have s2: "smp_step False (k1, ?ph(1 := Picked 0x3000)) (k2, ?ph(1 := Picked 0x3000))"
    by (rule smp_step.balance [OF cpus(1) _ _ _ k2(1)]) (simp_all add: f1 race_cpus header_consts)
  have q2: "rq_tasks (runqueues k2 2) = [0x7000, 0x3000]" using k2(3) by (simp add: moves_def f1 race_queues)
  have st2: "ready k2 t \<longleftrightarrow> t = 0x3000" for t by (simp add: moves_frame [OF k2(3)] f1 race_tcbs)
  have cur2: "current d k2 = current d race_kernel" for d
    using k2(3) f1(7) [of d] by (auto simp: moves_def current_def this_cpu_def)
  have "\<exists>k3. pick_next_ready 2 k2 = Some (0x3000, k3) \<and> picks 2 k2 0x3000 k3"
    by (rule picks_forced [OF k2(2) cpus(3)]) (simp_all add: q2 st2)
  then obtain k3 where k3: "pick_next_ready 2 k2 = Some (0x3000, k3)" "picks 2 k2 0x3000 k3" by blast
  note f3 = picks_frame [OF k3(2)]
  have s3: "smp_step False (k2, ?ph(1 := Picked 0x3000)) (k3, ?ph(1 := Picked 0x3000, 2 := Picked 0x3000))"
    by (rule smp_step.pick [OF cpus(3) _ k3(1)]) simp
  have ok3: "percpu_ok k3" using picks_ok [OF k2(2) k3(2) cpus(3)] by (simp add: sched_ok_def)
  have ne3: "0x3000 \<noteq> current 2 k3" by (simp add: f3 cur2 race_cpus)
  obtain k4 where k4: "(smp_step False)\<^sup>*\<^sup>* (k3, ?ph(1 := Picked 0x3000, 2 := Picked 0x3000)) (k4, ?ph(1 := Picked 0x3000, 2 := Run))"
    "percpu_ok k4" "\<forall>d<MAX_CPUS. current d k4 = (if d = 2 then 0x3000 else current d k3)"
    using switch_steps [OF cpus(3) _ ok3 ne3, of "?ph(1 := Picked 0x3000, 2 := Picked 0x3000)"] by auto
  have ne4: "0x3000 \<noteq> current 1 k4" using k4(3) cpus by (simp add: f3 cur2 race_cpus)
  obtain k5 where k5: "(smp_step False)\<^sup>*\<^sup>* (k4, ?ph(1 := Picked 0x3000, 2 := Run)) (k5, ?ph(1 := Run, 2 := Run))"
    "\<forall>d<MAX_CPUS. current d k5 = (if d = 1 then 0x3000 else current d k4)"
    using switch_steps [OF cpus(2) _ k4(2) ne4, of "?ph(1 := Picked 0x3000, 2 := Run)"] by (auto simp: fun_upd_twist)
  have "?ph(1 := Run, 2 := Run) = ?ph" by auto
  then show ?thesis using s1 s2 s3 k4 k5 cpus
    by (intro exI [of _ k5]) (auto intro: rtranclp_trans converse_rtranclp_into_rtranclp)
qed

section \<open>Properties\<close>

text \<open>C4: without the balancing pass in the way, tasks do not share stacks. From a start where every CPU
  runs a task of its own, however selections, stores to \<open>current\<close>, switches, blocking, wake-ups and ticks of
  the CPUs interleave, and with balancing passes that run only while no CPU is between selection and switch,
  no two CPUs ever run on the stack of the same task, and the task a CPU runs has it as its home.\<close>

theorem one_cpu_per_stack:
  assumes "smp_start s0" and "(smp_step True)\<^sup>*\<^sup>* s0 s" and "c < MAX_CPUS" and "d < MAX_CPUS" and "c \<noteq> d"
  shows "stack_user s c \<noteq> stack_user s d \<and> tcb_cpu (tcbs (fst s) (current c (fst s))) = c"
proof -
  have "at_home s0" using assms(1) by (auto simp: smp_start_def at_home_def)
  with assms(2) have "at_home s" by (induction rule: rtranclp_induct) (auto intro: at_home_step)
  then show ?thesis using at_home_stack [of s] assms(3-5) by (metis at_home_def)
qed

text \<open>C5: with the balancing pass as it is, they can. CPU 1 selects a READY task and gives the queue
  lock back; before CPU 1 stores it to \<open>current\<close>, CPU 0 runs a balancing pass, which finds the task READY and not
  running and moves it to CPU 2; CPU 2 selects it and switches to it; CPU 1 goes on and switches to
  it too. From a good start both CPUs end up running the same task on the same stack.\<close>

theorem balance_pass_race:
  "\<exists>s0 s :: unit smp_state. smp_start s0 \<and> (smp_step False)\<^sup>*\<^sup>* s0 s \<and>
     stack_user s 1 = stack_user s 2 \<and> ready (fst s0) (stack_user s 1)"
proof -
  obtain k where k: "(smp_step False)\<^sup>*\<^sup>* (race_kernel, \<lambda>_. Run) (k, \<lambda>_. Run)"
    "current 1 k = 0x3000" "current 2 k = 0x3000" using race_run by blast
  with race_start show ?thesis
    by (intro exI [of _ "(race_kernel, \<lambda>_. Run)"] exI [of _ "(k, \<lambda>_. Run)"])
       (simp add: stack_user_def race_tcbs)
qed

section \<open>Witnesses\<close>

theorem one_cpu_per_stack_witness:
  "\<exists>s. (smp_step True)\<^sup>*\<^sup>* (race_kernel, \<lambda>_. Run) s \<and> s \<noteq> (race_kernel, \<lambda>_. Run) \<and>
     stack_user s 1 \<noteq> stack_user s 2"
proof -
  obtain k1 where "pick_next_ready 1 race_kernel = Some (0x3000, k1)"
    using race_pick by blast
  then have "smp_step True (race_kernel, \<lambda>_. Run) (k1, (\<lambda>_. Run)(1 := Picked 0x3000))"
    by (rule smp_step.pick [rotated 2]) (simp_all add: header_consts)
  then have reach: "(smp_step True)\<^sup>*\<^sup>* (race_kernel, \<lambda>_. Run) (k1, (\<lambda>_. Run)(1 := Picked 0x3000))" by simp
  moreover have "(\<lambda>_. Run)(1 := Picked 0x3000) \<noteq> (\<lambda>_::nat. Run)" by (auto dest: fun_cong [of _ _ 1])
  ultimately show ?thesis using one_cpu_per_stack [OF race_start reach, of 1 2]
    by (intro exI [of _ "(k1, (\<lambda>_. Run)(1 := Picked 0x3000))"]) (simp add: header_consts)
qed

end
