(* ===== verification/Sync.thy ===== *)
theory Sync
  imports Races
begin

text \<open>
  Blocking synchronisation (\<open>kernel/sync.c\<close>, \<open>kernel/sync.h\<close>): semaphores, mutexes, event flags and
  bounded queues, over the kernel state extended by the objects, by address.

  A call that blocks ends in \<open>Switched\<close> (another task runs; the caller's DAIF is still to be
  restored) or \<open>Waiting\<close> (nobody else is runnable: the caller sits in its \<open>wfe\<close> loop until its state
  is READY). What the caller does once it runs again is \<open>resume\<close>. Signed overflow of a counter is
  undefined in C and is \<open>None\<close> here.
\<close>

section \<open>Objects\<close>

record sem =
  sem_count :: int
  sem_waiter :: u64

record mutex =
  mx_locked :: int
  mx_owner :: u64
  mx_waiter :: u64

record event =
  ev_flags :: u32
  ev_waiter :: u64
  wait_mask :: u32
  wait_all :: int
  wake_result :: u32

record queue =
  q_buf :: "u64 list"
  q_head :: nat
  q_tail :: nat
  q_count :: nat
  send_waiter :: u64
  recv_waiter :: u64

record sync_state = kernel +
  sems :: "u64 \<Rightarrow> sem"
  mutexes :: "u64 \<Rightarrow> mutex"
  events :: "u64 \<Rightarrow> event"
  queues :: "u64 \<Rightarrow> queue"

abbreviation upd_sem :: "u64 \<Rightarrow> (sem \<Rightarrow> sem) \<Rightarrow> 'z sync_state_scheme \<Rightarrow> 'z sync_state_scheme" where
  "upd_sem s f k \<equiv> k\<lparr>sems := (sems k)(s := f (sems k s))\<rparr>"

abbreviation upd_mutex :: "u64 \<Rightarrow> (mutex \<Rightarrow> mutex) \<Rightarrow> 'z sync_state_scheme \<Rightarrow> 'z sync_state_scheme" where
  "upd_mutex m f k \<equiv> k\<lparr>mutexes := (mutexes k)(m := f (mutexes k m))\<rparr>"

abbreviation upd_event :: "u64 \<Rightarrow> (event \<Rightarrow> event) \<Rightarrow> 'z sync_state_scheme \<Rightarrow> 'z sync_state_scheme" where
  "upd_event e f k \<equiv> k\<lparr>events := (events k)(e := f (events k e))\<rparr>"

abbreviation upd_queue :: "u64 \<Rightarrow> (queue \<Rightarrow> queue) \<Rightarrow> 'z sync_state_scheme \<Rightarrow> 'z sync_state_scheme" where
  "upd_queue q f k \<equiv> k\<lparr>queues := (queues k)(q := f (queues k q))\<rparr>"

abbreviation set_state :: "u64 \<Rightarrow> int \<Rightarrow> 'z kernel_scheme \<Rightarrow> 'z kernel_scheme" where
  "set_state t v k \<equiv> upd_tcb t (\<lambda>x. x\<lparr>tcb_state := v\<rparr>) k"

definition INT_MAX :: int where "INT_MAX = 2 ^ 31 - 1"

section \<open>Blocking\<close>

definition block_current_and_switch :: "nat \<Rightarrow> u64 \<Rightarrow> 'z kernel_scheme \<Rightarrow> 'z kernel_scheme outcome option" where
  "block_current_and_switch c flags k =
    (let prev = current c k in do {
       (nxt, k) \<leftarrow> pick_next_ready c k;
       if nxt = prev then
         (let k = irq_restore c flags k
          in Some (if tcb_state (tcbs k (current c k)) \<noteq> 0 then Waiting k else Returned k))
       else
         (let k = set_current c nxt k
          in Some (Switched flags (checked_switch_to c prev nxt k))) })"

text \<open>Back on the CPU: after the switch the saved DAIF is restored; out of the \<open>wfe\<close> loop there is
  nothing left to do.\<close>

fun resume :: "nat \<Rightarrow> 'z kernel_scheme outcome \<Rightarrow> 'z kernel_scheme \<Rightarrow> 'z kernel_scheme" where
  "resume c (Switched flags _) k = irq_restore c flags k"
| "resume c (Waiting _) k = k"
| "resume c (Returned _) k = k"

section \<open>Semaphores\<close>

definition sem_init :: "u64 \<Rightarrow> int \<Rightarrow> 'z sync_state_scheme \<Rightarrow> 'z sync_state_scheme" where
  "sem_init s initial_count k =
    (let k = upd_sem s (\<lambda>x. x\<lparr>sem_count := initial_count\<rparr>) k;
         k = upd_sem s (\<lambda>x. x\<lparr>sem_waiter := NULL\<rparr>) k
     in k\<lparr>locks := (locks k)(Sem_lock s := 0)\<rparr>)"

text \<open>The part of \<open>sem_wait\<close> under the semaphore lock; the result says whether a token was taken.\<close>

definition sem_wait_enter ::
    "nat \<Rightarrow> u64 \<Rightarrow> 'z sync_state_scheme \<Rightarrow> (u64 \<times> bool \<times> 'z sync_state_scheme) option" where
  "sem_wait_enter c s k = do {
     (flags, k) \<leftarrow> spin_lock_irqsave c (Sem_lock s) k;
     if sem_count (sems k s) > 0 then
       (let k = upd_sem s (\<lambda>x. x\<lparr>sem_count := sem_count x - 1\<rparr>) k
        in Some (flags, True, spin_unlock_irqrestore c (Sem_lock s) flags k))
     else
       (let k = upd_sem s (\<lambda>x. x\<lparr>sem_waiter := current c k\<rparr>) k;
            k = set_state (current c k) 1 k
        in Some (flags, False, spin_unlock (Sem_lock s) k)) }"

definition sem_wait :: "nat \<Rightarrow> u64 \<Rightarrow> 'z sync_state_scheme \<Rightarrow> 'z sync_state_scheme outcome option" where
  "sem_wait c s k = do {
     (flags, got, k) \<leftarrow> sem_wait_enter c s k;
     if got then Some (Returned k) else block_current_and_switch c flags k }"

definition sem_post :: "nat \<Rightarrow> u64 \<Rightarrow> 'z sync_state_scheme \<Rightarrow> 'z sync_state_scheme option" where
  "sem_post c s k = do {
     (flags, k) \<leftarrow> spin_lock_irqsave c (Sem_lock s) k;
     k \<leftarrow> (if sem_waiter (sems k s) \<noteq> NULL then
             (let w = sem_waiter (sems k s);
                  k = upd_sem s (\<lambda>x. x\<lparr>sem_waiter := NULL\<rparr>) k
              in sched_wake c w k)
           else if sem_count (sems k s) = INT_MAX then None
           else Some (upd_sem s (\<lambda>x. x\<lparr>sem_count := sem_count x + 1\<rparr>) k));
     Some (spin_unlock_irqrestore c (Sem_lock s) flags k) }"

section \<open>Mutexes\<close>

definition mutex_init :: "u64 \<Rightarrow> 'z sync_state_scheme \<Rightarrow> 'z sync_state_scheme" where
  "mutex_init m k = upd_mutex m (\<lambda>x. x\<lparr>mx_locked := 0, mx_owner := NULL, mx_waiter := NULL\<rparr>) k"

definition mutex_lock :: "nat \<Rightarrow> u64 \<Rightarrow> 'z sync_state_scheme \<Rightarrow> 'z sync_state_scheme outcome option" where
  "mutex_lock c m k =
    (let (flags, k) = irq_disable_save c k in
     if mx_locked (mutexes k m) = 0 then
       (let k = upd_mutex m (\<lambda>x. x\<lparr>mx_locked := 1\<rparr>) k;
            k = upd_mutex m (\<lambda>x. x\<lparr>mx_owner := current c k\<rparr>) k
        in Some (Returned (irq_restore c flags k)))
     else
       (let k = upd_mutex m (\<lambda>x. x\<lparr>mx_waiter := current c k\<rparr>) k;
            k = set_state (current c k) 1 k
        in block_current_and_switch c flags k))"

definition mutex_unlock :: "nat \<Rightarrow> u64 \<Rightarrow> 'z sync_state_scheme \<Rightarrow> 'z sync_state_scheme" where
  "mutex_unlock c m k =
    (let (flags, k) = irq_disable_save c k;
         k = (if mx_waiter (mutexes k m) \<noteq> NULL then
                (let w = mx_waiter (mutexes k m);
                     k = upd_mutex m (\<lambda>x. x\<lparr>mx_waiter := NULL\<rparr>) k;
                     k = upd_mutex m (\<lambda>x. x\<lparr>mx_owner := w\<rparr>) k
                 in set_state w 0 k)
              else upd_mutex m (\<lambda>x. x\<lparr>mx_locked := 0, mx_owner := NULL\<rparr>) k)
     in irq_restore c flags k)"

section \<open>Event flags\<close>

definition event_init :: "u64 \<Rightarrow> 'z sync_state_scheme \<Rightarrow> 'z sync_state_scheme" where
  "event_init e k = upd_event e (\<lambda>x. x\<lparr>ev_flags := 0, ev_waiter := NULL, wait_mask := 0,
     wait_all := 0, wake_result := 0\<rparr>) k"

definition event_satisfied :: "event \<Rightarrow> bool" where
  "event_satisfied e =
    (if wait_all e \<noteq> 0 then ev_flags e AND wait_mask e = wait_mask e
     else ev_flags e AND wait_mask e \<noteq> 0)"

definition event_set :: "nat \<Rightarrow> u64 \<Rightarrow> u32 \<Rightarrow> 'z sync_state_scheme \<Rightarrow> 'z sync_state_scheme" where
  "event_set c e bits k =
    (let (flags, k) = irq_disable_save c k;
         k = upd_event e (\<lambda>x. x\<lparr>ev_flags := ev_flags x OR bits\<rparr>) k;
         k = (if ev_waiter (events k e) \<noteq> NULL \<and> event_satisfied (events k e) then
                (let w = ev_waiter (events k e);
                     k = upd_event e (\<lambda>x. x\<lparr>ev_waiter := NULL\<rparr>) k;
                     k = upd_event e (\<lambda>x. x\<lparr>wake_result := ev_flags x AND wait_mask x\<rparr>) k
                 in set_state w 0 k)
              else k)
     in irq_restore c flags k)"

definition event_clear :: "nat \<Rightarrow> u64 \<Rightarrow> u32 \<Rightarrow> 'z sync_state_scheme \<Rightarrow> 'z sync_state_scheme" where
  "event_clear c e bits k =
    (let (flags, k) = irq_disable_save c k;
         k = upd_event e (\<lambda>x. x\<lparr>ev_flags := ev_flags x AND NOT bits\<rparr>) k
     in irq_restore c flags k)"

text \<open>The result is there at once, or is read from \<open>wake_result\<close> when the task runs again.\<close>

definition event_wait :: "nat \<Rightarrow> u64 \<Rightarrow> u32 \<Rightarrow> int \<Rightarrow> 'z sync_state_scheme \<Rightarrow>
    (u32 option \<times> 'z sync_state_scheme outcome) option" where
  "event_wait c e m all k =
    (let (flags, k) = irq_disable_save c k;
         k = upd_event e (\<lambda>x. x\<lparr>wait_mask := m, wait_all := all\<rparr>) k in
     if event_satisfied (events k e) then
       Some (Some (ev_flags (events k e) AND m), Returned (irq_restore c flags k))
     else
       (let k = upd_event e (\<lambda>x. x\<lparr>ev_waiter := current c k\<rparr>) k;
            k = set_state (current c k) 1 k
        in do { r \<leftarrow> block_current_and_switch c flags k; Some (None, r) }))"

definition event_wait_resume :: "nat \<Rightarrow> u64 \<Rightarrow> 'z sync_state_scheme outcome \<Rightarrow> 'z sync_state_scheme \<Rightarrow>
    u32 \<times> 'z sync_state_scheme" where
  "event_wait_resume c e r k = (let k = resume c r k in (wake_result (events k e), k))"

section \<open>Queues\<close>

definition QUEUE_CAP :: nat where "QUEUE_CAP = 4"

definition queue_init :: "u64 \<Rightarrow> 'z sync_state_scheme \<Rightarrow> 'z sync_state_scheme" where
  "queue_init q k = upd_queue q (\<lambda>x. x\<lparr>q_head := 0, q_tail := 0, q_count := 0,
     send_waiter := NULL, recv_waiter := NULL\<rparr>) k"

text \<open>The stores to the ring.\<close>

definition ring_put :: "u64 \<Rightarrow> queue \<Rightarrow> queue" where
  "ring_put item x = x\<lparr>q_buf := (q_buf x)[q_tail x := item], q_tail := (q_tail x + 1) mod QUEUE_CAP,
     q_count := q_count x + 1\<rparr>"

definition ring_get :: "queue \<Rightarrow> u64 \<times> queue" where
  "ring_get x = (q_buf x ! q_head x, x\<lparr>q_head := (q_head x + 1) mod QUEUE_CAP, q_count := q_count x - 1\<rparr>)"

text \<open>One pass through the \<open>while (1)\<close> of \<open>queue_send\<close>. A sender that blocked makes another pass
  when it runs again.\<close>

definition queue_send :: "nat \<Rightarrow> u64 \<Rightarrow> u64 \<Rightarrow> 'z sync_state_scheme \<Rightarrow>
    (bool \<times> 'z sync_state_scheme outcome) option" where
  "queue_send c q item k =
    (let (flags, k) = irq_disable_save c k in
     if q_count (queues k q) < QUEUE_CAP then
       (let k = upd_queue q (ring_put item) k;
            k = (if recv_waiter (queues k q) \<noteq> NULL then
                   (let w = recv_waiter (queues k q);
                        k = upd_queue q (\<lambda>x. x\<lparr>recv_waiter := NULL\<rparr>) k
                    in set_state w 0 k)
                 else k)
        in Some (True, Returned (irq_restore c flags k)))
     else
       (let k = upd_queue q (\<lambda>x. x\<lparr>send_waiter := current c k\<rparr>) k;
            k = set_state (current c k) 1 k
        in do { r \<leftarrow> block_current_and_switch c flags k; Some (False, r) }))"

definition queue_recv :: "nat \<Rightarrow> u64 \<Rightarrow> 'z sync_state_scheme \<Rightarrow>
    (u64 option \<times> 'z sync_state_scheme outcome) option" where
  "queue_recv c q k =
    (let (flags, k) = irq_disable_save c k in
     if q_count (queues k q) > 0 then
       (let (item, x) = ring_get (queues k q);
            k = upd_queue q (\<lambda>_. x) k;
            k = (if send_waiter (queues k q) \<noteq> NULL then
                   (let w = send_waiter (queues k q);
                        k = upd_queue q (\<lambda>x. x\<lparr>send_waiter := NULL\<rparr>) k
                    in set_state w 0 k)
                 else k)
        in Some (Some item, Returned (irq_restore c flags k)))
     else
       (let k = upd_queue q (\<lambda>x. x\<lparr>recv_waiter := current c k\<rparr>) k;
            k = set_state (current c k) 1 k
        in do { r \<leftarrow> block_current_and_switch c flags k; Some (None, r) }))"

section \<open>What blocking does\<close>

text \<open>Between calls, no lock is held.\<close>

definition sync_ok :: "'z sync_state_scheme \<Rightarrow> bool" where
  "sync_ok k \<longleftrightarrow> sched_ok k \<and> (\<forall>s. locks k (Sem_lock s) = 0)"

lemma more_sync:
  assumes "kernel.more k' = kernel.more k"
  shows "sems k' = sems k" "mutexes k' = mutexes k" "events k' = events k" "queues k' = queues k"
  using assms by (cases k; cases k'; simp)+

lemma block_result:
  assumes "sched_ok k" and "c < MAX_CPUS"
  shows "\<exists>t k'. picks c k t k' \<and> block_current_and_switch c flags k = Some
     (if t = current c k then
        (if ready k t then Returned (irq_restore c flags k') else Waiting (irq_restore c flags k'))
      else Switched flags (switch_to c (current c k) (tcb_sp (tcbs k t)) (set_current c t k')))"
proof -
  obtain t k' where p: "pick_next_ready c k = Some (t, k')" "picks c k t k'"
    using pick_next_ready_picks [OF sched_ok_this [OF assms]] by blast
  note fr = picks_frame [OF p(2)]
  have "current c (irq_restore c flags k') = current c k" "tcbs (irq_restore c flags k') = tcbs k"
    using fr(1,7) by (simp_all add: irq_restore_def current_def this_cpu_def)
  moreover have "tcb_sp (tcbs (set_current c t k') t) = tcb_sp (tcbs k t)" using fr(1) by (simp add: set_current_def)
  ultimately show ?thesis using p
    by (intro exI [of _ t] exI [of _ k']) (simp add: block_current_and_switch_def checked_switch_to_def Let_def)
qed

text \<open>The effect every caller relies on: the call comes back; objects, locks and task states are as they were;
  it returns only to a READY caller and waits only for one that is not.\<close>

definition blocked :: "nat \<Rightarrow> u64 \<Rightarrow> 'z kernel_scheme \<Rightarrow> 'z kernel_scheme outcome \<Rightarrow> bool" where
  "blocked c flags k r \<longleftrightarrow>
     block_current_and_switch c flags k = Some r \<and> sched_ok (state_of r) \<and>
     kernel.more (state_of r) = kernel.more k \<and> locks (state_of r) = locks k \<and>
     (\<forall>t. tcb_state (tcbs (state_of r) t) = tcb_state (tcbs k t) \<and> tcb_cpu (tcbs (state_of r) t) = tcb_cpu (tcbs k t)) \<and>
     ((\<exists>k'. r = Returned k') \<longrightarrow> ready k (current c k)) \<and>
     ((\<exists>k'. r = Waiting k') \<longrightarrow> \<not> ready k (current c k))"

lemma block_effect:
  assumes "sched_ok k" and "c < MAX_CPUS"
  shows "\<exists>r. blocked c flags k r"
proof -
  obtain t k' where p: "picks c k t k'" and b: "block_current_and_switch c flags k = Some
     (if t = current c k then
        (if ready k t then Returned (irq_restore c flags k') else Waiting (irq_restore c flags k'))
      else Switched flags (switch_to c (current c k) (tcb_sp (tcbs k t)) (set_current c t k')))" (is "_ = Some ?r")
    using block_result [OF assms] by blast
  note fr = picks_frame [OF p]
  have ok: "sched_ok k'" using picks_ok [OF assms(1) p assms(2)] .
  have "sched_ok (irq_restore c flags k')" unfolding irq_restore_def by (rule daif_ok [OF ok])
  moreover have "sched_ok (switch_to c (current c k) (tcb_sp (tcbs k t)) (set_current c t k'))"
    by (intro switch_to_ok set_current_ok ok)
  ultimately have "sched_ok (state_of ?r)" by simp
  moreover have "kernel.more (state_of ?r) = kernel.more k" "locks (state_of ?r) = locks k"
    "\<forall>t. tcb_state (tcbs (state_of ?r) t) = tcb_state (tcbs k t) \<and> tcb_cpu (tcbs (state_of ?r) t) = tcb_cpu (tcbs k t)"
    using fr by (simp_all add: frame_simps irq_restore_def set_current_def)
  moreover have "(\<exists>k'. ?r = Returned k') \<longrightarrow> ready k (current c k)" "(\<exists>k'. ?r = Waiting k') \<longrightarrow> \<not> ready k (current c k)"
    by simp_all
  ultimately have "blocked c flags k ?r" using b unfolding blocked_def by blast
  then show ?thesis ..
qed

text \<open>A caller that marks itself BLOCKED and then gives up the CPU does not return.\<close>

definition self_blocked :: "nat \<Rightarrow> u64 \<Rightarrow> 'z kernel_scheme \<Rightarrow> 'z kernel_scheme outcome \<Rightarrow> bool" where
  "self_blocked c flags k r \<longleftrightarrow>
     block_current_and_switch c flags (set_state (current c k) 1 k) = Some r \<and>
     (\<nexists>k'. r = Returned k') \<and> sched_ok (state_of r) \<and>
     kernel.more (state_of r) = kernel.more k \<and> locks (state_of r) = locks k \<and>
     (\<forall>t. tcb_state (tcbs (state_of r) t) = (if t = current c k then 1 else tcb_state (tcbs k t)) \<and>
          tcb_cpu (tcbs (state_of r) t) = tcb_cpu (tcbs k t))"

lemma self_block:
  assumes ok: "sched_ok k" and c: "c < MAX_CPUS"
  shows "\<exists>r. self_blocked c flags k r"
proof -
  let ?k = "set_state (current c k) 1 k"
  have "sched_ok ?k" by (rule sched_ok_cong [OF ok]) simp_all
  from block_effect [OF this c, of flags] obtain r where r: "blocked c flags ?k r" ..
  have "current c ?k = current c k" by (simp add: current_def this_cpu_def)
  then have "\<nexists>k'. r = Returned k'" using r by (auto simp: blocked_def)
  then have "self_blocked c flags k r" using r by (simp add: self_blocked_def blocked_def)
  then show ?thesis ..
qed

lemma self_blockedD:
  assumes "self_blocked c flags k r"
  shows "block_current_and_switch c flags (set_state (current c k) 1 k) = Some r"
    "\<nexists>k'. r = Returned k'" "sched_ok (state_of r)"
    "kernel.more (state_of r) = kernel.more k" "locks (state_of r) = locks k"
    "tcb_state (tcbs (state_of r) t) = (if t = current c k then 1 else tcb_state (tcbs k t))"
    "tcb_cpu (tcbs (state_of r) t) = tcb_cpu (tcbs k t)"
  using assms by (simp_all add: self_blocked_def)

lemma current_upd [simp]:
  "current c (k\<lparr>sems := x\<rparr>) = current c k" "current c (k\<lparr>mutexes := m\<rparr>) = current c k"
  "current c (k\<lparr>events := e\<rparr>) = current c k" "current c (k\<lparr>queues := q\<rparr>) = current c k"
  "current c (upd_regs d (\<lambda>r. r\<lparr>daif := f\<rparr>) k) = current c k"
  by (simp_all add: current_def this_cpu_def)

section \<open>Semaphore operations\<close>

lemma sem_wait_enter_result:
  assumes "locks k (Sem_lock s) = 0"
  shows "sem_wait_enter c s k = Some (daif (regs k c), sem_count (sems k s) > 0,
     if sem_count (sems k s) > 0 then upd_sem s (\<lambda>x. x\<lparr>sem_count := sem_count x - 1\<rparr>) k
     else upd_regs c (\<lambda>r. r\<lparr>daif := daif r OR DAIF_I\<rparr>)
       (set_state (current c k) 1 (upd_sem s (\<lambda>x. x\<lparr>sem_waiter := current c k\<rparr>) k)))"
  using assms by (simp add: sem_wait_enter_def lock_defs Let_def fun_upd_idem current_def this_cpu_def)

lemma sem_post_count:
  assumes "locks k (Sem_lock s) = 0" and "sem_waiter (sems k s) = NULL" and "sem_count (sems k s) < INT_MAX"
  shows "sem_post c s k = Some (upd_sem s (\<lambda>x. x\<lparr>sem_count := sem_count x + 1\<rparr>) k)"
  using assms by (simp add: sem_post_def lock_defs Let_def fun_upd_idem)

lemma sem_post_wake:
  assumes "locks k (Sem_lock s) = 0" and "sem_waiter (sems k s) = w" "w \<noteq> NULL"
    and "tcb_cpu (tcbs k w) < MAX_CPUS" and "locks k (Rq_lock (tcb_cpu (tcbs k w))) = 0"
  shows "sem_post c s k = Some ((set_state w 0 (upd_sem s (\<lambda>x. x\<lparr>sem_waiter := NULL\<rparr>) k))\<lparr>io_log := io_log k @ [Sev]\<rparr>)"
proof -
  let ?k = "upd_sem s (\<lambda>x. x\<lparr>sem_waiter := NULL\<rparr>)
    (upd_regs c (\<lambda>r. r\<lparr>daif := daif r OR DAIF_I\<rparr>) k\<lparr>locks := (locks k)(Sem_lock s := 1)\<rparr>)"
  have "sched_wake c w ?k = Some ((set_state w 0 ?k)\<lparr>io_log := io_log k @ [Sev]\<rparr>)"
    using wake_result [of ?k w c] assms by simp
  then have "sem_post c s k = Some (spin_unlock_irqrestore c (Sem_lock s) (daif (regs k c))
      ((set_state w 0 ?k)\<lparr>io_log := io_log k @ [Sev]\<rparr>))"
    using assms by (simp add: sem_post_def spin_lock_irqsave_free Let_def)
  also have "spin_unlock_irqrestore c (Sem_lock s) (daif (regs k c)) ((set_state w 0 ?k)\<lparr>io_log := io_log k @ [Sev]\<rparr>)
      = (set_state w 0 (upd_sem s (\<lambda>x. x\<lparr>sem_waiter := NULL\<rparr>) k))\<lparr>io_log := io_log k @ [Sev]\<rparr>"
    using assms(1) by (intro sync_state.equality) (simp_all add: lock_defs fun_upd_idem)
  finally show ?thesis .
qed

section \<open>A sample state\<close>

text \<open>The queues of \<open>lb_kernel\<close>, every object idle and every message queue full.\<close>

definition sync_sample :: sync_state where
  "sync_sample = kernel.extend lb_kernel (sync_state.fields (\<lambda>_. \<lparr>sem_count = 0, sem_waiter = NULL\<rparr>)
     (\<lambda>_. \<lparr>mx_locked = 0, mx_owner = NULL, mx_waiter = NULL\<rparr>)
     (\<lambda>_. \<lparr>ev_flags = 0, ev_waiter = NULL, wait_mask = 0, wait_all = 0, wake_result = 0\<rparr>)
     (\<lambda>_. \<lparr>q_buf = [1, 2, 3, 4], q_head = 0, q_tail = 0, q_count = 4, send_waiter = NULL, recv_waiter = NULL\<rparr>))"

lemmas sync_sample_defs = sync_sample_def kernel.extend_def sync_state.fields_def

lemma sync_sample_simps [simp]:
  "sems sync_sample s = \<lparr>sem_count = 0, sem_waiter = NULL\<rparr>"
  "events sync_sample s = \<lparr>ev_flags = 0, ev_waiter = NULL, wait_mask = 0, wait_all = 0, wake_result = 0\<rparr>"
  "queues sync_sample s = \<lparr>q_buf = [1, 2, 3, 4], q_head = 0, q_tail = 0, q_count = 4, send_waiter = NULL, recv_waiter = NULL\<rparr>"
  "tcbs sync_sample = tcbs lb_kernel" "current 1 sync_sample = 0x1000"
  "current (Suc 0) sync_sample = 0x1000"
  by (simp_all add: sync_sample_defs current_def this_cpu_def) (simp_all add: lb_kernel_def sample_defs)

lemma sync_sample_ok: "sync_ok sync_sample"
proof -
  have "sched_ok sync_sample" by (rule sched_ok_cong [OF lb_kernel_ok]) (simp_all add: sync_sample_defs)
  moreover have "locks sync_sample (Sem_lock s) = 0" for s
    by (simp add: sync_sample_defs) (simp add: lb_kernel_def sample_defs)
  ultimately show ?thesis by (simp add: sync_ok_def)
qed

lemma sync_sample_sched_ok: "sched_ok sync_sample"
  using sync_sample_ok by (simp add: sync_ok_def)

end
