(* ===== verification/Sync_Objects.thy ===== *)
theory Sync_Objects
  imports Sync
begin

text \<open>
  Event flags and message queues of \<open>kernel/sync.c\<close>. The ring of a queue is an instance
  of the interface \<open>bounded_fifo\<close>, from which the order of messages follows.

  These objects have no spinlock: their operations mask the interrupts of the CPU they run on and no more. A call is
  therefore indivisible for the other tasks of the same CPU, and the histories below are those of an object that
  the tasks of one CPU share. The theory \<open>Mutex\<close> shows
  for the mutexes, which are protected in the same way, what becomes of an object that two CPUs share.
\<close>

section \<open>Event flags\<close>

lemma event_set_result:
  "event_set c e bits k =
    (let x = (events k e)\<lparr>ev_flags := ev_flags (events k e) OR bits\<rparr> in
     if ev_waiter x \<noteq> NULL \<and> event_satisfied x
     then set_state (ev_waiter x) 0
       (upd_event e (\<lambda>_. x\<lparr>ev_waiter := NULL, wake_result := ev_flags x AND wait_mask x\<rparr>) k)
     else upd_event e (\<lambda>_. x) k)"
  by (rule sync_state.equality)
     (simp_all add: event_set_def irq_disable_save_def irq_restore_def Let_def event_satisfied_def)

lemma event_clear_result:
  "event_clear c e bits k = upd_event e (\<lambda>x. x\<lparr>ev_flags := ev_flags x AND NOT bits\<rparr>) k"
  by (rule sync_state.equality) (simp_all add: event_clear_def irq_disable_save_def irq_restore_def Let_def)

lemma event_wait_now:
  assumes "event_satisfied ((events k e)\<lparr>wait_mask := m, wait_all := all\<rparr>)"
  shows "event_wait c e m all k = Some (Some (ev_flags (events k e) AND m),
     Returned (upd_event e (\<lambda>x. x\<lparr>wait_mask := m, wait_all := all\<rparr>) k))"
  using assms
  by (simp add: event_wait_def irq_disable_save_def irq_restore_def Let_def)

lemma event_wait_block:
  assumes ok: "sched_ok k" and c: "c < MAX_CPUS"
    and no: "\<not> event_satisfied ((events k e)\<lparr>wait_mask := m, wait_all := all\<rparr>)"
  obtains r where "event_wait c e m all k = Some (None, r)" "\<nexists>k'. r = Returned k'" "sched_ok (state_of r)"
    "events (state_of r) = (events k)(e := (events k e)\<lparr>wait_mask := m, wait_all := all, ev_waiter := current c k\<rparr>)"
    "\<And>t. tcb_state (tcbs (state_of r) t) = (if t = current c k then 1 else tcb_state (tcbs k t))"
proof -
  let ?k0 = "upd_event e (\<lambda>x. x\<lparr>wait_mask := m, wait_all := all, ev_waiter := current c k\<rparr>)
    (upd_regs c (\<lambda>r. r\<lparr>daif := daif r OR DAIF_I\<rparr>) k)"
  have "sched_ok ?k0" by (rule sched_ok_cong [OF ok]) simp_all
  from self_block [OF this c, of "daif (regs k c)"] obtain r where "self_blocked c (daif (regs k c)) ?k0 r" ..
  note r = self_blockedD [OF this]
  have "event_wait c e m all k = Some (None, r)"
    using no r(1) by (simp add: event_wait_def irq_disable_save_def Let_def)
  then show ?thesis using that r(2,3) more_sync(3) [OF r(4)] r(6) by simp
qed

text \<open>Whatever happens to an event while one task waits for it: bits set and cleared on CPU \<open>c\<close>, and
  anything else that is not a call on it.\<close>

inductive event_hist :: "u64 \<Rightarrow> nat \<Rightarrow> 'z sync_state_scheme \<Rightarrow> 'z sync_state_scheme \<Rightarrow> bool" for e c where
  start: "event_hist e c k k"
| set: "event_hist e c k k1 \<Longrightarrow> event_hist e c k (event_set c e bits k1)"
| clear: "event_hist e c k k1 \<Longrightarrow> event_hist e c k (event_clear c e bits k1)"
| other: "event_hist e c k k1 \<Longrightarrow> events k2 e = events k1 e \<Longrightarrow> event_hist e c k k2"

definition event_pending :: "u64 \<Rightarrow> u32 \<Rightarrow> int \<Rightarrow> event \<Rightarrow> bool" where
  "event_pending w m all x \<longleftrightarrow> ev_waiter x = w \<and> wait_mask x = m \<and> wait_all x = all"

definition event_delivered :: "u32 \<Rightarrow> int \<Rightarrow> event \<Rightarrow> bool" where
  "event_delivered m all x \<longleftrightarrow> ev_waiter x = NULL \<and>
     (if all \<noteq> 0 then wake_result x = m else wake_result x \<noteq> 0 \<and> wake_result x AND m = wake_result x)"

lemma event_hist_waiter:
  assumes "event_hist e c k k'" and "w \<noteq> NULL" and "event_pending w m all (events k e)"
  shows "event_pending w m all (events k' e) \<or> event_delivered m all (events k' e)"
  using assms
proof (induction rule: event_hist.induct)
  case (set k k1 bits)
  then consider "event_pending w m all (events k1 e)" | "event_delivered m all (events k1 e)" by blast
  then show ?case
    by cases (auto simp: event_set_result event_pending_def event_delivered_def event_satisfied_def Let_def and.assoc)
next
  case (clear k k1 bits)
  then show ?case by (auto simp: event_clear_result event_pending_def event_delivered_def)
qed auto

lemma resume_events [simp]: "events (resume c r k) = events k"
  by (cases r) (simp_all add: irq_restore_def)

section \<open>Queues\<close>

text \<open>The interface of a bounded first-in first-out buffer, and what its clients rely on.\<close>

locale bounded_fifo =
  fixes cap :: nat
    and valid :: "'q \<Rightarrow> bool"
    and contents :: "'q \<Rightarrow> 'a list"
    and put :: "'a \<Rightarrow> 'q \<Rightarrow> 'q"
    and get :: "'q \<Rightarrow> 'a \<times> 'q"
  assumes within: "valid q \<Longrightarrow> length (contents q) \<le> cap"
    and put_valid: "valid q \<Longrightarrow> length (contents q) < cap \<Longrightarrow> valid (put x q)"
    and put_contents: "valid q \<Longrightarrow> length (contents q) < cap \<Longrightarrow> contents (put x q) = contents q @ [x]"
    and get_valid: "valid q \<Longrightarrow> contents q \<noteq> [] \<Longrightarrow> valid (snd (get q))"
    and get_contents: "valid q \<Longrightarrow> contents q \<noteq> [] \<Longrightarrow> contents q = fst (get q) # contents (snd (get q))"
begin

text \<open>Everything put in comes out once and in order: \<open>fifo\<close> relates a buffer to what has gone in and
  come out of it since it was empty.\<close>

definition fifo :: "'q \<Rightarrow> 'a list \<Rightarrow> 'a list \<Rightarrow> bool" where
  "fifo q sent received \<longleftrightarrow> valid q \<and> sent = received @ contents q"

lemma fifo_put:
  assumes "fifo q sent received" and "length (contents q) < cap"
  shows "fifo (put x q) (sent @ [x]) received"
  using assms by (simp add: fifo_def put_valid put_contents)

lemma fifo_get:
  assumes "fifo q sent received" and "contents q \<noteq> []"
  shows "fifo (snd (get q)) sent (received @ [fst (get q)])"
  using assms get_contents [of q] get_valid [of q] by (auto simp: fifo_def)

lemma fifo_cong:
  assumes "fifo q sent received" and "valid q'" and "contents q' = contents q"
  shows "fifo q' sent received"
  using assms by (simp add: fifo_def)

lemma fifo_bound:
  assumes "fifo q sent received"
  shows "received = take (length received) sent \<and> length sent \<le> length received + cap"
  using assms within [of q] by (simp add: fifo_def)

end

definition ring_valid :: "queue \<Rightarrow> bool" where
  "ring_valid x \<longleftrightarrow> length (q_buf x) = QUEUE_CAP \<and> q_head x < QUEUE_CAP \<and> q_count x \<le> QUEUE_CAP \<and>
     q_tail x = (q_head x + q_count x) mod QUEUE_CAP"

definition ring_contents :: "queue \<Rightarrow> u64 list" where
  "ring_contents x = map (\<lambda>i. q_buf x ! ((q_head x + i) mod QUEUE_CAP)) [0..<q_count x]"

lemma length_ring_contents [simp]: "length (ring_contents x) = q_count x"
  by (simp add: ring_contents_def)

lemma ring_put_valid:
  assumes "ring_valid x" and "q_count x < QUEUE_CAP"
  shows "ring_valid (ring_put item x)"
  using assms by (auto simp: ring_valid_def ring_put_def mod_Suc_eq)

lemma ring_put_contents:
  assumes "ring_valid x" and "q_count x < QUEUE_CAP"
  shows "ring_contents (ring_put item x) = ring_contents x @ [item]"
proof -
  let ?slot = "\<lambda>i. (q_head x + i) mod QUEUE_CAP"
  have cap: "0 < QUEUE_CAP" by (simp add: QUEUE_CAP_def)
  have ne: "?slot i \<noteq> ?slot (q_count x)" if i: "i < q_count x" for i
  proof
    assume "?slot i = ?slot (q_count x)"
    then have "(q_head x + (i + 1)) mod QUEUE_CAP = (q_head x + (q_count x + 1)) mod QUEUE_CAP"
      by (metis add.assoc mod_add_left_eq)
    then have "i + 1 = q_count x + 1" using cyclic_inj [of "i + 1" QUEUE_CAP "q_count x + 1" "q_head x"] i assms(2) by simp
    then show False using i by simp
  qed
  have "q_buf (ring_put item x) ! ?slot i = q_buf x ! ?slot i" if "i < q_count x" for i
    using ne [OF that] assms(1) by (simp add: ring_put_def ring_valid_def)
  moreover have "q_buf (ring_put item x) ! ?slot (q_count x) = item"
    using assms(1) cap by (simp add: ring_put_def ring_valid_def)
  moreover have "q_head (ring_put item x) = q_head x" "q_count (ring_put item x) = Suc (q_count x)"
    by (simp_all add: ring_put_def)
  ultimately show ?thesis by (simp add: ring_contents_def)
qed

lemma ring_get_valid:
  assumes "ring_valid x" and "0 < q_count x"
  shows "ring_valid (snd (ring_get x))"
proof -
  obtain n where n: "q_count x = Suc n" using assms(2) gr0_implies_Suc by blast
  then have "q_tail x = (Suc (q_head x) mod QUEUE_CAP + n) mod QUEUE_CAP"
    using assms(1) by (simp add: ring_valid_def mod_add_left_eq)
  then show ?thesis using assms n by (auto simp: ring_valid_def ring_get_def)
qed

lemma ring_get_contents:
  assumes "ring_valid x" and "0 < q_count x"
  shows "ring_contents x = fst (ring_get x) # ring_contents (snd (ring_get x))"
proof -
  have "[0..<q_count x] = 0 # map Suc [0..<q_count x - 1]"
    using assms(2) by (simp add: map_Suc_upt upt_conv_Cons)
  moreover have "(q_head x + Suc i) mod QUEUE_CAP = (Suc (q_head x) mod QUEUE_CAP + i) mod QUEUE_CAP" for i
    by (simp add: mod_add_left_eq)
  moreover have "q_head x mod QUEUE_CAP = q_head x" using assms(1) by (simp add: ring_valid_def)
  ultimately show ?thesis by (simp add: ring_contents_def ring_get_def)
qed

interpretation ring: bounded_fifo QUEUE_CAP ring_valid ring_contents ring_put ring_get
proof unfold_locales
  fix x item
  assume v: "ring_valid x"
  then show "length (ring_contents x) \<le> QUEUE_CAP" by (simp add: ring_valid_def)
  show "length (ring_contents x) < QUEUE_CAP \<Longrightarrow> ring_valid (ring_put item x)"
    "length (ring_contents x) < QUEUE_CAP \<Longrightarrow> ring_contents (ring_put item x) = ring_contents x @ [item]"
    using ring_put_valid [OF v] ring_put_contents [OF v] by simp_all
  assume "ring_contents x \<noteq> []"
  then have "0 < q_count x" by (metis length_greater_0_conv length_ring_contents)
  then show "ring_valid (snd (ring_get x))" "ring_contents x = fst (ring_get x) # ring_contents (snd (ring_get x))"
    using ring_get_valid [OF v] ring_get_contents [OF v] by simp_all
qed

lemma queue_send_room:
  assumes "q_count (queues k q) < QUEUE_CAP"
  shows "queue_send c q item k = Some (True, Returned
    (if recv_waiter (queues k q) \<noteq> NULL
     then set_state (recv_waiter (queues k q)) 0 (upd_queue q (\<lambda>x. (ring_put item x)\<lparr>recv_waiter := NULL\<rparr>) k)
     else upd_queue q (ring_put item) k))"
  using assms by (simp add: queue_send_def irq_disable_save_def irq_restore_def Let_def ring_put_def)

lemma queue_send_full:
  assumes ok: "sched_ok k" and c: "c < MAX_CPUS" and full: "\<not> q_count (queues k q) < QUEUE_CAP"
  shows "\<exists>r. queue_send c q item k = Some (False, r) \<and> (\<nexists>k'. r = Returned k') \<and> sched_ok (state_of r) \<and>
     queues (state_of r) = (queues k)(q := (queues k q)\<lparr>send_waiter := current c k\<rparr>) \<and>
     (\<forall>t. tcb_state (tcbs (state_of r) t) = (if t = current c k then 1 else tcb_state (tcbs k t)))"
proof -
  let ?k0 = "upd_queue q (\<lambda>x. x\<lparr>send_waiter := current c k\<rparr>) (upd_regs c (\<lambda>r. r\<lparr>daif := daif r OR DAIF_I\<rparr>) k)"
  have "sched_ok ?k0" by (rule sched_ok_cong [OF ok]) simp_all
  from self_block [OF this c, of "daif (regs k c)"] obtain r where "self_blocked c (daif (regs k c)) ?k0 r" ..
  note r = self_blockedD [OF this]
  have "queue_send c q item k = Some (False, r)"
    using full r(1) by (simp add: queue_send_def irq_disable_save_def Let_def)
  then show ?thesis using r(2,3) more_sync(4) [OF r(4)] r(6) by simp
qed

lemma queue_recv_some:
  assumes "0 < q_count (queues k q)"
  shows "queue_recv c q k = Some (Some (fst (ring_get (queues k q))), Returned
    (if send_waiter (queues k q) \<noteq> NULL
     then set_state (send_waiter (queues k q)) 0 (upd_queue q (\<lambda>x. (snd (ring_get x))\<lparr>send_waiter := NULL\<rparr>) k)
     else upd_queue q (\<lambda>x. snd (ring_get x)) k))"
  using assms by (simp add: queue_recv_def irq_disable_save_def irq_restore_def Let_def ring_get_def)

lemma queue_recv_empty:
  assumes ok: "sched_ok k" and c: "c < MAX_CPUS" and empty: "\<not> 0 < q_count (queues k q)"
  shows "\<exists>r. queue_recv c q k = Some (None, r) \<and> (\<nexists>k'. r = Returned k') \<and> sched_ok (state_of r) \<and>
     queues (state_of r) = (queues k)(q := (queues k q)\<lparr>recv_waiter := current c k\<rparr>) \<and>
     (\<forall>t. tcb_state (tcbs (state_of r) t) = (if t = current c k then 1 else tcb_state (tcbs k t)))"
proof -
  let ?k0 = "upd_queue q (\<lambda>x. x\<lparr>recv_waiter := current c k\<rparr>) (upd_regs c (\<lambda>r. r\<lparr>daif := daif r OR DAIF_I\<rparr>) k)"
  have "sched_ok ?k0" by (rule sched_ok_cong [OF ok]) simp_all
  from self_block [OF this c, of "daif (regs k c)"] obtain r where "self_blocked c (daif (regs k c)) ?k0 r" ..
  note r = self_blockedD [OF this]
  have "queue_recv c q k = Some (None, r)"
    using empty r(1) by (simp add: queue_recv_def irq_disable_save_def Let_def)
  then show ?thesis using r(2,3) more_sync(4) [OF r(4)] r(6) by simp
qed

text \<open>All passes of senders and receivers of CPU \<open>c\<close> through one queue, with anything else in between that is not a call on it.\<close>

inductive queue_trace :: "u64 \<Rightarrow> nat \<Rightarrow> 'z sync_state_scheme \<Rightarrow> u64 list \<Rightarrow> u64 list \<Rightarrow> bool" for q c where
  init: "sched_ok k \<Longrightarrow> length (q_buf (queues k q)) = QUEUE_CAP \<Longrightarrow> queue_trace q c (queue_init q k) [] []"
| send: "queue_trace q c k sent received \<Longrightarrow> c < MAX_CPUS \<Longrightarrow> queue_send c q item k = Some (fin, r) \<Longrightarrow>
    queue_trace q c (state_of r) (if fin then sent @ [item] else sent) received"
| recv: "queue_trace q c k sent received \<Longrightarrow> c < MAX_CPUS \<Longrightarrow> queue_recv c q k = Some (x, r) \<Longrightarrow>
    queue_trace q c (state_of r) sent (case x of Some item \<Rightarrow> received @ [item] | None \<Rightarrow> received)"
| other: "queue_trace q c k sent received \<Longrightarrow> sched_ok k' \<Longrightarrow> queues k' q = queues k q \<Longrightarrow> queue_trace q c k' sent received"

lemma ring_waiters [simp]:
  "ring_valid (x\<lparr>send_waiter := w\<rparr>) = ring_valid x" "ring_contents (x\<lparr>send_waiter := w\<rparr>) = ring_contents x"
  "ring_valid (x\<lparr>recv_waiter := w\<rparr>) = ring_valid x" "ring_contents (x\<lparr>recv_waiter := w\<rparr>) = ring_contents x"
  by (simp_all add: ring_valid_def ring_contents_def)

lemma fifo_waiters [simp]:
  "ring.fifo (x\<lparr>send_waiter := w\<rparr>) s t = ring.fifo x s t" "ring.fifo (x\<lparr>recv_waiter := w\<rparr>) s t = ring.fifo x s t"
  by (simp_all add: ring.fifo_def)

lemma queue_send_fifo:
  assumes ok: "sched_ok k" and f: "ring.fifo (queues k q) sent received" and c: "c < MAX_CPUS" and r: "queue_send c q item k = Some (fin, r)"
  shows "sched_ok (state_of r) \<and> ring.fifo (queues (state_of r) q) (if fin then sent @ [item] else sent) received"
proof (cases "q_count (queues k q) < QUEUE_CAP")
  case True
  from queue_send_room [OF this, of c item] r have r': "fin" "state_of r =
    (if recv_waiter (queues k q) \<noteq> NULL
     then set_state (recv_waiter (queues k q)) 0 (upd_queue q (\<lambda>x. (ring_put item x)\<lparr>recv_waiter := NULL\<rparr>) k)
     else upd_queue q (ring_put item) k)" by auto
  have "sched_ok (state_of r)" by (rule sched_ok_cong [OF ok]) (simp_all add: r'(2))
  then show ?thesis using ring.fifo_put [OF f, of item] True r' by simp
next
  case False
  from queue_send_full [OF ok c this, of item] r show ?thesis using f by auto
qed

lemma queue_recv_fifo:
  assumes ok: "sched_ok k" and f: "ring.fifo (queues k q) sent received" and c: "c < MAX_CPUS" and r: "queue_recv c q k = Some (x, r)"
  shows "sched_ok (state_of r) \<and> ring.fifo (queues (state_of r) q) sent (case x of Some item \<Rightarrow> received @ [item] | None \<Rightarrow> received)"
proof (cases "0 < q_count (queues k q)")
  case True
  from queue_recv_some [OF this, of c] r have r': "x = Some (fst (ring_get (queues k q)))" "state_of r =
    (if send_waiter (queues k q) \<noteq> NULL
     then set_state (send_waiter (queues k q)) 0 (upd_queue q (\<lambda>x. (snd (ring_get x))\<lparr>send_waiter := NULL\<rparr>) k)
     else upd_queue q (\<lambda>x. snd (ring_get x)) k)" by auto
  have "sched_ok (state_of r)" by (rule sched_ok_cong [OF ok]) (simp_all add: r'(2))
  moreover have "ring_contents (queues k q) \<noteq> []" using True by (metis length_0_conv length_ring_contents less_irrefl)
  ultimately show ?thesis using ring.fifo_get [OF f] r' by simp
next
  case False
  from queue_recv_empty [OF ok c this] r show ?thesis using f by auto
qed

lemma queue_trace_fifo:
  assumes "queue_trace q c k sent received"
  shows "sched_ok k \<and> ring.fifo (queues k q) sent received"
  using assms
proof (induction rule: queue_trace.induct)
  case (init k)
  have "sched_ok (queue_init q k)" by (rule sched_ok_cong [OF init(1)]) (simp_all add: queue_init_def)
  moreover have "ring_valid (queues (queue_init q k) q)" "ring_contents (queues (queue_init q k) q) = []"
    using init(2) by (simp_all add: queue_init_def ring_valid_def ring_contents_def QUEUE_CAP_def)
  ultimately show ?case by (simp add: ring.fifo_def)
next
  case (send k sent received item fin r)
  then show ?case using queue_send_fifo [OF _ _ send(2,3)] by blast
next
  case (recv k sent received x r)
  then show ?case using queue_recv_fifo [OF _ _ recv(2,3)] by blast
next
  case (other k sent received k')
  then show ?case by simp
qed

section \<open>Properties\<close>

text \<open>C31: an event wait delivers what it waited for. While a task that blocked in \<open>event_wait\<close> is pending,
  whatever bits other tasks of its CPU set and clear, either it is still registered with its own mask, or it has been woken and
  the value its call returns when it runs again, however much later, is all of the mask (wait for all) or a
  non-empty part of it (wait for any), even if the flags have changed since.\<close>

theorem event_wait_delivers:
  assumes "sched_ok k" and "c < MAX_CPUS" and "current c k \<noteq> NULL"
    and "event_wait c e m all k = Some (None, r)" and "event_hist e c (state_of r) k'"
  shows "event_pending (current c k) m all (events k' e) \<or>
     ev_waiter (events k' e) = NULL \<and>
     (let v = fst (event_wait_resume c' e r k') in if all \<noteq> 0 then v = m else v \<noteq> 0 \<and> v AND m = v)"
proof -
  have "\<not> event_satisfied ((events k e)\<lparr>wait_mask := m, wait_all := all\<rparr>)"
    using assms(4) event_wait_now [where k = k and e = e and m = m and all = all and c = c] by auto
  from event_wait_block [OF assms(1,2) this] assms(4)
  have "events (state_of r) = (events k)(e := (events k e)\<lparr>wait_mask := m, wait_all := all, ev_waiter := current c k\<rparr>)"
    by (metis option.inject prod.inject)
  then have "event_pending (current c k) m all (events (state_of r) e)" by (simp add: event_pending_def)
  from event_hist_waiter [OF assms(5,3) this] show ?thesis
    by (auto simp: event_delivered_def event_wait_resume_def Let_def)
qed

text \<open>C19: a queue is a bounded FIFO. Over every history of sends and receives of the tasks of one CPU, blocked passes included, what
  has been received followed by what is in the ring is what has been sent, in order, with nothing lost
  or duplicated, and the ring never holds more than its four slots.\<close>

theorem queue_fifo:
  assumes "queue_trace q c k sent received"
  shows "sent = received @ ring_contents (queues k q) \<and> length (ring_contents (queues k q)) \<le> QUEUE_CAP"
  using queue_trace_fifo [OF assms] ring.within [of "queues k q"] by (simp add: ring.fifo_def)

text \<open>A send into a full queue never returns at once: the sender is registered and BLOCKED, the
  contents untouched, and the next receive makes it READY.\<close>

lemma queue_send_then_recv:
  assumes "sched_ok k" and "c < MAX_CPUS" and "ring_valid (queues k q)"
    and "q_count (queues k q) = QUEUE_CAP" and "current c k \<noteq> NULL"
  shows "\<exists>r x k2. queue_send c q item k = Some (False, r) \<and> (\<nexists>k'. r = Returned k') \<and>
     \<not> ready (state_of r) (current c k) \<and> ring_contents (queues (state_of r) q) = ring_contents (queues k q) \<and>
     queue_recv d q (state_of r) = Some (Some x, Returned k2) \<and> ready k2 (current c k) \<and>
     ring_contents (queues k q) = x # ring_contents (queues k2 q)"
proof -
  obtain r where r: "queue_send c q item k = Some (False, r)" "\<nexists>k'. r = Returned k'"
    "queues (state_of r) = (queues k)(q := (queues k q)\<lparr>send_waiter := current c k\<rparr>)"
    "\<forall>t. tcb_state (tcbs (state_of r) t) = (if t = current c k then 1 else tcb_state (tcbs k t))"
    using queue_send_full [OF assms(1,2), of q item] assms(4) by auto
  let ?x = "queues (state_of r) q"
  have cnt: "0 < q_count ?x" "ring_valid ?x" "ring_contents ?x = ring_contents (queues k q)"
    using r(3) assms(3,4) by (simp_all add: QUEUE_CAP_def)
  have w: "send_waiter ?x = current c k" using r(3) by simp
  let ?k2 = "set_state (current c k) 0 (upd_queue q (\<lambda>x. (snd (ring_get x))\<lparr>send_waiter := NULL\<rparr>) (state_of r))"
  have rv: "queue_recv d q (state_of r) = Some (Some (fst (ring_get ?x)), Returned ?k2)"
    using queue_recv_some [OF cnt(1), of d] w assms(5) by simp
  have "ring_contents (queues k q) = fst (ring_get ?x) # ring_contents (queues ?k2 q)"
    using ring_get_contents [OF cnt(2,1)] cnt(3) by simp
  then show ?thesis using r(1,2,4) cnt(3) rv
    by (intro exI [of _ r] exI [of _ "fst (ring_get ?x)"] exI [of _ ?k2]) simp
qed

section \<open>Witnesses\<close>

theorem event_wait_delivers_witness:
  "\<exists>r. event_wait 1 0x55 6 0 sync_sample = Some (None, r) \<and>
     (let x = events (event_set 1 0x55 2 (state_of r)) 0x55
      in event_pending 0x1000 6 0 x \<or> wake_result x \<noteq> 0)"
proof -
  have lt: "1 < MAX_CPUS" by (simp add: header_consts)
  have "\<not> event_satisfied ((events sync_sample 0x55)\<lparr>wait_mask := 6, wait_all := 0\<rparr>)"
    by (simp add: event_satisfied_def)
  from event_wait_block [OF sync_sample_sched_ok lt this] obtain r where
    r: "event_wait 1 0x55 6 0 sync_sample = Some (None, r)" by metis
  have h: "event_hist 0x55 1 (state_of r) (event_set 1 0x55 2 (state_of r))"
    by (rule event_hist.set [OF event_hist.start])
  show ?thesis using r event_wait_delivers [OF sync_sample_sched_ok lt _ r h, of 1]
    by (auto simp: Let_def event_wait_resume_def)
qed

theorem queue_fifo_witness:
  "\<exists>k. queue_send 1 0x33 42 (queue_init 0x33 sync_sample) = Some (True, Returned k) \<and> ring_contents (queues k 0x33) = [42]"
proof -
  let ?k0 = "queue_init 0x33 sync_sample"
  have t0: "queue_trace 0x33 1 ?k0 [] []"
    by (rule queue_trace.init [OF sync_sample_sched_ok]) (simp add: QUEUE_CAP_def)
  have "q_count (queues ?k0 0x33) < QUEUE_CAP" by (simp add: queue_init_def QUEUE_CAP_def)
  from queue_send_room [OF this, of 1 42] obtain k where k: "queue_send 1 0x33 42 ?k0 = Some (True, Returned k)" by blast
  have lt: "1 < MAX_CPUS" by (simp add: header_consts)
  from queue_trace.send [OF t0 lt k] have "queue_trace 0x33 1 k [42] []" by simp
  from queue_fifo [OF this] k show ?thesis by auto
qed

end
