(* ===== verification/Mutex.thy ===== *)
theory Mutex
  imports Sync
begin

text \<open>
  Mutexes of \<open>kernel/sync.c\<close>, load by load and store by store. A mutex has no spinlock: \<open>mutex_lock\<close> and
  \<open>mutex_unlock\<close> mask the interrupts of the CPU they run on and no more. Their steps therefore interleave with
  what the other CPUs do, calls on the same mutex included. The theory shows that a call that is not interfered with does
  what \<open>mutex_lock\<close> and \<open>mutex_unlock\<close> of the theory \<open>Sync\<close> do, that a mutex which only the tasks of one CPU use is exclusive,
  and that one which two CPUs use is not.
\<close>

section \<open>The steps of the calls\<close>

text \<open>Where a CPU is, with the saved DAIF and the value of the local variable \<open>w\<close>: outside the calls; in \<open>mutex_lock\<close>, before
  the test of \<open>locked\<close>, the stores to \<open>locked\<close> and \<open>owner\<close>, or the stores to \<open>waiter\<close> and to the state of the task and the
  switch away; in \<open>mutex_unlock\<close>, before the test of \<open>waiter\<close>, the load of \<open>w\<close> and the stores of the hand-over, or before the stores
  that open the mutex.\<close>

datatype mutex_pc =
  Mx_out
| Lock_test u64 | Lock_set u64 | Lock_own u64
| Lock_wait u64 | Lock_sleep u64 | Lock_switch u64
| Unlock_test u64 | Unlock_take u64 | Unlock_clear u64 u64 | Unlock_own u64 u64 | Unlock_wake u64 u64
| Unlock_open u64 | Unlock_disown u64

text \<open>\<open>mx_holders\<close> lists the tasks that have the mutex: \<open>mutex_lock\<close> returned to them, or \<open>mutex_unlock\<close> handed it over to
  them; a task gives it up when it calls \<open>mutex_unlock\<close>. The code has no such list.\<close>

record mutex_machine =
  mx_k :: sync_state
  mx_pc :: "nat \<Rightarrow> mutex_pc"
  mx_holders :: "u64 list"

definition mx_goto :: "nat \<Rightarrow> mutex_pc \<Rightarrow> sync_state \<Rightarrow> mutex_machine \<Rightarrow> mutex_machine" where
  "mx_goto c p k s = s\<lparr>mx_k := k, mx_pc := (mx_pc s)(c := p)\<rparr>"

text \<open>The entry of the calls, which mask interrupts.\<close>

definition mutex_lock_call :: "nat \<Rightarrow> mutex_machine \<Rightarrow> mutex_machine" where
  "mutex_lock_call c s = (let (flags, k) = irq_disable_save c (mx_k s) in mx_goto c (Lock_test flags) k s)"

definition mutex_unlock_call :: "nat \<Rightarrow> mutex_machine \<Rightarrow> mutex_machine" where
  "mutex_unlock_call c s =
    (let (flags, k) = irq_disable_save c (mx_k s)
     in (mx_goto c (Unlock_test flags) k s)\<lparr>mx_holders := remove1 (current c (mx_k s)) (mx_holders s)\<rparr>)"

text \<open>One step of \<open>mutex_lock\<close>. The last one of each branch includes the return: \<open>irq_restore\<close> writes a register of this CPU only.\<close>

definition mutex_lock_exec :: "u64 \<Rightarrow> nat \<Rightarrow> mutex_machine \<Rightarrow> mutex_machine option" where
  "mutex_lock_exec m c s =
    (let k = mx_k s in
     case mx_pc s c of
       Lock_test flags \<Rightarrow> Some (mx_goto c (if mx_locked (mutexes k m) = 0 then Lock_set flags else Lock_wait flags) k s)
     | Lock_set flags \<Rightarrow> Some (mx_goto c (Lock_own flags) (upd_mutex m (\<lambda>x. x\<lparr>mx_locked := 1\<rparr>) k) s)
     | Lock_own flags \<Rightarrow>
         (let k = upd_mutex m (\<lambda>x. x\<lparr>mx_owner := current c k\<rparr>) k
          in Some ((mx_goto c Mx_out (irq_restore c flags k) s)\<lparr>mx_holders := current c k # mx_holders s\<rparr>))
     | Lock_wait flags \<Rightarrow> Some (mx_goto c (Lock_sleep flags) (upd_mutex m (\<lambda>x. x\<lparr>mx_waiter := current c k\<rparr>) k) s)
     | Lock_sleep flags \<Rightarrow> Some (mx_goto c (Lock_switch flags) (set_state (current c k) 1 k) s)
     | Lock_switch flags \<Rightarrow> do { r \<leftarrow> block_current_and_switch c flags k; Some (mx_goto c Mx_out (state_of r) s) }
     | _ \<Rightarrow> None)"

text \<open>One step of \<open>mutex_unlock\<close>.\<close>

definition mutex_unlock_exec :: "u64 \<Rightarrow> nat \<Rightarrow> mutex_machine \<Rightarrow> mutex_machine option" where
  "mutex_unlock_exec m c s =
    (let k = mx_k s in
     case mx_pc s c of
       Unlock_test flags \<Rightarrow> Some (mx_goto c (if mx_waiter (mutexes k m) \<noteq> NULL then Unlock_take flags else Unlock_open flags) k s)
     | Unlock_take flags \<Rightarrow> Some (mx_goto c (Unlock_clear flags (mx_waiter (mutexes k m))) k s)
     | Unlock_clear flags w \<Rightarrow> Some (mx_goto c (Unlock_own flags w) (upd_mutex m (\<lambda>x. x\<lparr>mx_waiter := NULL\<rparr>) k) s)
     | Unlock_own flags w \<Rightarrow> Some (mx_goto c (Unlock_wake flags w) (upd_mutex m (\<lambda>x. x\<lparr>mx_owner := w\<rparr>) k) s)
     | Unlock_wake flags w \<Rightarrow>
         Some ((mx_goto c Mx_out (irq_restore c flags (set_state w 0 k)) s)\<lparr>mx_holders := w # mx_holders s\<rparr>)
     | Unlock_open flags \<Rightarrow> Some (mx_goto c (Unlock_disown flags) (upd_mutex m (\<lambda>x. x\<lparr>mx_locked := 0\<rparr>) k) s)
     | Unlock_disown flags \<Rightarrow> Some (mx_goto c Mx_out (irq_restore c flags (upd_mutex m (\<lambda>x. x\<lparr>mx_owner := NULL\<rparr>) k)) s)
     | _ \<Rightarrow> None)"

definition mutex_exec :: "u64 \<Rightarrow> nat \<Rightarrow> mutex_machine \<Rightarrow> mutex_machine option" where
  "mutex_exec m c s = (case mutex_lock_exec m c s of Some s' \<Rightarrow> Some s' | None \<Rightarrow> mutex_unlock_exec m c s)"

text \<open>A schedule: the CPUs that make the next steps.\<close>

fun mutex_run :: "u64 \<Rightarrow> nat list \<Rightarrow> mutex_machine \<Rightarrow> mutex_machine option" where
  "mutex_run m [] s = Some s"
| "mutex_run m (c # cs) s = Option.bind (mutex_exec m c s) (mutex_run m cs)"

text \<open>Everything the system does with one mutex that the tasks of the CPUs \<open>cs\<close> call: calls, their steps in any order, and
  anything else, as long as it leaves the mutex alone and does not take a CPU away from a call, which runs with interrupts
  masked. Only a task that has the mutex unlocks it.\<close>

definition mutex_start :: "u64 \<Rightarrow> sync_state \<Rightarrow> mutex_machine" where
  "mutex_start m k = \<lparr>mx_k = mutex_init m k, mx_pc = (\<lambda>_. Mx_out), mx_holders = []\<rparr>"

inductive mutex_reach :: "u64 \<Rightarrow> nat set \<Rightarrow> mutex_machine \<Rightarrow> bool" for m cs where
  start: "sched_ok k \<Longrightarrow> mutex_reach m cs (mutex_start m k)"
| lock: "mutex_reach m cs s \<Longrightarrow> c \<in> cs \<Longrightarrow> c < MAX_CPUS \<Longrightarrow> mx_pc s c = Mx_out \<Longrightarrow> current c (mx_k s) \<noteq> NULL \<Longrightarrow>
    mutex_reach m cs (mutex_lock_call c s)"
| unlock: "mutex_reach m cs s \<Longrightarrow> c \<in> cs \<Longrightarrow> c < MAX_CPUS \<Longrightarrow> mx_pc s c = Mx_out \<Longrightarrow> current c (mx_k s) \<in> set (mx_holders s) \<Longrightarrow>
    mutex_reach m cs (mutex_unlock_call c s)"
| exec: "mutex_reach m cs s \<Longrightarrow> c \<in> cs \<Longrightarrow> c < MAX_CPUS \<Longrightarrow> mutex_exec m c s = Some s' \<Longrightarrow> mutex_reach m cs s'"
| other: "mutex_reach m cs s \<Longrightarrow> sched_ok k' \<Longrightarrow> mutexes k' m = mutexes (mx_k s) m \<Longrightarrow>
    (\<And>c. mx_pc s c \<noteq> Mx_out \<Longrightarrow> current c k' = current c (mx_k s)) \<Longrightarrow> mutex_reach m cs (s\<lparr>mx_k := k'\<rparr>)"

lemmas mutex_exec_defs = mutex_exec_def mutex_lock_exec_def mutex_unlock_exec_def mutex_lock_call_def mutex_unlock_call_def mx_goto_def

lemma mutex_run_append: "mutex_run m (cs @ ds) s = Option.bind (mutex_run m cs s) (mutex_run m ds)"
  by (induction cs arbitrary: s) (simp_all split: bind_split)

lemma mutex_reach_run:
  assumes "mutex_reach m cs s" and "mutex_run m ds s = Some s'" and "set ds \<subseteq> cs \<inter> {..<MAX_CPUS}"
  shows "mutex_reach m cs s'"
  using assms by (induction ds arbitrary: s) (auto simp: Option.bind_eq_Some_conv intro: mutex_reach.exec)

section \<open>A call alone\<close>

lemma mutex_lock_held:
  assumes ok: "sched_ok k" and c: "c < MAX_CPUS" and held: "mx_locked (mutexes k m) \<noteq> 0"
  obtains r where "mutex_lock c m k = Some r" "\<nexists>k'. r = Returned k'" "sched_ok (state_of r)"
    "mutexes (state_of r) = (mutexes k)(m := (mutexes k m)\<lparr>mx_waiter := current c k\<rparr>)"
    "\<And>t. tcb_state (tcbs (state_of r) t) = (if t = current c k then 1 else tcb_state (tcbs k t))"
proof -
  let ?k0 = "upd_mutex m (\<lambda>x. x\<lparr>mx_waiter := current c k\<rparr>) (upd_regs c (\<lambda>r. r\<lparr>daif := daif r OR DAIF_I\<rparr>) k)"
  have "sched_ok ?k0" by (rule sched_ok_cong [OF ok]) simp_all
  from self_block [OF this c, of "daif (regs k c)"] obtain r where "self_blocked c (daif (regs k c)) ?k0 r" ..
  note r = self_blockedD [OF this]
  have "mutex_lock c m k = Some r"
    using held r(1) by (simp add: mutex_lock_def irq_disable_save_def Let_def)
  then show ?thesis using that r(2,3) more_sync(2) [OF r(4)] r(6) by simp
qed

text \<open>A call that runs alone, step by step, ends in the state of the function, out of the calls.\<close>

lemma mutex_lock_alone:
  assumes "sched_ok (mx_k s)" and "c < MAX_CPUS"
  shows "\<exists>n r s'. mutex_lock c m (mx_k s) = Some r \<and> mutex_run m (replicate n c) (mutex_lock_call c s) = Some s' \<and>
     mx_k s' = state_of r \<and> mx_pc s' = (mx_pc s)(c := Mx_out) \<and>
     mx_holders s' = (case r of Returned _ \<Rightarrow> [current c (mx_k s)] | _ \<Rightarrow> []) @ mx_holders s"
proof (cases "mx_locked (mutexes (mx_k s) m) = 0")
  case True
  let ?k = "mx_k s" and ?f = "daif (regs (mx_k s) c)"
  let ?k1 = "upd_mutex m (\<lambda>x. x\<lparr>mx_owner := current c ?k\<rparr>) (upd_mutex m (\<lambda>x. x\<lparr>mx_locked := 1\<rparr>) (upd_regs c (\<lambda>r. r\<lparr>daif := daif r OR DAIF_I\<rparr>) ?k))"
  have "mutex_lock c m ?k = Some (Returned (irq_restore c ?f ?k1))"
    using True by (simp add: mutex_lock_def irq_disable_save_def Let_def)
  moreover have "mutex_run m (replicate 3 c) (mutex_lock_call c s) =
      Some ((mx_goto c Mx_out (irq_restore c ?f ?k1) s)\<lparr>mx_holders := current c ?k # mx_holders s\<rparr>)"
    using True by (simp add: mutex_exec_defs irq_disable_save_def numeral_3_eq_3 Let_def)
  ultimately show ?thesis by (intro exI [of _ 3] exI conjI) (assumption, assumption, simp_all add: mx_goto_def)
next
  case False
  let ?k = "mx_k s" and ?f = "daif (regs (mx_k s) c)"
  obtain r where r: "mutex_lock c m ?k = Some r" "\<nexists>k'. r = Returned k'" using mutex_lock_held [OF assms False] by metis
  have "mutex_run m (replicate 4 c) (mutex_lock_call c s) = Some (mx_goto c Mx_out (state_of r) s)"
    using False r(1) by (simp add: mutex_exec_defs irq_disable_save_def mutex_lock_def numeral_eq_Suc Let_def)
  then show ?thesis using r
    by (intro exI [of _ 4] exI conjI) (assumption, assumption, auto simp: mx_goto_def split: outcome.split)
qed

lemma mutex_unlock_alone:
  "\<exists>n s'. mutex_run m (replicate n c) (mutex_unlock_call c s) = Some s' \<and> mx_k s' = mutex_unlock c m (mx_k s) \<and>
     mx_pc s' = (mx_pc s)(c := Mx_out) \<and>
     mx_holders s' = (if mx_waiter (mutexes (mx_k s) m) \<noteq> NULL then [mx_waiter (mutexes (mx_k s) m)] else []) @
        remove1 (current c (mx_k s)) (mx_holders s)"
proof (cases "mx_waiter (mutexes (mx_k s) m) = NULL")
  case True
  then show ?thesis
    by (intro exI [of _ 3] exI [of _ "the (mutex_run m (replicate 3 c) (mutex_unlock_call c s))"])
       (simp add: mutex_exec_defs irq_disable_save_def mutex_unlock_def numeral_eq_Suc Let_def)
next
  case False
  then show ?thesis
    by (intro exI [of _ 5] exI [of _ "the (mutex_run m (replicate 5 c) (mutex_unlock_call c s))"])
       (simp add: mutex_exec_defs irq_disable_save_def mutex_unlock_def numeral_eq_Suc Let_def)
qed

section \<open>One CPU\<close>

text \<open>What holds of the mutex where the one CPU that uses it is.\<close>

definition mutex_inv :: "mutex \<Rightarrow> u64 list \<Rightarrow> bool" where
  "mutex_inv x hs \<longleftrightarrow>
     (if mx_locked x = 0 then hs = [] \<and> mx_owner x = NULL \<and> mx_waiter x = NULL
      else hs = [mx_owner x] \<and> mx_owner x \<noteq> NULL)"

fun mutex_at :: "mutex_pc \<Rightarrow> mutex \<Rightarrow> u64 list \<Rightarrow> bool" where
  "mutex_at Mx_out x hs = mutex_inv x hs"
| "mutex_at (Lock_test _) x hs = mutex_inv x hs"
| "mutex_at (Lock_set _) x hs = (mutex_inv x hs \<and> mx_locked x = 0)"
| "mutex_at (Lock_own _) x hs = (mx_locked x \<noteq> 0 \<and> mx_waiter x = NULL \<and> hs = [])"
| "mutex_at (Lock_wait _) x hs = (mutex_inv x hs \<and> mx_locked x \<noteq> 0)"
| "mutex_at (Lock_sleep _) x hs = (mutex_inv x hs \<and> mx_locked x \<noteq> 0)"
| "mutex_at (Lock_switch _) x hs = (mutex_inv x hs \<and> mx_locked x \<noteq> 0)"
| "mutex_at (Unlock_test _) x hs = (mx_locked x \<noteq> 0 \<and> hs = [])"
| "mutex_at (Unlock_take _) x hs = (mx_locked x \<noteq> 0 \<and> hs = [] \<and> mx_waiter x \<noteq> NULL)"
| "mutex_at (Unlock_clear _ w) x hs = (mx_locked x \<noteq> 0 \<and> hs = [] \<and> w \<noteq> NULL)"
| "mutex_at (Unlock_own _ w) x hs = (mx_locked x \<noteq> 0 \<and> hs = [] \<and> w \<noteq> NULL)"
| "mutex_at (Unlock_wake _ w) x hs = (mx_locked x \<noteq> 0 \<and> hs = [] \<and> w \<noteq> NULL \<and> mx_owner x = w)"
| "mutex_at (Unlock_open _) x hs = (mx_locked x \<noteq> 0 \<and> hs = [] \<and> mx_waiter x = NULL)"
| "mutex_at (Unlock_disown _) x hs = (mx_locked x = 0 \<and> hs = [] \<and> mx_waiter x = NULL)"

lemma mutex_at_few: "mutex_at p x hs \<Longrightarrow> length hs \<le> 1"
  by (cases p) (auto simp: mutex_inv_def split: if_splits)

definition one_cpu_inv :: "u64 \<Rightarrow> nat \<Rightarrow> mutex_machine \<Rightarrow> bool" where
  "one_cpu_inv m c s \<longleftrightarrow> sched_ok (mx_k s) \<and> mutex_at (mx_pc s c) (mutexes (mx_k s) m) (mx_holders s) \<and>
     (mx_pc s c \<noteq> Mx_out \<longrightarrow> current c (mx_k s) \<noteq> NULL)"

lemma current_restore [simp]: "current d (irq_restore c f k) = current d k"
  by (simp add: irq_restore_def current_def this_cpu_def)

lemma current_state [simp]: "current d (set_state t v k) = current d k"
  by (simp add: current_def this_cpu_def)

text \<open>The one step that calls the scheduler.\<close>

lemma block_mutexes:
  assumes "sched_ok k" and "c < MAX_CPUS" and "block_current_and_switch c flags k = Some r"
  shows "sched_ok (state_of r)" and "mutexes (state_of r) = mutexes k"
proof -
  from block_effect [OF assms(1,2), of flags] obtain r' where "blocked c flags k r'" ..
  then have "sched_ok (state_of r)" "kernel.more (state_of r) = kernel.more k" using assms(3) by (auto simp: blocked_def)
  then show "sched_ok (state_of r)" and "mutexes (state_of r) = mutexes k" using more_sync(2) by blast+
qed

lemma mutex_exec_switch:
  assumes "mx_pc s c = Lock_switch f" and "mutex_exec m c s = Some s'"
  obtains r where "block_current_and_switch c f (mx_k s) = Some r" "s' = mx_goto c Mx_out (state_of r) s"
  using assms by (cases "block_current_and_switch c f (mx_k s)") (auto simp: mutex_exec_defs)

lemma one_cpu_exec:
  assumes inv: "one_cpu_inv m c s" and c: "c < MAX_CPUS" and e: "mutex_exec m c s = Some s'"
  shows "one_cpu_inv m c s'"
proof -
  have ok: "sched_ok (mx_k s)" using inv by (simp add: one_cpu_inv_def)
  have ok': "sched_ok (mx_k s')"
  proof (cases "\<exists>f. mx_pc s c = Lock_switch f")
    case True
    then show ?thesis using block_mutexes(1) [OF ok c] by (auto simp: mx_goto_def elim: mutex_exec_switch [OF _ e])
  next
    case False
    then show ?thesis
      by (intro sched_ok_cong [OF ok]) (use e in \<open>auto simp: mutex_exec_defs irq_restore_def Let_def split: mutex_pc.splits\<close>)
  qed
  show ?thesis
  proof (cases "mx_pc s c")
    case (Lock_switch f)
    then show ?thesis using inv ok' block_mutexes(2) [OF ok c]
      by (auto simp: mx_goto_def one_cpu_inv_def elim!: mutex_exec_switch [OF _ e])
  qed (use e inv ok' in \<open>auto simp: mutex_exec_defs one_cpu_inv_def mutex_inv_def irq_restore_def Let_def split: if_splits\<close>)
qed

lemma one_cpu_reach:
  assumes "mutex_reach m {c} s"
  shows "one_cpu_inv m c s"
  using assms
proof (induction rule: mutex_reach.induct)
  case (start k)
  have "sched_ok (mutex_init m k)" by (rule sched_ok_cong [OF start]) (simp_all add: mutex_init_def)
  then show ?case by (simp add: one_cpu_inv_def mutex_start_def mutex_inv_def) (simp add: mutex_init_def)
next
  case (lock s d)
  have "sched_ok (mx_k (mutex_lock_call d s))"
    by (rule sched_ok_cong [of "mx_k s"]) (use lock in \<open>simp_all add: one_cpu_inv_def mutex_exec_defs irq_disable_save_def\<close>)
  then show ?case using lock by (simp add: one_cpu_inv_def mutex_exec_defs irq_disable_save_def)
next
  case (unlock s d)
  have "sched_ok (mx_k (mutex_unlock_call d s))"
    by (rule sched_ok_cong [of "mx_k s"]) (use unlock in \<open>simp_all add: one_cpu_inv_def mutex_exec_defs irq_disable_save_def\<close>)
  then show ?case using unlock by (auto simp: one_cpu_inv_def mutex_exec_defs irq_disable_save_def mutex_inv_def split: if_splits)
next
  case (exec s d s')
  then show ?case using one_cpu_exec by simp
next
  case (other s k')
  then show ?case by (auto simp: one_cpu_inv_def)
qed

section \<open>Two CPUs\<close>

text \<open>Both CPUs test \<open>locked\<close> before either sets it.\<close>

lemma two_holders:
  assumes "c \<noteq> d"
  shows "\<exists>s. mutex_run m [c, d, c, d, c, d] (mutex_lock_call d (mutex_lock_call c (mutex_start m k))) = Some s \<and>
     mx_pc s = (\<lambda>_. Mx_out) \<and> mx_holders s = [current d k, current c k]"
  using assms
  by (simp add: mutex_start_def mutex_init_def mutex_exec_defs irq_disable_save_def Let_def)
     (simp add: fun_eq_iff irq_restore_def current_def this_cpu_def)

text \<open>CPU \<open>c\<close> unlocks and has found no waiter when CPU \<open>d\<close> finds the mutex locked and registers.\<close>

lemma open_with_waiter:
  assumes "c \<noteq> d" and "sched_ok k"
  shows "\<exists>s1 s2. mutex_run m [c, c, c] (mutex_lock_call c (mutex_start m k)) = Some s1 \<and>
     mx_holders s1 = [current c k] \<and> mx_pc s1 = (\<lambda>_. Mx_out) \<and> current c (mx_k s1) = current c k \<and> current d (mx_k s1) = current d k \<and>
     mutex_run m [c, d, d, d, c, c] (mutex_lock_call d (mutex_unlock_call c s1)) = Some s2 \<and>
     mx_pc s2 = (\<lambda>_. Mx_out)(d := Lock_switch (daif (regs k d))) \<and> mx_holders s2 = [] \<and>
     mutexes (mx_k s2) m = \<lparr>mx_locked = 0, mx_owner = NULL, mx_waiter = current d k\<rparr> \<and>
     \<not> ready (mx_k s2) (current d k) \<and> sched_ok (mx_k s2)"
  using assms(1)
  by (simp add: mutex_start_def mutex_init_def mutex_exec_defs irq_disable_save_def Let_def)
     (simp add: fun_eq_iff irq_restore_def current_def this_cpu_def, rule sched_ok_cong [OF assms(2)], simp_all)

lemma call_frame:
  "current e (mx_k (mutex_start m k)) = current e k" "mx_pc (mutex_start m k) e = Mx_out"
  "current e (mx_k (mutex_lock_call c s)) = current e (mx_k s)" "current e (mx_k (mutex_unlock_call c s)) = current e (mx_k s)"
  "d \<noteq> c \<Longrightarrow> mx_pc (mutex_lock_call c s) d = mx_pc s d" "d \<noteq> c \<Longrightarrow> mx_pc (mutex_unlock_call c s) d = mx_pc s d"
  by (simp_all add: mutex_start_def mutex_init_def mutex_exec_defs irq_disable_save_def current_def this_cpu_def)

text \<open>The setting of both runs: two CPUs that run tasks.\<close>

definition two_cpus :: "nat \<Rightarrow> nat \<Rightarrow> sync_state \<Rightarrow> bool" where
  "two_cpus c d k \<longleftrightarrow> sched_ok k \<and> c < MAX_CPUS \<and> d < MAX_CPUS \<and> c \<noteq> d \<and> current c k \<noteq> NULL \<and> current d k \<noteq> NULL"

lemma first_call: "two_cpus c d k \<Longrightarrow> mutex_reach m {c, d} (mutex_lock_call c (mutex_start m k))"
  unfolding two_cpus_def by (intro mutex_reach.lock mutex_reach.start) (simp_all add: call_frame)

lemma reach_two_holders:
  assumes t: "two_cpus c d k"
  shows "\<exists>s. mutex_reach m {c, d} s \<and> mx_pc s = (\<lambda>_. Mx_out) \<and> mx_holders s = [current d k, current c k]"
proof -
  have ne: "c \<noteq> d" using t by (simp add: two_cpus_def)
  obtain s where s: "mutex_run m [c, d, c, d, c, d] (mutex_lock_call d (mutex_lock_call c (mutex_start m k))) = Some s"
    "mx_pc s = (\<lambda>_. Mx_out)" "mx_holders s = [current d k, current c k]" using two_holders [OF ne] by blast
  have "mutex_reach m {c, d} (mutex_lock_call d (mutex_lock_call c (mutex_start m k)))"
    using t by (intro mutex_reach.lock [OF first_call [OF t]]) (simp_all add: call_frame two_cpus_def)
  from mutex_reach_run [OF this s(1)] s(2,3) t show ?thesis by (auto simp: two_cpus_def)
qed

lemma reach_open_with_waiter:
  assumes t: "two_cpus c d k"
  shows "\<exists>s. mutex_reach m {c, d} s \<and> mx_pc s = (\<lambda>_. Mx_out) \<and> mx_holders s = [] \<and> mx_locked (mutexes (mx_k s) m) = 0 \<and>
     mx_waiter (mutexes (mx_k s) m) = current d k \<and> \<not> ready (mx_k s) (current d k)"
proof -
  have ne: "c \<noteq> d" "sched_ok k" and d: "d < MAX_CPUS" and both: "set cs \<subseteq> {c, d} \<Longrightarrow> set cs \<subseteq> {c, d} \<inter> {..<MAX_CPUS}" for cs
    using t by (auto simp: two_cpus_def)
  obtain s1 s2 where s: "mutex_run m [c, c, c] (mutex_lock_call c (mutex_start m k)) = Some s1"
    "mx_holders s1 = [current c k]" "mx_pc s1 = (\<lambda>_. Mx_out)" "current c (mx_k s1) = current c k" "current d (mx_k s1) = current d k"
    "mutex_run m [c, d, d, d, c, c] (mutex_lock_call d (mutex_unlock_call c s1)) = Some s2"
    "mx_pc s2 = (\<lambda>_. Mx_out)(d := Lock_switch (daif (regs k d)))" "mx_holders s2 = []"
    "mutexes (mx_k s2) m = \<lparr>mx_locked = 0, mx_owner = NULL, mx_waiter = current d k\<rparr>" "\<not> ready (mx_k s2) (current d k)"
    "sched_ok (mx_k s2)"
    using open_with_waiter [OF ne] by blast
  have "mutex_reach m {c, d} s1" by (rule mutex_reach_run [OF first_call [OF t] s(1) both]) simp
  then have "mutex_reach m {c, d} (mutex_unlock_call c s1)"
    using t s(2-4) by (intro mutex_reach.unlock) (simp_all add: two_cpus_def)
  then have "mutex_reach m {c, d} (mutex_lock_call d (mutex_unlock_call c s1))"
    using t s(3,5) by (intro mutex_reach.lock) (simp_all add: call_frame two_cpus_def)
  then have r2: "mutex_reach m {c, d} s2" by (rule mutex_reach_run [OF _ s(6) both]) simp
  from block_effect [OF s(11) d, of "daif (regs k d)"] obtain r where r: "blocked d (daif (regs k d)) (mx_k s2) r" ..
  let ?s = "mx_goto d Mx_out (state_of r) s2"
  have "mutex_exec m d s2 = Some ?s" using r s(7) by (simp add: blocked_def mutex_exec_defs)
  then have "mutex_reach m {c, d} ?s" by (intro mutex_reach.exec [OF r2 _ d]) simp
  moreover have "mutexes (state_of r) = mutexes (mx_k s2)" "tcb_state (tcbs (state_of r) (current d k)) = tcb_state (tcbs (mx_k s2) (current d k))"
    using r more_sync(2) by (auto simp: blocked_def)
  ultimately show ?thesis using s(7-10) by (intro exI [of _ ?s]) (simp add: mx_goto_def fun_upd_idem)
qed

section \<open>Properties\<close>

text \<open>C20: mutual exclusion and hand-over on one CPU. However the loads and stores of the calls interleave with anything else that leaves
  the mutex alone, at most one task has a mutex that only the tasks of one CPU call, and while none of its calls is in progress it is
  marked locked exactly when a task has it, which is the recorded owner: unlocking with a waiter hands the mutex over.\<close>

theorem mutex_exclusive:
  assumes "mutex_reach m {c} s"
  shows "length (mx_holders s) \<le> 1 \<and> (mx_pc s c = Mx_out \<longrightarrow> (mx_locked (mutexes (mx_k s) m) = 0 \<longleftrightarrow> mx_holders s = []) \<and>
     (\<forall>t\<in>set (mx_holders s). mx_owner (mutexes (mx_k s) m) = t))"
proof -
  have "mutex_at (mx_pc s c) (mutexes (mx_k s) m) (mx_holders s)" using one_cpu_reach [OF assms] by (simp add: one_cpu_inv_def)
  then show ?thesis using mutex_at_few by (auto simp: mutex_inv_def split: if_splits)
qed


section \<open>Witnesses\<close>

theorem mutex_exclusive_witness:
  "\<exists>s. mutex_run 0x77 [1, 1, 1] (mutex_lock_call 1 (mutex_start 0x77 sync_sample)) = Some s \<and> mx_holders s = [0x1000] \<and>
     mx_owner (mutexes (mx_k s) 0x77) = 0x1000"
proof -
  let ?s0 = "mutex_lock_call 1 (mutex_start 0x77 sync_sample)"
  have r0: "mutex_reach 0x77 {1} ?s0"
    by (intro mutex_reach.lock mutex_reach.start sync_sample_sched_ok) (simp_all add: call_frame header_consts)
  have "(1 :: nat) \<noteq> 2" by simp
  from open_with_waiter [OF this sync_sample_sched_ok, of "0x77"] obtain s where s: "mutex_run 0x77 [1, 1, 1] ?s0 = Some s"
    "mx_holders s = [current 1 sync_sample]" "mx_pc s = (\<lambda>_. Mx_out)" by blast
  have "mutex_reach 0x77 {1} s" by (rule mutex_reach_run [OF r0 s(1)]) (simp add: header_consts)
  from mutex_exclusive [OF this] s show ?thesis by (intro exI [of _ s]) simp
qed


end
