(* ===== verification/Layout.thy ===== *)
theory Layout
  imports Context_Switch
begin

text \<open>
  Layout of the C structures, on a 64-bit target: sizes and alignments of the types, offsets of the
  members by the rule of the ABI (each member at the next multiple of its alignment, the whole rounded up to the
  alignment of the structure; \<open>packed\<close> drops the padding, \<open>aligned(n)\<close> raises the alignment). The
  assembly code, the device and the static assertions of the headers depend on these numbers, and two structures are
  declared once in \<open>main.c\<close> and once more in the file that fills them.
\<close>

section \<open>Types and offsets\<close>

datatype ctype = C_char | C_int | C_long | C_ptr | C_array ctype nat
  | C_struct bool nat "(string \<times> ctype) list"  \<comment> \<open>packed, \<open>aligned(n)\<close> or 1, members\<close>

definition round_up :: "nat \<Rightarrow> nat \<Rightarrow> nat" where
  "round_up n a = (n + a - 1) div a * a"

fun alignof :: "ctype \<Rightarrow> nat" and aligns :: "(string \<times> ctype) list \<Rightarrow> nat" where
  "alignof C_char = 1"
| "alignof C_int = 4"
| "alignof C_long = 8"
| "alignof C_ptr = 8"
| "alignof (C_array t n) = alignof t"
| "alignof (C_struct packed a fs) = max (max 1 a) (if packed then 1 else aligns fs)"
| "aligns [] = 1"
| "aligns ((f, t) # fs) = max (alignof t) (aligns fs)"

fun sizeof :: "ctype \<Rightarrow> nat" and end_of :: "bool \<Rightarrow> nat \<Rightarrow> (string \<times> ctype) list \<Rightarrow> nat" where
  "sizeof C_char = 1"
| "sizeof C_int = 4"
| "sizeof C_long = 8"
| "sizeof C_ptr = 8"
| "sizeof (C_array t n) = n * sizeof t"
| "sizeof (C_struct packed a fs) = round_up (end_of packed 0 fs) (alignof (C_struct packed a fs))"
| "end_of packed at [] = at"
| "end_of packed at ((f, t) # fs) = end_of packed (round_up at (if packed then 1 else alignof t) + sizeof t) fs"

text \<open>The members with their offsets and sizes, the first at or after \<open>at\<close>.\<close>

fun offsets :: "bool \<Rightarrow> nat \<Rightarrow> (string \<times> ctype) list \<Rightarrow> (string \<times> nat \<times> nat) list" where
  "offsets packed at [] = []"
| "offsets packed at ((f, t) # fs) =
    (let at = round_up at (if packed then 1 else alignof t) in (f, at, sizeof t) # offsets packed (at + sizeof t) fs)"

fun members :: "ctype \<Rightarrow> (string \<times> nat \<times> nat) list" where
  "members (C_struct packed a fs) = offsets packed 0 fs"
| "members _ = []"

definition offsetof :: "ctype \<Rightarrow> string \<Rightarrow> nat option" where
  "offsetof t f = map_option fst (map_of (members t) f)"

section \<open>The structures of the kernel\<close>

definition spinlock_t :: ctype where
  "spinlock_t = C_struct False 1 [(''locked'', C_int)]"

definition tcb_t :: ctype where
  "tcb_t = C_struct False 16 [(''sp'', C_long), (''stack'', C_array C_long STACK_WORDS), (''name'', C_ptr), (''entry'', C_ptr),
     (''state'', C_int), (''ewma_load'', C_int), (''cpu'', C_int), (''pinned'', C_int)]"

definition cpu_local_t :: ctype where
  "cpu_local_t = C_struct False 64 [(''cpu_id'', C_long), (''curr'', C_ptr), (''irq_count'', C_long), (''sched_calls'', C_long),
     (''unexpected_switch'', C_long), (''context_switches'', C_long)]"

definition sem_t :: ctype where
  "sem_t = C_struct False 1 [(''count'', C_int), (''waiter'', C_ptr), (''lock'', spinlock_t)]"

definition mutex_t :: ctype where
  "mutex_t = C_struct False 1 [(''locked'', C_int), (''owner'', C_ptr), (''waiter'', C_ptr)]"

definition event_t :: ctype where
  "event_t = C_struct False 1 [(''flags'', C_int), (''waiter'', C_ptr), (''wait_mask'', C_int), (''wait_all'', C_int), (''wake_result'', C_int)]"

definition queue_t :: ctype where
  "queue_t = C_struct False 1 [(''buf'', C_array C_long 4), (''head'', C_int), (''tail'', C_int), (''count'', C_int),
     (''send_waiter'', C_ptr), (''recv_waiter'', C_ptr)]"

definition runqueue_t :: ctype where
  "runqueue_t = C_struct False 1 [(''tasks'', C_array C_ptr MAX_TASKS), (''num_tasks'', C_int), (''current_idx'', C_int),
     (''select_count'', C_array C_long MAX_TASKS), (''lock'', spinlock_t)]"

definition dma_accel_cmd_t :: ctype where
  "dma_accel_cmd_t = C_struct True 1 [(''opcode'', C_int), (''len'', C_int), (''src_addr'', C_long), (''dst_addr'', C_long), (''cmd_id'', C_long),
     (''src2_addr'', C_long), (''scalar_bits'', C_int), (''reserved'', C_int)]"

definition dma_accel_completion_t :: ctype where
  "dma_accel_completion_t = C_struct True 1 [(''cmd_id'', C_long), (''status'', C_int), (''reserved'', C_int)]"

definition pci_dev_t :: ctype where
  "pci_dev_t = C_struct False 1 [(''bus'', C_int), (''dev'', C_int), (''func'', C_int), (''bar0_phys'', C_long), (''bar0_size'', C_int),
     (''bar0_readback'', C_int), (''gic_spi'', C_int), (''found'', C_int)]"

text \<open>The second declarations, of \<open>main.c\<close>.\<close>

definition main_completion_t :: ctype where
  "main_completion_t = C_struct True 1 [(''cmd_id'', C_long), (''status'', C_int), (''reserved'', C_int)]"

definition main_pci_dev_t :: ctype where
  "main_pci_dev_t = C_struct False 1 [(''bus'', C_int), (''dev'', C_int), (''func'', C_int), (''bar0_phys'', C_long), (''bar0_size'', C_int),
     (''bar0_readback'', C_int), (''gic_spi'', C_int), (''found'', C_int)]"

definition pending_req_t :: ctype where
  "pending_req_t = C_struct False 1 [(''cmd_id'', C_long), (''sem'', C_ptr), (''result'', main_completion_t), (''used'', C_int), (''done'', C_int)]"

definition switch_hist_t :: ctype where
  "switch_hist_t = C_struct False 1 [(''site'', C_ptr), (''prev_id'', C_int), (''next_id'', C_int)]"

definition cpu_stack_t :: ctype where
  "cpu_stack_t = C_array C_char 4096"

lemmas layout_defs = spinlock_t_def tcb_t_def cpu_local_t_def sem_t_def mutex_t_def event_t_def queue_t_def runqueue_t_def
  dma_accel_cmd_t_def dma_accel_completion_t_def pci_dev_t_def main_completion_t_def main_pci_dev_t_def pending_req_t_def
  switch_hist_t_def cpu_stack_t_def round_up_def offsetof_def header_consts

section \<open>Layouts are sound\<close>

text \<open>Members lie one after the other without overlap, inside the structure, and unpacked ones on a multiple of their alignment.\<close>

definition well_laid :: "ctype \<Rightarrow> bool" where
  "well_laid s \<longleftrightarrow> sorted_wrt (\<lambda>(_, a, n) (_, b, _). a + n \<le> b) (members s) \<and> (\<forall>(_, a, n) \<in> set (members s). a + n \<le> sizeof s)"

fun aligned_members :: "ctype \<Rightarrow> bool" where
  "aligned_members (C_struct packed a fs) =
    list_all2 (\<lambda>(_, at, _) (_, t). (if packed then 1 else alignof t) dvd at) (offsets packed 0 fs) fs"
| "aligned_members _ = True"

lemma round_up_le: "n \<le> round_up n a" if "0 < a"
proof -
  have "(n + a - 1) mod a < a" using that by simp
  moreover have "(n + a - 1) div a * a + (n + a - 1) mod a = n + a - 1" by (rule div_mult_mod_eq)
  ultimately show ?thesis unfolding round_up_def by linarith
qed

lemma alignof_pos [simp]: "0 < alignof t" "0 < aligns fs"
  by (induction t and fs rule: alignof_aligns.induct) auto

lemma end_of_le: "at \<le> end_of packed at fs"
proof (induction fs arbitrary: at)
  case (Cons x fs)
  obtain f t where x: "x = (f, t)" by (cases x)
  have "at \<le> round_up at (if packed then 1 else alignof t)" by (rule round_up_le) simp
  then show ?case using Cons [of "round_up at (if packed then 1 else alignof t) + sizeof t"] x by simp
qed simp

lemma offsets_from:
  "(f, a, n) \<in> set (offsets packed at fs) \<Longrightarrow> at \<le> a \<and> a + n \<le> end_of packed at fs"
proof (induction fs arbitrary: at)
  case (Cons x fs)
  obtain g t where x: "x = (g, t)" by (cases x)
  let ?a = "round_up at (if packed then 1 else alignof t)"
  have le: "at \<le> ?a" by (rule round_up_le) simp
  from Cons.prems x consider "a = ?a" "n = sizeof t" | "(f, a, n) \<in> set (offsets packed (?a + sizeof t) fs)"
    by (auto simp: Let_def)
  then show ?case
  proof cases
    case 1
    then show ?thesis using le end_of_le [of "?a + sizeof t" packed fs] x by simp
  next
    case 2
    from Cons.IH [OF 2] show ?thesis using le x by simp
  qed
qed simp

lemma offsets_apart: "sorted_wrt (\<lambda>(_, a, n) (_, b, _). a + n \<le> b) (offsets packed at fs)"
proof (induction fs arbitrary: at)
  case (Cons x fs)
  obtain g t where x: "x = (g, t)" by (cases x)
  show ?case using Cons unfolding x by (auto simp: Let_def dest: offsets_from)
qed simp

lemma struct_well_laid: "well_laid (C_struct packed a fs)"
proof -
  have "end_of packed 0 fs \<le> sizeof (C_struct packed a fs)"
    unfolding sizeof.simps by (rule round_up_le) simp
  then show ?thesis unfolding well_laid_def members.simps
    using offsets_apart [of packed 0 fs] offsets_from [of _ _ _ packed 0 fs] by (fastforce simp: split_def)
qed

lemma struct_aligned: "aligned_members (C_struct packed a fs)"
proof -
  have "list_all2 (\<lambda>(_, at, _) (_, t). (if packed then 1 else alignof t) dvd at) (offsets packed at fs) fs" for at
    by (induction fs arbitrary: at) (auto simp: Let_def round_up_def)
  then show ?thesis by simp
qed

section \<open>Properties\<close>



end
