(* ===== verification/Accel.thy ===== *)
theory Accel
  imports Sync
begin

text \<open>
  The driver of the DMA accelerator (\<open>kernel/accel.c\<close>): its registers, the submission ring the driver
  fills, and the completion ring the device fills. The completion ring is memory that the device writes;
  \<open>cq_ring\<close> says what it holds after a given history of accesses and, like \<open>dev\<close>, is a parameter that
  no definition constrains. The loops that wait for the device are \<open>partial_function\<close>s.
\<close>

section \<open>Registers and rings\<close>

definition REG_IRQ_STATUS :: u32 where "REG_IRQ_STATUS = 0x34"
definition REG_IRQ_MASK :: u32 where "REG_IRQ_MASK = 0x38"
definition REG_SQ_BASE_LO :: u32 where "REG_SQ_BASE_LO = 0x40"
definition REG_SQ_BASE_HI :: u32 where "REG_SQ_BASE_HI = 0x44"
definition REG_SQ_SIZE :: u32 where "REG_SQ_SIZE = 0x48"
definition REG_SQ_TAIL :: u32 where "REG_SQ_TAIL = 0x4C"
definition REG_CQ_BASE_LO :: u32 where "REG_CQ_BASE_LO = 0x50"
definition REG_CQ_BASE_HI :: u32 where "REG_CQ_BASE_HI = 0x54"
definition REG_CQ_SIZE :: u32 where "REG_CQ_SIZE = 0x58"
definition REG_CQ_HEAD :: u32 where "REG_CQ_HEAD = 0x5C"
definition REG_CQ_TAIL :: u32 where "REG_CQ_TAIL = 0x64"

definition IRQ_DMA_DONE :: u32 where "IRQ_DMA_DONE = push_bit 0 1"
definition IRQ_DMA_ERROR :: u32 where "IRQ_DMA_ERROR = push_bit 1 1"
definition IRQ_DEVICE_ERROR :: u32 where "IRQ_DEVICE_ERROR = push_bit 2 1"

definition OPCODE_COPY :: u32 where "OPCODE_COPY = 0"

definition DMA_ACCEL_QUEUE_DEPTH :: u32 where "DMA_ACCEL_QUEUE_DEPTH = 16"

record dma_accel_cmd =
  opcode :: u32
  cmd_len :: u32
  src_addr :: u64
  dst_addr :: u64
  sq_cmd_id :: u64
  src2_addr :: u64
  scalar_bits :: u32
  cmd_reserved :: u32

record dma_accel_completion =
  cq_cmd_id :: u64
  cq_status :: u32
  cq_reserved :: u32

record accel_state = sync_state +
  g_bar0 :: u64
  sq_ring :: "dma_accel_cmd list"
  cq_ring :: "io list \<Rightarrow> nat \<Rightarrow> dma_accel_completion"
  sq_tail_local :: u32
  cq_head_local :: u32
  last_completion :: dma_accel_completion

section \<open>The driver\<close>

text \<open>\<open>g_bar0[off / 4]\<close>, an array of 32-bit registers.\<close>

definition reg_addr :: "u32 \<Rightarrow> 'z accel_state_scheme \<Rightarrow> u64" where
  "reg_addr off k = g_bar0 k + 4 * ucast (off div 4)"

definition reg_write :: "u32 \<Rightarrow> u32 \<Rightarrow> 'z accel_state_scheme \<Rightarrow> 'z accel_state_scheme" where
  "reg_write off val k = io_write (Wr32 (reg_addr off k) val) k"

definition reg_read :: "u32 \<Rightarrow> 'z accel_state_scheme \<Rightarrow> u32 \<times> 'z accel_state_scheme" where
  "reg_read off k = read32 (reg_addr off k) k"

definition accel_init :: "u64 \<Rightarrow> 'z accel_state_scheme \<Rightarrow> 'z accel_state_scheme" where
  "accel_init bar0_phys k = k\<lparr>g_bar0 := bar0_phys\<rparr>"

text \<open>\<open>sq_addr\<close> and \<open>cq_addr\<close> are the addresses the linker gave the rings.\<close>

definition accel_setup_queues :: "u64 \<Rightarrow> u64 \<Rightarrow> 'z accel_state_scheme \<Rightarrow> 'z accel_state_scheme" where
  "accel_setup_queues sq_addr cq_addr k =
    (let k = reg_write REG_SQ_BASE_LO (ucast (sq_addr AND 0xFFFFFFFF)) k;
         k = reg_write REG_SQ_BASE_HI (ucast (drop_bit 32 sq_addr)) k;
         k = reg_write REG_SQ_SIZE DMA_ACCEL_QUEUE_DEPTH k;
         k = reg_write REG_CQ_BASE_LO (ucast (cq_addr AND 0xFFFFFFFF)) k;
         k = reg_write REG_CQ_BASE_HI (ucast (drop_bit 32 cq_addr)) k;
         k = reg_write REG_CQ_SIZE DMA_ACCEL_QUEUE_DEPTH k
     in reg_write REG_IRQ_MASK (IRQ_DMA_DONE OR IRQ_DMA_ERROR OR IRQ_DEVICE_ERROR) k)"

definition copy_cmd :: "u64 \<Rightarrow> u64 \<Rightarrow> u32 \<Rightarrow> u64 \<Rightarrow> dma_accel_cmd" where
  "copy_cmd src dst len cmd_id = \<lparr>opcode = OPCODE_COPY, cmd_len = len, src_addr = src, dst_addr = dst,
     sq_cmd_id = cmd_id, src2_addr = 0, scalar_bits = 0, cmd_reserved = 0\<rparr>"

text \<open>\<open>sq_tail_local + 1\<close> is computed in 32 bits and then widened.\<close>

definition accel_submit_copy ::
    "nat \<Rightarrow> u64 \<Rightarrow> u64 \<Rightarrow> u32 \<Rightarrow> 'z accel_state_scheme \<Rightarrow> u64 \<times> 'z accel_state_scheme" where
  "accel_submit_copy c src dst len k =
    (let (flags, k) = irq_disable_save c k;
         idx = unat (sq_tail_local k mod DMA_ACCEL_QUEUE_DEPTH);
         cmd_id = ucast (sq_tail_local k + 1);
         k = k\<lparr>sq_ring := (sq_ring k)[idx := copy_cmd src dst len cmd_id]\<rparr>;
         k = k\<lparr>sq_tail_local := sq_tail_local k + 1\<rparr>;
         k = reg_write REG_SQ_TAIL (sq_tail_local k) k
     in (cmd_id, irq_restore c flags k))"

text \<open>Taking the completion at the head: \<open>\<dots> = cq_ring[idx]; cq_head_local++; reg_write(REG_CQ_HEAD, cq_head_local)\<close>.\<close>

definition cq_take :: "'z accel_state_scheme \<Rightarrow> dma_accel_completion \<times> 'z accel_state_scheme" where
  "cq_take k =
    (let idx = unat (cq_head_local k mod DMA_ACCEL_QUEUE_DEPTH);
         cm = cq_ring k (io_log k) idx;
         k = k\<lparr>cq_head_local := cq_head_local k + 1\<rparr>
     in (cm, reg_write REG_CQ_HEAD (cq_head_local k) k))"

text \<open>The result is \<open>None\<close> for the return value 0, and the completion stored to \<open>*out\<close> for 1.\<close>

partial_function (option) accel_poll_loop :: "u64 \<Rightarrow> u64 \<Rightarrow> 'z accel_state_scheme \<Rightarrow>
    (dma_accel_completion option \<times> 'z accel_state_scheme) option" where
  "accel_poll_loop max_spins spins k =
     (if fst (reg_read REG_CQ_TAIL k) = cq_head_local k then
        (if spins + 1 > max_spins then Some (None, snd (reg_read REG_CQ_TAIL k))
         else accel_poll_loop max_spins (spins + 1) (snd (reg_read REG_CQ_TAIL k)))
      else (let (cm, k) = cq_take (snd (reg_read REG_CQ_TAIL k)) in Some (Some cm, k)))"

definition accel_poll_completion :: "u64 \<Rightarrow> 'z accel_state_scheme \<Rightarrow>
    (dma_accel_completion option \<times> 'z accel_state_scheme) option" where
  "accel_poll_completion max_spins k = accel_poll_loop max_spins 0 k"

partial_function (option) accel_drain_loop :: "int \<Rightarrow> 'z accel_state_scheme \<Rightarrow> (int \<times> 'z accel_state_scheme) option" where
  "accel_drain_loop drained k =
     (if fst (reg_read REG_CQ_TAIL k) \<noteq> cq_head_local k then
        (let (cm, k) = cq_take (snd (reg_read REG_CQ_TAIL k));
             k = k\<lparr>last_completion := cm\<rparr>
         in if drained = INT_MAX then None else accel_drain_loop (drained + 1) k)
      else Some (drained, snd (reg_read REG_CQ_TAIL k)))"

definition accel_drain_completions :: "'z accel_state_scheme \<Rightarrow> (int \<times> 'z accel_state_scheme) option" where
  "accel_drain_completions k = accel_drain_loop 0 k"

text \<open>\<open>out\<close> holds the completions stored so far; \<open>drained\<close> is its length.\<close>

function accel_drain_multi :: "dma_accel_completion list \<Rightarrow> nat \<Rightarrow> 'z accel_state_scheme \<Rightarrow>
    dma_accel_completion list \<times> 'z accel_state_scheme" where
  "accel_drain_multi out max_out k =
     (if length out < max_out then
        (let (tail, k) = reg_read REG_CQ_TAIL k in
         if tail \<noteq> cq_head_local k then
           (let (cm, k) = cq_take k in accel_drain_multi (out @ [cm]) max_out k)
         else (out, k))
      else (out, k))"
  by pat_completeness auto
termination
  by (relation "measure (\<lambda>(out, max_out, k). max_out - length out)") auto

declare accel_drain_multi.simps [simp del]

definition accel_drain_completions_multi :: "nat \<Rightarrow> 'z accel_state_scheme \<Rightarrow>
    dma_accel_completion list \<times> 'z accel_state_scheme" where
  "accel_drain_completions_multi max_out k = accel_drain_multi [] max_out k"

definition accel_last_completion :: "'z accel_state_scheme \<Rightarrow> dma_accel_completion" where
  "accel_last_completion k = last_completion k"

definition accel_irq_status :: "'z accel_state_scheme \<Rightarrow> u32 \<times> 'z accel_state_scheme" where
  "accel_irq_status k = reg_read REG_IRQ_STATUS k"

definition accel_irq_ack :: "u32 \<Rightarrow> 'z accel_state_scheme \<Rightarrow> 'z accel_state_scheme" where
  "accel_irq_ack bits k = reg_write REG_IRQ_STATUS bits k"

definition accel_debug_cq_tail :: "'z accel_state_scheme \<Rightarrow> u32 \<times> 'z accel_state_scheme" where
  "accel_debug_cq_tail k = reg_read REG_CQ_TAIL k"

definition accel_debug_cq_head_local :: "'z accel_state_scheme \<Rightarrow> u32" where
  "accel_debug_cq_head_local k = cq_head_local k"

lemmas accel_io_defs = reg_write_def reg_read_def io_write_def read32_def cq_take_def

section \<open>Polling\<close>

text \<open>The state after \<open>n\<close> polls of \<open>CQ_TAIL\<close>, and what the next poll reads.\<close>

definition polled :: "nat \<Rightarrow> 'z accel_state_scheme \<Rightarrow> 'z accel_state_scheme" where
  "polled n k = k\<lparr>io_log := io_log k @ replicate n (Rd32 (reg_addr REG_CQ_TAIL k))\<rparr>"

definition tail_after :: "'z accel_state_scheme \<Rightarrow> nat \<Rightarrow> u32" where
  "tail_after k n = fst (reg_read REG_CQ_TAIL (polled n k))"

lemma reg_addr_frame [simp]:
  "reg_addr off (k\<lparr>io_log := l\<rparr>) = reg_addr off k" "reg_addr off (k\<lparr>cq_head_local := h\<rparr>) = reg_addr off k"
  "reg_addr off (k\<lparr>last_completion := x\<rparr>) = reg_addr off k" "reg_addr off (k\<lparr>sq_ring := r\<rparr>) = reg_addr off k"
  "reg_addr off (k\<lparr>sq_tail_local := t\<rparr>) = reg_addr off k" "reg_addr off (k\<lparr>regs := g\<rparr>) = reg_addr off k"
  by (simp_all add: reg_addr_def)

lemma polled_simps [simp]: "polled 0 k = k" "cq_head_local (polled n k) = cq_head_local k"
  "polled m (polled n k) = polled (n + m) k"
  by (simp_all add: polled_def replicate_add)

lemma poll_read: "reg_read REG_CQ_TAIL (polled n k) = (tail_after k n, polled (Suc n) k)"
  by (simp add: tail_after_def) (simp add: reg_read_def read32_def polled_def replicate_append_same)

text \<open>With a budget that is not the largest number, the spin counter cannot pass the budget unnoticed.\<close>

lemma poll_loop_ends:
  assumes "max_spins \<noteq> - 1" and "n \<le> unat max_spins"
  shows "\<exists>m. n \<le> m \<and> m \<le> unat max_spins \<and> (\<forall>i. n \<le> i \<and> i < m \<longrightarrow> tail_after k i = cq_head_local k) \<and>
     accel_poll_loop max_spins (of_nat n) (polled n k) =
       (if tail_after k m = cq_head_local k then Some (None, polled (Suc m) k)
        else (case cq_take (polled (Suc m) k) of (cm, k') \<Rightarrow> Some (Some cm, k'))) \<and>
     (tail_after k m = cq_head_local k \<longrightarrow> m = unat max_spins)"
  using assms(2)
proof (induction n rule: inc_induct)
  case base
  have "1 + max_spins \<noteq> 0" using assms(1) by (simp add: add_eq_0_iff)
  then have "max_spins < max_spins + 1" using unatSuc [of max_spins] by (simp add: word_less_nat_alt add.commute)
  then show ?case by (intro exI [of _ "unat max_spins"]) (subst accel_poll_loop.simps, auto simp: poll_read)
next
  case (step n)
  have lt: "\<not> max_spins < of_nat n + 1"
  proof -
    have "unat max_spins < 2 ^ LENGTH(64)" by (rule unsigned_less)
    then have "unat (of_nat (Suc n) :: u64) = Suc n" using step.hyps by (simp add: unat_of_nat del: of_nat_Suc)
    then show ?thesis using step.hyps by (simp add: word_less_nat_alt add.commute)
  qed
  show ?case
  proof (cases "tail_after k n = cq_head_local k")
    case True
    then have "accel_poll_loop max_spins (of_nat n) (polled n k) = accel_poll_loop max_spins (of_nat (Suc n)) (polled (Suc n) k)"
      using lt by (subst accel_poll_loop.simps) (simp add: poll_read add.commute)
    moreover obtain m where "Suc n \<le> m" "m \<le> unat max_spins" "\<forall>i. Suc n \<le> i \<and> i < m \<longrightarrow> tail_after k i = cq_head_local k"
      "accel_poll_loop max_spins (of_nat (Suc n)) (polled (Suc n) k) =
       (if tail_after k m = cq_head_local k then Some (None, polled (Suc m) k)
        else (case cq_take (polled (Suc m) k) of (cm, k') \<Rightarrow> Some (Some cm, k')))"
      "tail_after k m = cq_head_local k \<longrightarrow> m = unat max_spins" using step.IH by blast
    moreover from this True have "\<forall>i. n \<le> i \<and> i < m \<longrightarrow> tail_after k i = cq_head_local k"
      by (metis Suc_leI le_neq_implies_less)
    ultimately show ?thesis by (intro exI [of _ m]) simp
  next
    case False
    then show ?thesis using step.hyps
      by (intro exI [of _ n]) (subst accel_poll_loop.simps, auto simp: poll_read)
  qed
qed

section \<open>Draining\<close>

text \<open>The device is at rest: \<open>CQ_TAIL\<close> reads \<open>t\<close> and the completion ring holds \<open>ring\<close>.\<close>

definition cq_rest :: "u32 \<Rightarrow> (nat \<Rightarrow> dma_accel_completion) \<Rightarrow> 'z accel_state_scheme \<Rightarrow> bool" where
  "cq_rest t ring k \<longleftrightarrow> (\<forall>l. ucast (dev k l (reg_addr REG_CQ_TAIL k)) = t) \<and> (\<forall>l. cq_ring k l = ring)"

lemma cq_rest_frame [simp]:
  "cq_rest t ring (k\<lparr>io_log := l\<rparr>) = cq_rest t ring k" "cq_rest t ring (k\<lparr>cq_head_local := h\<rparr>) = cq_rest t ring k"
  "cq_rest t ring (k\<lparr>last_completion := x\<rparr>) = cq_rest t ring k"
  by (simp_all add: cq_rest_def)

text \<open>The completions from position \<open>h\<close> on.\<close>

definition cq_slots :: "(nat \<Rightarrow> dma_accel_completion) \<Rightarrow> u32 \<Rightarrow> nat \<Rightarrow> dma_accel_completion list" where
  "cq_slots ring h n = map (\<lambda>i. ring (unat ((h + of_nat i) mod DMA_ACCEL_QUEUE_DEPTH))) [0..<n]"

lemma cq_slots_Suc: "cq_slots ring h (Suc n) = ring (unat (h mod DMA_ACCEL_QUEUE_DEPTH)) # cq_slots ring (h + 1) n"
  unfolding cq_slots_def upt_conv_Cons [OF zero_less_Suc] map_Suc_upt [symmetric] by (simp add: add.assoc)

lemma cq_take_rest:
  "cq_rest t ring k \<Longrightarrow> cq_take k = (ring (unat (cq_head_local k mod DMA_ACCEL_QUEUE_DEPTH)),
     k\<lparr>cq_head_local := cq_head_local k + 1,
       io_log := io_log k @ [Wr32 (reg_addr REG_CQ_HEAD k) (cq_head_local k + 1)]\<rparr>)"
  by (simp add: cq_take_def reg_write_def io_write_def cq_rest_def Let_def)

lemma reg_read_rest:
  "cq_rest t ring k \<Longrightarrow> reg_read REG_CQ_TAIL k = (t, k\<lparr>io_log := io_log k @ [Rd32 (reg_addr REG_CQ_TAIL k)]\<rparr>)"
  by (simp add: reg_read_def read32_def cq_rest_def)

text \<open>How many completions wait.\<close>

abbreviation cq_waiting :: "u32 \<Rightarrow> 'z accel_state_scheme \<Rightarrow> nat" where
  "cq_waiting t k \<equiv> unat (t - cq_head_local k)"

lemma cq_waiting_step:
  assumes "t \<noteq> h"
  shows "unat (t - h) = Suc (unat (t - (h + 1 :: u32)))"
proof -
  have "t - h \<noteq> 0" using assms by simp
  then have "unat (t - h) = Suc (unat (t - h - 1))" using unatSuc [of "t - h - 1"] by simp
  then show ?thesis by (simp add: diff_diff_eq)
qed

lemma drain_multi_exact:
  assumes "cq_rest t ring k"
  shows "\<exists>l. accel_drain_multi out max_out k =
     (out @ cq_slots ring (cq_head_local k) (min (max_out - length out) (cq_waiting t k)),
      k\<lparr>cq_head_local := cq_head_local k + of_nat (min (max_out - length out) (cq_waiting t k)), io_log := io_log k @ l\<rparr>)"
  using assms
proof (induction "max_out - length out" arbitrary: out k)
  case 0
  then show ?case by (subst accel_drain_multi.simps) (auto simp: cq_slots_def intro!: exI [of _ "[]"])
next
  case (Suc d)
  let ?h = "cq_head_local k" and ?r = "Rd32 (reg_addr REG_CQ_TAIL k)"
  have lt: "length out < max_out" using Suc.hyps(2) by simp
  show ?case
  proof (cases "t = ?h")
    case True
    then show ?thesis using lt Suc.prems
      by (subst accel_drain_multi.simps) (auto simp: reg_read_rest cq_slots_def intro!: exI [of _ "[?r]"])
  next
    case False
    let ?c = "ring (unat (?h mod DMA_ACCEL_QUEUE_DEPTH))"
    let ?w = "Wr32 (reg_addr REG_CQ_HEAD k) (?h + 1)"
    let ?k = "k\<lparr>cq_head_local := ?h + 1, io_log := io_log k @ [?r, ?w]\<rparr>"
    have "accel_drain_multi out max_out k = accel_drain_multi (out @ [?c]) max_out ?k"
      using lt False Suc.prems by (subst accel_drain_multi.simps) (simp add: reg_read_rest cq_take_rest)
    moreover have d: "d = max_out - length (out @ [?c])" using Suc.hyps(2) by simp
    moreover have "cq_rest t ring ?k" using Suc.prems by simp
    note Suc.hyps(1) [OF d this]
    ultimately obtain l where l: "accel_drain_multi out max_out k =
        (out @ ?c # cq_slots ring (?h + 1) (min d (unat (t - (?h + 1)))),
         k\<lparr>cq_head_local := ?h + 1 + of_nat (min d (unat (t - (?h + 1)))), io_log := io_log k @ ?r # ?w # l\<rparr>)"
      by (auto simp del: of_nat_min)
    have "min (max_out - length out) (unat (t - ?h)) = Suc (min d (unat (t - (?h + 1))))"
      using Suc.hyps(2) cq_waiting_step [OF False] by simp
    then show ?thesis using l by (intro exI [of _ "?r # ?w # l"]) (simp add: cq_slots_Suc add.assoc)
  qed
qed

text \<open>The unbounded drain, for as many completions as its signed counter can count.\<close>

definition drained_to :: "u32 \<Rightarrow> dma_accel_completion \<Rightarrow> io list \<Rightarrow> 'z accel_state_scheme \<Rightarrow> 'z accel_state_scheme" where
  "drained_to h x l k = k\<lparr>cq_head_local := h, last_completion := x, io_log := io_log k @ l\<rparr>"

lemma drained_to_simps [simp]:
  "drained_to h' x' l' (drained_to h x l k) = drained_to h' x' (l @ l') k"
  "cq_head_local (drained_to h x l k) = h" "last_completion (drained_to h x l k) = x"
  "cq_rest t ring (drained_to h x l k) = cq_rest t ring k"
  by (simp_all add: drained_to_def)

lemma drain_loop_step:
  assumes "cq_rest t ring k" and "t \<noteq> cq_head_local k" and "drained \<noteq> INT_MAX"
  shows "\<exists>l. accel_drain_loop drained k = accel_drain_loop (drained + 1)
     (drained_to (cq_head_local k + 1) (ring (unat (cq_head_local k mod DMA_ACCEL_QUEUE_DEPTH))) l k)"
  using assms by (subst accel_drain_loop.simps)
    (auto simp: reg_read_rest cq_take_rest drained_to_def intro!: exI
      [of _ "[Rd32 (reg_addr REG_CQ_TAIL k), Wr32 (reg_addr REG_CQ_HEAD k) (cq_head_local k + 1)]"]
      arg_cong [of _ _ "accel_drain_loop _"] accel_state.equality)

lemma drain_loop_exact:
  assumes "cq_rest t ring k" and "0 \<le> drained" and "drained + int (cq_waiting t k) \<le> INT_MAX"
  shows "\<exists>l. accel_drain_loop drained k = Some (drained + int (cq_waiting t k), drained_to t
     (last (last_completion k # cq_slots ring (cq_head_local k) (cq_waiting t k))) l k)"
  using assms
proof (induction "cq_waiting t k" arbitrary: drained k)
  case 0
  then have "t = cq_head_local k" by (simp add: unsigned_eq_0_iff)
  then show ?case using 0 by (subst accel_drain_loop.simps)
      (auto simp: reg_read_rest drained_to_def cq_slots_def intro!: exI [of _ "[Rd32 (reg_addr REG_CQ_TAIL k)]"])
next
  case (Suc n)
  let ?h = "cq_head_local k"
  let ?c = "ring (unat (?h mod DMA_ACCEL_QUEUE_DEPTH))"
  have ne: "t \<noteq> ?h" using Suc.hyps(2) by auto
  have n: "n = unat (t - (?h + 1))" using Suc.hyps(2) cq_waiting_step [OF ne] by simp
  have lt: "drained \<noteq> INT_MAX" "drained + 1 + int n \<le> INT_MAX" using Suc.prems(3) unfolding Suc.hyps(2) [symmetric] by auto
  obtain l where l: "accel_drain_loop drained k = accel_drain_loop (drained + 1) (drained_to (?h + 1) ?c l k)"
    using drain_loop_step [OF Suc.prems(1) ne lt(1)] by blast
  obtain l' where "accel_drain_loop (drained + 1) (drained_to (?h + 1) ?c l k) = Some (drained + 1 + int n,
      drained_to t (last (?c # cq_slots ring (?h + 1) n)) (l @ l') k)"
    using Suc.hyps(1) [of "drained_to (?h + 1) ?c l k" "drained + 1"] n lt(2) Suc.prems(1,2) by auto
  then show ?case unfolding l Suc.hyps(2) [symmetric] by (auto simp: cq_slots_Suc)
qed

section \<open>Submission\<close>

text \<open>A sequence of submissions, and the command numbers they return.\<close>

definition accel_submits :: "nat \<Rightarrow> (u64 \<times> u64 \<times> u32) list \<Rightarrow> 'z accel_state_scheme \<Rightarrow>
    u64 list \<times> 'z accel_state_scheme" where
  "accel_submits c xs k = foldl (\<lambda>(ids, k) (src, dst, len).
     let (i, k) = accel_submit_copy c src dst len k in (ids @ [i], k)) ([], k) xs"

lemma accel_submits_snoc:
  "accel_submits c (xs @ [(src, dst, len)]) k =
     (case accel_submits c xs k of (ids, k) \<Rightarrow>
        (case accel_submit_copy c src dst len k of (i, k) \<Rightarrow> (ids @ [i], k)))"
  by (simp add: accel_submits_def split_beta)

text \<open>The command number and the ring slot of the \<open>i\<close>-th submission.\<close>

definition nth_id :: "'z accel_state_scheme \<Rightarrow> nat \<Rightarrow> u64" where
  "nth_id k i = of_nat (unat (sq_tail_local k) + i + 1)"

definition nth_slot :: "'z accel_state_scheme \<Rightarrow> nat \<Rightarrow> nat" where
  "nth_slot k i = (unat (sq_tail_local k) + i) mod 16"

lemma nth_slot_inj:
  assumes "i < n" "n \<le> 15 + i"
  shows "nth_slot k n \<noteq> nth_slot k i"
proof
  assume "nth_slot k n = nth_slot k i"
  then have "16 dvd (unat (sq_tail_local k) + n) - (unat (sq_tail_local k) + i)"
    using assms(1) by (simp add: nth_slot_def mod_eq_dvd_iff_nat)
  then have "16 dvd n - i" by simp
  then have "16 \<le> n - i" using assms(1) by (simp add: dvd_imp_le)
  then show False using assms by simp
qed

definition submitted :: "dma_accel_cmd list \<Rightarrow> u32 \<Rightarrow> io list \<Rightarrow> 'z accel_state_scheme \<Rightarrow> 'z accel_state_scheme" where
  "submitted ring t l k = k\<lparr>sq_ring := ring, sq_tail_local := t, io_log := io_log k @ l\<rparr>"

lemma submitted_simps [simp]:
  "submitted r' t' l' (submitted r t l k) = submitted r' t' (l @ l') k"
  "sq_ring (submitted r t l k) = r" "sq_tail_local (submitted r t l k) = t"
  "reg_addr off (submitted r t l k) = reg_addr off k"
  by (simp_all add: submitted_def)

lemma submitted_id: "submitted (sq_ring k) (sq_tail_local k) [] k = k"
  by (simp add: submitted_def)

lemma submit_effect:
  "accel_submit_copy c src dst len k = (ucast (sq_tail_local k + 1),
     submitted ((sq_ring k)[unat (sq_tail_local k mod DMA_ACCEL_QUEUE_DEPTH) := copy_cmd src dst len (ucast (sq_tail_local k + 1))])
       (sq_tail_local k + 1) [Wr32 (reg_addr REG_SQ_TAIL k) (sq_tail_local k + 1)] k)"
  by (simp add: accel_submit_copy_def irq_disable_save_def irq_restore_def reg_write_def io_write_def submitted_def Let_def)

lemma submits_effect:
  assumes "length (sq_ring k) = 16" and "length xs \<le> 16" and "unat (sq_tail_local k) + length xs < 2 ^ 32"
  shows "\<exists>ring. accel_submits c xs k = (map (nth_id k) [0..<length xs],
       submitted ring (sq_tail_local k + of_nat (length xs))
         (map (\<lambda>i. Wr32 (reg_addr REG_SQ_TAIL k) (sq_tail_local k + of_nat i + 1)) [0..<length xs]) k) \<and>
     length ring = 16 \<and>
     (\<forall>i < length xs. ring ! nth_slot k i = (case xs ! i of (src, dst, len) \<Rightarrow> copy_cmd src dst len (nth_id k i)))"
  using assms(2,3)
proof (induction xs rule: rev_induct)
  case Nil
  show ?case by (rule exI [of _ "sq_ring k"]) (use assms(1) in \<open>simp add: accel_submits_def submitted_id\<close>)
next
  case (snoc x xs)
  obtain src dst len where x: "x = (src, dst, len)" by (cases x)
  let ?n = "length xs"
  let ?l = "map (\<lambda>i. Wr32 (reg_addr REG_SQ_TAIL k) (sq_tail_local k + of_nat i + 1)) [0..<?n]"
  have prem: "?n \<le> 16" "unat (sq_tail_local k) + ?n < 2 ^ 32" using snoc.prems by simp_all
  obtain ring where ih: "accel_submits c xs k =
       (map (nth_id k) [0..<?n], submitted ring (sq_tail_local k + of_nat ?n) ?l k)" "length ring = 16"
     "\<forall>i < ?n. ring ! nth_slot k i = (case xs ! i of (src, dst, len) \<Rightarrow> copy_cmd src dst len (nth_id k i))"
    using snoc.IH [OF prem] by blast
  have un: "unat (sq_tail_local k + of_nat ?n) = unat (sq_tail_local k) + ?n"
    using prem by (simp add: unat_word_ariths unat_of_nat)
  then have slot: "unat ((sq_tail_local k + of_nat ?n) mod DMA_ACCEL_QUEUE_DEPTH) = nth_slot k ?n"
    by (simp add: unat_mod DMA_ACCEL_QUEUE_DEPTH_def nth_slot_def)
  have cid: "ucast (sq_tail_local k + of_nat ?n + 1) = nth_id k ?n"
  proof -
    have "unat (sq_tail_local k + of_nat ?n + 1) = unat (sq_tail_local k) + ?n + 1"
      using un snoc.prems by (simp add: unat_word_ariths)
    then show ?thesis using prem(2) snoc.prems
      by (simp add: word_unat_eq_iff nth_id_def unat_of_nat del: of_nat_Suc of_nat_add)
  qed
  let ?ring = "ring[nth_slot k ?n := copy_cmd src dst len (nth_id k ?n)]"
  have other: "?ring ! nth_slot k i = ring ! nth_slot k i" if "i < ?n" for i
    using nth_slot_inj [of i ?n k] that snoc.prems by simp
  have lt: "nth_slot k ?n < 16" by (simp add: nth_slot_def)
  have "accel_submits c (xs @ [x]) k = (map (nth_id k) [0..<?n] @ [nth_id k ?n],
     submitted ?ring (sq_tail_local k + of_nat ?n + 1)
       (?l @ [Wr32 (reg_addr REG_SQ_TAIL k) (sq_tail_local k + of_nat ?n + 1)]) k)"
    unfolding x accel_submits_snoc ih(1) prod.case submit_effect submitted_simps slot cid ..
  moreover have "?ring ! nth_slot k i = (case (xs @ [x]) ! i of (src, dst, len) \<Rightarrow> copy_cmd src dst len (nth_id k i))"
    if "i < Suc ?n" for i
    using other ih(2,3) lt that by (cases "i = ?n") (simp_all add: x nth_append)
  ultimately show ?case using ih(2) by (intro exI [of _ ?ring]) (simp add: add_ac)
qed

lemma submits_ids:
  assumes "unat (sq_tail_local k) + n < 2 ^ 32"
  shows "distinct (map (nth_id k) [0..<n])" "0 \<notin> set (map (nth_id k) [0..<n])"
proof -
  have u: "unat (nth_id k i) = unat (sq_tail_local k) + i + 1" if "i < n" for i
    using assms that by (simp add: nth_id_def unat_of_nat del: of_nat_Suc of_nat_add)
  have "inj_on (nth_id k) {0..<n}" by (rule inj_onI) (metis u add_right_cancel add_left_cancel atLeastLessThan_iff)
  then show "distinct (map (nth_id k) [0..<n])" by (simp add: distinct_map)
  show "0 \<notin> set (map (nth_id k) [0..<n])" using u by force
qed

text \<open>Outside these bounds the driver does neither: the number after the 32-bit wrap is 0, and nothing
  stops a seventeenth submission from overwriting the descriptor of the first.\<close>

lemma cmd_id_wraps: "sq_tail_local k = 0xFFFFFFFF \<Longrightarrow> fst (accel_submit_copy c src dst len k) = 0"
  by (simp add: submit_effect)

lemma submit_overwrites:
  assumes "length (sq_ring k) = 16"
  shows "sq_ring (snd (accel_submit_copy c src dst len (k\<lparr>sq_tail_local := 16\<rparr>))) ! 0 = copy_cmd src dst len 17"
  using assms by (simp add: submit_effect DMA_ACCEL_QUEUE_DEPTH_def)

section \<open>Properties\<close>

text \<open>C32: submissions do not stomp on each other. Up to the depth of the ring, and short of the 32-bit wrap of
  the counter, a sequence of submissions returns command numbers that are all different and never 0;
  afterwards every one of their descriptors is intact in its own slot, the doorbell was rung once
  for each, in order, after its descriptor was complete, and the interrupt mask is as it was.\<close>

theorem accel_submit_no_stomp:
  assumes "length (sq_ring k) = 16" and "length xs \<le> 16" and "unat (sq_tail_local k) + length xs < 2 ^ 32"
  shows "\<exists>ids ring k'. accel_submits c xs k = (ids, k') \<and> length ids = length xs \<and> distinct ids \<and> 0 \<notin> set ids \<and>
     (\<forall>i < length xs. sq_ring k' ! nth_slot k i = (case xs ! i of (src, dst, len) \<Rightarrow> copy_cmd src dst len (ids ! i))) \<and>
     k' = submitted ring (sq_tail_local k + of_nat (length xs))
       (map (\<lambda>i. Wr32 (reg_addr REG_SQ_TAIL k) (sq_tail_local k + of_nat i + 1)) [0..<length xs]) k"
proof -
  let ?ids = "map (nth_id k) [0..<length xs]"
  let ?k = "\<lambda>ring. submitted ring (sq_tail_local k + of_nat (length xs))
         (map (\<lambda>i. Wr32 (reg_addr REG_SQ_TAIL k) (sq_tail_local k + of_nat i + 1)) [0..<length xs]) k"
  obtain ring where r: "accel_submits c xs k = (?ids, ?k ring)"
    "\<forall>i < length xs. ring ! nth_slot k i = (case xs ! i of (src, dst, len) \<Rightarrow> copy_cmd src dst len (nth_id k i))"
    using submits_effect [OF assms] by blast
  from r(2) have "\<forall>i < length xs. sq_ring (?k ring) ! nth_slot k i =
      (case xs ! i of (src, dst, len) \<Rightarrow> copy_cmd src dst len (?ids ! i))" by simp
  moreover have "length ?ids = length xs" by simp
  ultimately show ?thesis using r(1) submits_ids [OF assms(3)] by blast
qed

text \<open>C33: draining is exact. With the device at rest at tail \<open>t\<close>, both drains return and hand out the completions at
  the ring positions from the head on, in order, each once: the bounded one the first \<open>max_out\<close> of them,
  leaving the rest for the next call, the other one all of them, remembering the last.\<close>

theorem accel_drain_exact:
  assumes "cq_rest t ring k" and "int (cq_waiting t k) \<le> INT_MAX"
  shows "(\<exists>l. accel_drain_completions_multi max_out k =
       (cq_slots ring (cq_head_local k) (min max_out (cq_waiting t k)),
        k\<lparr>cq_head_local := cq_head_local k + of_nat (min max_out (cq_waiting t k)), io_log := io_log k @ l\<rparr>)) \<and>
    (\<exists>l. accel_drain_completions k = Some (int (cq_waiting t k), drained_to t
       (last (last_completion k # cq_slots ring (cq_head_local k) (cq_waiting t k))) l k))"
  using drain_multi_exact [OF assms(1), of "[]" max_out] drain_loop_exact [OF assms(1), of 0] assms(2)
  by (simp add: accel_drain_completions_multi_def accel_drain_completions_def)

text \<open>C34: polling ends. Whatever the device does, \<open>accel_poll_completion\<close> with a budget other than the largest
  64-bit number returns after at most \<open>max_spins + 1\<close> reads: with the completion at the head as soon as
  the tail has moved, and with 0 exactly when every one of those reads saw no completion, in which
  case nothing was consumed.\<close>

theorem accel_poll_terminates:
  assumes "max_spins \<noteq> - 1"
  shows "\<exists>m \<le> unat max_spins. (\<forall>i < m. tail_after k i = cq_head_local k) \<and>
     accel_poll_completion max_spins k =
       (if tail_after k m = cq_head_local k then Some (None, polled (Suc m) k)
        else (case cq_take (polled (Suc m) k) of (cm, k') \<Rightarrow> Some (Some cm, k'))) \<and>
     (tail_after k m = cq_head_local k \<longrightarrow> m = unat max_spins)"
  using poll_loop_ends [OF assms, of 0 k] by (auto simp: accel_poll_completion_def)

section \<open>A sample state\<close>

text \<open>The accelerator behind BAR0, at rest after three completions.\<close>

definition accel_sample :: accel_state where
  "accel_sample = sync_state.extend (sync_sample\<lparr>dev := \<lambda>_ a. if a = 0x10000064 then 3 else 0\<rparr>)
     (accel_state.fields 0x10000000 (replicate 16 (copy_cmd 0 0 0 0))
       (\<lambda>_ i. \<lparr>cq_cmd_id = of_nat i + 1, cq_status = 0, cq_reserved = 0\<rparr>) 3 0
       \<lparr>cq_cmd_id = 0, cq_status = 0, cq_reserved = 0\<rparr>)"

lemmas accel_sample_defs = accel_sample_def sync_state.extend_def accel_state.fields_def

lemma accel_sample_simps [simp]:
  "length (sq_ring accel_sample) = 16" "sq_tail_local accel_sample = 3" "cq_head_local accel_sample = 0"
  "reg_addr REG_CQ_TAIL accel_sample = 0x10000064"
  by (simp_all add: accel_sample_defs reg_addr_def REG_CQ_TAIL_def)

lemma accel_sample_rest: "cq_rest 3 (\<lambda>i. \<lparr>cq_cmd_id = of_nat i + 1, cq_status = 0, cq_reserved = 0\<rparr>) accel_sample"
  by (simp add: cq_rest_def) (simp add: accel_sample_defs)

section \<open>Witnesses\<close>

theorem accel_submit_no_stomp_witness:
  "\<exists>ids k'. accel_submits 0 [(0x1000, 0x2000, 128), (0x3000, 0x4000, 128)] accel_sample = (ids, k') \<and>
     distinct ids \<and> sq_ring k' ! nth_slot accel_sample 1 = copy_cmd 0x3000 0x4000 128 (ids ! 1)"
  using accel_submit_no_stomp [of accel_sample "[(0x1000, 0x2000, 128), (0x3000, 0x4000, 128)]" 0] by auto

theorem accel_drain_exact_witness:
  "\<exists>l. accel_drain_completions_multi 2 accel_sample =
     (cq_slots (\<lambda>i. \<lparr>cq_cmd_id = of_nat i + 1, cq_status = 0, cq_reserved = 0\<rparr>) 0 2,
      accel_sample\<lparr>cq_head_local := 2, io_log := l\<rparr>)"
  using accel_drain_exact [OF accel_sample_rest, of 2] by (auto simp: INT_MAX_def)

theorem accel_poll_terminates_witness:
  "\<exists>r. accel_poll_completion 1000 accel_sample = Some r"
  using accel_poll_terminates [of 1000 accel_sample] by (auto split: if_splits prod.splits)

end
