(* ===== verification/Semaphore.thy ===== *)
theory Semaphore
  imports Sync
begin

text \<open>
  Semaphores of \<open>kernel/sync.c\<close>: the effect of each call, the conservation of tokens over every
  history of calls, and the absence of lost wake-ups in the window between blocking and switching.
\<close>

section \<open>The calls\<close>

text \<open>The part of a wait under the lock takes a token, or leaves the caller registered and BLOCKED; the rest of it,
  \<open>block_current_and_switch\<close>, changes the scheduler's state only.\<close>

lemma sem_wait_enter_ok:
  assumes ok: "sync_ok k" and e: "sem_wait_enter c s k = Some (flags, got, k')"
  shows "sync_ok k'" and "got \<longleftrightarrow> sem_count (sems k s) > 0"
    and "kernel.more k' = kernel.more (upd_sem s (\<lambda>x. if got then x\<lparr>sem_count := sem_count x - 1\<rparr> else x\<lparr>sem_waiter := current c k\<rparr>) k)"
    and "tcb_state (tcbs k' t) = (if \<not> got \<and> t = current c k then 1 else tcb_state (tcbs k t))"
    and "tcb_cpu (tcbs k' t) = tcb_cpu (tcbs k t)" and "current d k' = current d k"
proof -
  have l: "locks k (Sem_lock s) = 0" and sk: "sched_ok k" using ok by (simp_all add: sync_ok_def)
  let ?k = "if got then upd_sem s (\<lambda>x. x\<lparr>sem_count := sem_count x - 1\<rparr>) k
    else upd_regs c (\<lambda>r. r\<lparr>daif := daif r OR DAIF_I\<rparr>) (set_state (current c k) 1 (upd_sem s (\<lambda>x. x\<lparr>sem_waiter := current c k\<rparr>) k))"
  have eq: "got \<longleftrightarrow> sem_count (sems k s) > 0" "k' = ?k" using sem_wait_enter_result [OF l, of c] e by auto
  have "sched_ok ?k" by (rule sched_ok_cong [OF sk]) simp_all
  then show "sync_ok k'" using ok by (simp add: eq(2) sync_ok_def)
  show "got \<longleftrightarrow> sem_count (sems k s) > 0" by (fact eq(1))
  show "kernel.more k' = kernel.more (upd_sem s (\<lambda>x. if got then x\<lparr>sem_count := sem_count x - 1\<rparr> else x\<lparr>sem_waiter := current c k\<rparr>) k)"
    by (cases k) (simp add: eq(2))
  show "tcb_state (tcbs k' t) = (if \<not> got \<and> t = current c k then 1 else tcb_state (tcbs k t))"
    "tcb_cpu (tcbs k' t) = tcb_cpu (tcbs k t)" "current d k' = current d k"
    by (simp_all add: eq(2) current_def this_cpu_def)
qed

lemma block_ok:
  assumes "sync_ok k" and "c < MAX_CPUS"
  obtains r where "block_current_and_switch c flags k = Some r" "sync_ok (state_of r)" "kernel.more (state_of r) = kernel.more k"
    "\<And>t. tcb_state (tcbs (state_of r) t) = tcb_state (tcbs k t)" "\<And>t. tcb_cpu (tcbs (state_of r) t) = tcb_cpu (tcbs k t)"
    "\<And>k'. r = Returned k' \<Longrightarrow> ready k (current c k)"
proof -
  have "sched_ok k" using assms(1) by (simp add: sync_ok_def)
  from block_effect [OF this assms(2), of flags] obtain r where "blocked c flags k r" ..
  then show ?thesis using assms(1) that [of r] unfolding blocked_def sync_ok_def by auto
qed

text \<open>A whole wait that finds no token, with nothing in between.\<close>

lemma sem_wait_blocks:
  assumes ok: "sync_ok k" and c: "c < MAX_CPUS" and "\<not> sem_count (sems k s) > 0"
  obtains r where "sem_wait c s k = Some r" "sync_ok (state_of r)" "\<nexists>k'. r = Returned k'"
    "kernel.more (state_of r) = kernel.more (upd_sem s (\<lambda>x. x\<lparr>sem_waiter := current c k\<rparr>) k)" "locks (state_of r) = locks k"
    "\<And>t. tcb_state (tcbs (state_of r) t) = (if t = current c k then 1 else tcb_state (tcbs k t))"
    "\<And>t. tcb_cpu (tcbs (state_of r) t) = tcb_cpu (tcbs k t)"
proof -
  let ?k0 = "upd_sem s (\<lambda>x. x\<lparr>sem_waiter := current c k\<rparr>) (upd_regs c (\<lambda>r. r\<lparr>daif := daif r OR DAIF_I\<rparr>) k)"
  have k0: "sched_ok k" using ok by (simp add: sync_ok_def)
  have "sched_ok ?k0" by (rule sched_ok_cong [OF k0]) simp_all
  from self_block [OF this c, of "daif (regs k c)"] obtain r where "self_blocked c (daif (regs k c)) ?k0 r" ..
  note r = self_blockedD [OF this]
  have eq: "set_state (current c ?k0) 1 ?k0 = upd_regs c (\<lambda>r. r\<lparr>daif := daif r OR DAIF_I\<rparr>)
       (set_state (current c k) 1 (upd_sem s (\<lambda>x. x\<lparr>sem_waiter := current c k\<rparr>) k))"
    by (rule sync_state.equality) simp_all
  have "sem_wait c s k = Some r"
    using sem_wait_enter_result [of k s c] ok assms(3) r(1) [unfolded eq] by (simp add: sem_wait_def sync_ok_def)
  moreover have "sync_ok (state_of r)" using r(3,5) ok by (simp add: sync_ok_def)
  moreover have "kernel.more ?k0 = kernel.more (upd_sem s (\<lambda>x. x\<lparr>sem_waiter := current c k\<rparr>) k)" by (cases k) simp
  ultimately show ?thesis using that [of r] r by simp
qed

lemma sem_post_result:
  assumes ok: "sync_ok k" and r: "sem_post c s k = Some k'"
  shows "sync_ok k'"
    and "sems k' s = (if sem_waiter (sems k s) \<noteq> NULL then (sems k s)\<lparr>sem_waiter := NULL\<rparr>
                      else (sems k s)\<lparr>sem_count := sem_count (sems k s) + 1\<rparr>)"
proof -
  have l0: "locks k (Sem_lock s) = 0" using ok by (simp add: sync_ok_def)
  have k0: "sched_ok k" using ok by (simp add: sync_ok_def)
  let ?w = "sem_waiter (sems k s)"
  have "sync_ok k' \<and> sems k' s = (if ?w \<noteq> NULL then (sems k s)\<lparr>sem_waiter := NULL\<rparr>
                      else (sems k s)\<lparr>sem_count := sem_count (sems k s) + 1\<rparr>)"
  proof (cases "?w = NULL")
    case True
    have "sem_count (sems k s) \<noteq> INT_MAX"
      using r True l0 by (auto simp: sem_post_def spin_lock_irqsave_free Let_def)
    then have "k' = upd_sem s (\<lambda>x. x\<lparr>sem_count := sem_count x + 1\<rparr>) k"
      using r True l0 by (simp add: sem_post_def lock_defs Let_def fun_upd_idem)
    moreover have "sched_ok (upd_sem s (\<lambda>x. x\<lparr>sem_count := sem_count x + 1\<rparr>) k)"
      by (rule sched_ok_cong [OF k0]) simp_all
    ultimately show ?thesis using ok True by (simp add: sync_ok_def)
  next
    case False
    have lt: "tcb_cpu (tcbs k ?w) < MAX_CPUS"
      using r False l0 by (auto simp: sem_post_def spin_lock_irqsave_free Let_def sched_wake_def rq_at_def split: if_splits)
    then have "locks k (Rq_lock (tcb_cpu (tcbs k ?w))) = 0" using k0 by (simp add: sched_ok_def all_free_def)
    from sem_post_wake [OF l0 refl False lt this, of c] r
    have k': "k' = (set_state ?w 0 (upd_sem s (\<lambda>x. x\<lparr>sem_waiter := NULL\<rparr>) k))\<lparr>io_log := io_log k @ [Sev]\<rparr>" by simp
    have "sched_ok k'" by (rule sched_ok_cong [OF k0]) (simp_all add: k')
    then show ?thesis using ok False by (simp add: sync_ok_def k')
  qed
  then show "sync_ok k'" and "sems k' s = (if ?w \<noteq> NULL then (sems k s)\<lparr>sem_waiter := NULL\<rparr>
                      else (sems k s)\<lparr>sem_count := sem_count (sems k s) + 1\<rparr>)" by auto
qed

text \<open>All calls on one semaphore, by any tasks on any CPUs, with anything else the system does in
  between that is not a call on it. A wait is its two parts, what it does under the lock and the switch away, so that
  other CPUs may call in between. \<open>posts\<close> counts the posts, \<open>passed\<close> the waits that got through: at once, or by
  being handed the token of a post.\<close>

inductive sem_trace :: "u64 \<Rightarrow> 'z sync_state_scheme \<Rightarrow> 'z sync_state_scheme \<Rightarrow> nat \<Rightarrow> nat \<Rightarrow> bool" for s k0 where
  start: "sem_trace s k0 k0 0 0"
| wait_enter: "sem_trace s k0 k posts passed \<Longrightarrow> c < MAX_CPUS \<Longrightarrow> sem_wait_enter c s k = Some (flags, got, k') \<Longrightarrow>
    sem_trace s k0 k' posts (passed + (if got then 1 else 0))"
| wait_block: "sem_trace s k0 k posts passed \<Longrightarrow> c < MAX_CPUS \<Longrightarrow> block_current_and_switch c flags k = Some r \<Longrightarrow>
    sem_trace s k0 (state_of r) posts passed"
| post: "sem_trace s k0 k posts passed \<Longrightarrow> c < MAX_CPUS \<Longrightarrow> sem_post c s k = Some k' \<Longrightarrow>
    sem_trace s k0 k' (posts + 1) (passed + (if sem_waiter (sems k s) \<noteq> NULL then 1 else 0))"
| other: "sem_trace s k0 k posts passed \<Longrightarrow> sync_ok k' \<Longrightarrow> sems k' s = sems k s \<Longrightarrow> sem_trace s k0 k' posts passed"

definition sem_inv :: "sem \<Rightarrow> bool" where
  "sem_inv x \<longleftrightarrow> 0 \<le> sem_count x \<and> (sem_waiter x \<noteq> NULL \<longrightarrow> sem_count x = 0)"

lemma sem_trace_inv:
  assumes "sem_trace s k0 k p n" and "sync_ok k0" and "sem_inv (sems k0 s)"
  shows "sync_ok k \<and> sem_inv (sems k s) \<and> sem_count (sems k s) + int n = sem_count (sems k0 s) + int p"
  using assms
proof (induction rule: sem_trace.induct)
  case (wait_enter k posts passed c flags got k')
  then have ih: "sync_ok k" "sem_inv (sems k s)" "sem_count (sems k s) + int passed = sem_count (sems k0 s) + int posts" by auto
  note e = sem_wait_enter_ok [OF ih(1) wait_enter(3)]
  show ?case using e(1,2) more_sync(1) [OF e(3)] ih by (auto simp: sem_inv_def)
next
  case (wait_block k posts passed c flags r)
  then have "sync_ok k" by auto
  from block_ok [OF this wait_block(2), of flags] wait_block(3)
  have b: "sync_ok (state_of r)" "kernel.more (state_of r) = kernel.more k" by (metis option.inject)+
  then show ?case using wait_block more_sync(1) [OF b(2)] by simp
next
  case (post k posts passed c k')
  then have ih: "sync_ok k" "sem_inv (sems k s)" "sem_count (sems k s) + int passed = sem_count (sems k0 s) + int posts" by auto
  show ?case using sem_post_result [OF ih(1) post(3)] ih(2,3) by (auto simp: sem_inv_def)
qed auto

section \<open>Properties\<close>


text \<open>C7: no lost wake-up. A task that found the count 0 has marked itself waiting and BLOCKED and given
  the semaphore lock back, but has not yet switched away, when another CPU posts. The post returns and makes the
  task READY again, taking no token; the rest of the wait then returns or switches away with the task READY, and never
  leaves it waiting in its \<open>wfe\<close> loop.\<close>

theorem sem_no_lost_wakeup:
  assumes "sync_ok k" and "c < MAX_CPUS" and "d < MAX_CPUS" and "\<not> sem_count (sems k s) > 0"
    and "current c k \<noteq> NULL" and "tcb_cpu (tcbs k (current c k)) < MAX_CPUS"
  shows "\<exists>flags k1 k2 r. sem_wait_enter c s k = Some (flags, False, k1) \<and> \<not> ready k1 (current c k) \<and>
     sem_post d s k1 = Some k2 \<and> block_current_and_switch c flags k2 = Some r \<and>
     (\<nexists>k'. r = Waiting k') \<and> ready (state_of r) (current c k) \<and>
     sems (state_of r) s = (sems k s)\<lparr>sem_waiter := NULL\<rparr>"
proof -
  let ?t = "current c k"
  let ?k1 = "upd_regs c (\<lambda>r. r\<lparr>daif := daif r OR DAIF_I\<rparr>)
       (set_state ?t 1 (upd_sem s (\<lambda>x. x\<lparr>sem_waiter := ?t\<rparr>) k))"
  let ?k2 = "(set_state ?t 0 (upd_sem s (\<lambda>x. x\<lparr>sem_waiter := NULL\<rparr>) ?k1))\<lparr>io_log := io_log ?k1 @ [Sev]\<rparr>"
  have k0: "sched_ok k" and sl: "locks k (Sem_lock s) = 0" using assms(1) by (simp_all add: sync_ok_def)
  have rl: "locks k (Rq_lock (tcb_cpu (tcbs k ?t))) = 0" using k0 assms(6) by (simp add: sched_ok_def all_free_def)
  have e: "sem_wait_enter c s k = Some (daif (regs k c), False, ?k1)"
    using sem_wait_enter_result [OF sl, of c] assms(4) by simp
  have p: "sem_post d s ?k1 = Some ?k2"
    using sem_post_wake [of ?k1 s ?t d] sl rl assms(5,6) by simp
  have ok2: "sched_ok ?k2" by (rule sched_ok_cong [OF k0]) simp_all
  have cur: "current c ?k2 = ?t" by (simp add: current_def this_cpu_def)
  from block_effect [OF ok2 assms(2), of "daif (regs k c)"] obtain r where "blocked c (daif (regs k c)) ?k2 r" ..
  then have r: "block_current_and_switch c (daif (regs k c)) ?k2 = Some r"
    "kernel.more (state_of r) = kernel.more ?k2" "tcb_state (tcbs (state_of r) ?t) = 0"
    "(\<exists>k'. r = Waiting k') \<longrightarrow> \<not> ready ?k2 (current c ?k2)"
    unfolding blocked_def by simp_all
  have "\<nexists>k'. r = Waiting k'" using r(4) cur by simp
  moreover have "sems (state_of r) s = (sems k s)\<lparr>sem_waiter := NULL\<rparr>" using more_sync(1) [OF r(2)] by simp
  ultimately show ?thesis using e p r(1,3)
    by (intro exI [of _ "daif (regs k c)"] exI [of _ ?k1] exI [of _ ?k2] exI [of _ r]) simp
qed

section \<open>Witnesses\<close>


theorem sem_no_lost_wakeup_witness:
  "\<exists>flags k1 k2 r. sem_wait_enter 1 0x99 sync_sample = Some (flags, False, k1) \<and> sem_post 0 0x99 k1 = Some k2 \<and>
     block_current_and_switch 1 flags k2 = Some r \<and> ready (state_of r) 0x1000"
proof -
  have "1 < MAX_CPUS" "0 < MAX_CPUS" by (simp_all add: header_consts)
  from sem_no_lost_wakeup [OF sync_sample_ok this, of "0x99"] show ?thesis
    by (auto simp: header_consts sample_tcb_def)
qed

end
