(* ===== verification/Dispatch.thy ===== *)
theory Dispatch
  imports Accel Semaphore
begin

text \<open>
  The table of outstanding DMA requests and the dispatch of completions to the tasks that wait for them
  (\<open>kernel/main.c\<close>, \<open>pending_register\<close> and \<open>dispatch_available_completions\<close>), over the state of the
  kernel extended by the variables of \<open>main.c\<close>.
\<close>

section \<open>State and operations\<close>

definition NUM_WORKERS :: nat where "NUM_WORKERS = 3"

record pending_req =
  pr_cmd_id :: u64
  pr_sem :: u64
  pr_result :: dma_accel_completion
  pr_used :: int
  pr_done :: int

record switch_rec =
  sw_site :: string        \<comment> \<open>empty for the null pointer\<close>
  sw_prev :: int
  sw_next :: int

record main_state = accel_state +
  pending :: "pending_req list"
  worker_loops_seen :: "int list"
  src_buf :: "nat \<Rightarrow> u8 list"
  dst_buf :: "nat \<Rightarrow> u8 list"
  dma_dst :: "io list \<Rightarrow> nat \<Rightarrow> u8 list option"   \<comment> \<open>what the device has written over \<open>dst_buf\<close>\<close>
  dma_irq_count :: "u64 list"
  tick_freq :: u64
  switch_hist :: "switch_rec list"
  switch_hist_idx :: nat
  lb_tick_count :: u32

text \<open>The first of the slots that satisfies a condition: \<open>for (i \<dots>) if (\<dots>) { \<dots>; break; }\<close>.\<close>

definition first_slot :: "(pending_req \<Rightarrow> bool) \<Rightarrow> 'z main_state_scheme \<Rightarrow> nat option" where
  "first_slot P k = find (\<lambda>i. P (pending k ! i)) [0..<NUM_WORKERS]"

abbreviation upd_pending :: "nat \<Rightarrow> (pending_req \<Rightarrow> pending_req) \<Rightarrow> 'z main_state_scheme \<Rightarrow> 'z main_state_scheme" where
  "upd_pending i f k \<equiv> k\<lparr>pending := (pending k)[i := f (pending k ! i)]\<rparr>"

definition pending_register :: "u64 \<Rightarrow> u64 \<Rightarrow> 'z main_state_scheme \<Rightarrow> 'z main_state_scheme" where
  "pending_register cmd_id s k =
    (case first_slot (\<lambda>p. pr_used p = 0) k of
       Some i \<Rightarrow> upd_pending i (\<lambda>p. p\<lparr>pr_cmd_id := cmd_id, pr_sem := s, pr_used := 1, pr_done := 0\<rparr>) k
     | None \<Rightarrow> k)"

definition waits_for :: "u64 \<Rightarrow> pending_req \<Rightarrow> bool" where
  "waits_for cmd_id p \<longleftrightarrow> pr_used p \<noteq> 0 \<and> pr_done p = 0 \<and> pr_cmd_id p = cmd_id"

text \<open>The inner loop, for one completion.\<close>

definition dispatch_one :: "nat \<Rightarrow> dma_accel_completion \<Rightarrow> 'z main_state_scheme \<Rightarrow> 'z main_state_scheme option" where
  "dispatch_one c cm k =
    (case first_slot (waits_for (cq_cmd_id cm)) k of
       Some i \<Rightarrow>
         (let k = upd_pending i (\<lambda>p. p\<lparr>pr_result := cm\<rparr>) k;
              k = upd_pending i (\<lambda>p. p\<lparr>pr_done := 1\<rparr>) k
          in sem_post c (pr_sem (pending k ! i)) k)
     | None \<Rightarrow> Some k)"

fun dispatch_all :: "nat \<Rightarrow> dma_accel_completion list \<Rightarrow> 'z main_state_scheme \<Rightarrow> 'z main_state_scheme option" where
  "dispatch_all c [] k = Some k"
| "dispatch_all c (cm # cms) k = do { k \<leftarrow> dispatch_one c cm k; dispatch_all c cms k }"

definition dispatch_available_completions :: "nat \<Rightarrow> 'z main_state_scheme \<Rightarrow> 'z main_state_scheme option" where
  "dispatch_available_completions c k = do {
     (flags, k) \<leftarrow> spin_lock_irqsave c Accel_lock k;
     let (cms, k) = accel_drain_completions_multi NUM_WORKERS k;
     k \<leftarrow> dispatch_all c cms k;
     Some (spin_unlock_irqrestore c Accel_lock flags k) }"

text \<open>The critical section of \<open>worker_entry\<close>: the doorbell and the registration, as one.\<close>

definition worker_submit :: "nat \<Rightarrow> u64 \<Rightarrow> u64 \<Rightarrow> u32 \<Rightarrow> u64 \<Rightarrow> 'z main_state_scheme \<Rightarrow>
    (u64 \<times> 'z main_state_scheme) option" where
  "worker_submit c src dst len s k = do {
     (flags, k) \<leftarrow> spin_lock_irqsave c Accel_lock k;
     let (cmd_id, k) = accel_submit_copy c src dst len k;
     let k = pending_register cmd_id s k;
     Some (cmd_id, spin_unlock_irqrestore c Accel_lock flags k) }"

section \<open>What dispatching does\<close>

text \<open>Reference: what a list of completions does to one entry, and to a semaphore that is posted.\<close>

definition deliver :: "dma_accel_completion list \<Rightarrow> pending_req \<Rightarrow> pending_req" where
  "deliver cms p =
    (case find (\<lambda>cm. waits_for (cq_cmd_id cm) p) cms of
       Some cm \<Rightarrow> p\<lparr>pr_result := cm, pr_done := 1\<rparr>
     | None \<Rightarrow> p)"

definition sem_posted :: "sem \<Rightarrow> sem" where
  "sem_posted x = (if sem_waiter x \<noteq> NULL then x\<lparr>sem_waiter := NULL\<rparr> else x\<lparr>sem_count := sem_count x + 1\<rparr>)"

definition served :: "dma_accel_completion list \<Rightarrow> 'z main_state_scheme \<Rightarrow> u64 \<Rightarrow> bool" where
  "served cms k s \<longleftrightarrow> (\<exists>p \<in> set (pending k). pr_sem p = s \<and> (\<exists>cm \<in> set cms. waits_for (cq_cmd_id cm) p))"

text \<open>A post on the semaphore can be carried out: no overflow, and a waiter has a run queue.\<close>

definition can_post :: "'z sync_state_scheme \<Rightarrow> u64 \<Rightarrow> bool" where
  "can_post k s \<longleftrightarrow> (if sem_waiter (sems k s) = NULL then sem_count (sems k s) < INT_MAX
     else tcb_cpu (tcbs k (sem_waiter (sems k s))) < MAX_CPUS)"

text \<open>The table between operations: used entries have their own command number and their own semaphore.\<close>

definition pending_ok :: "'z main_state_scheme \<Rightarrow> bool" where
  "pending_ok k \<longleftrightarrow> length (pending k) = NUM_WORKERS \<and>
     (\<forall>i < NUM_WORKERS. \<forall>j < NUM_WORKERS. i \<noteq> j \<and> pr_used (pending k ! i) \<noteq> 0 \<and> pr_used (pending k ! j) \<noteq> 0 \<longrightarrow>
        pr_cmd_id (pending k ! i) \<noteq> pr_cmd_id (pending k ! j) \<and> pr_sem (pending k ! i) \<noteq> pr_sem (pending k ! j)) \<and>
     (\<forall>p \<in> set (pending k). pr_used p \<noteq> 0 \<and> pr_done p = 0 \<longrightarrow> can_post k (pr_sem p))"

text \<open>All a dispatch of \<open>cms\<close> may do.\<close>

definition dispatched :: "dma_accel_completion list \<Rightarrow> 'z main_state_scheme \<Rightarrow> 'z main_state_scheme \<Rightarrow> bool" where
  "dispatched cms k k' \<longleftrightarrow>
     pending k' = map (deliver cms) (pending k) \<and>
     sems k' = (\<lambda>s. if served cms k s then sem_posted (sems k s) else sems k s) \<and>
     (\<forall>t. tcb_state (tcbs k' t) = (if t \<noteq> NULL \<and> (\<exists>s. served cms k s \<and> sem_waiter (sems k s) = t) then 0
        else tcb_state (tcbs k t))) \<and>
     (\<forall>t. tcb_cpu (tcbs k' t) = tcb_cpu (tcbs k t)) \<and> runqueues k' = runqueues k \<and>
     locks k' = locks k \<and> regs k' = regs k \<and> cpu_locals k' = cpu_locals k \<and> dev k' = dev k \<and>
     dma_irq_count k' = dma_irq_count k \<and> tick_freq k' = tick_freq k"

lemma dispatchedD:
  assumes "dispatched cms k k'"
  shows "pending k' = map (deliver cms) (pending k)"
    "sems k' s = (if served cms k s then sem_posted (sems k s) else sems k s)"
    "tcb_state (tcbs k' t) = (if t \<noteq> NULL \<and> (\<exists>s. served cms k s \<and> sem_waiter (sems k s) = t) then 0
        else tcb_state (tcbs k t))"
    "tcb_cpu (tcbs k' t) = tcb_cpu (tcbs k t)" "runqueues k' = runqueues k"
    "locks k' = locks k" "regs k' = regs k" "cpu_locals k' = cpu_locals k" "dev k' = dev k"
    "dma_irq_count k' = dma_irq_count k" "tick_freq k' = tick_freq k"
  using assms by (simp_all add: dispatched_def)

lemma deliver_Cons: "deliver (cm # cms) p = deliver cms (deliver [cm] p)"
proof (cases "waits_for (cq_cmd_id cm) p")
  case True
  have "find (\<lambda>x. waits_for (cq_cmd_id x) (p\<lparr>pr_result := cm, pr_done := 1\<rparr>)) cms = None"
    by (simp add: find_None_iff waits_for_def)
  with True show ?thesis by (simp add: deliver_def)
next
  case False
  then show ?thesis by (simp add: deliver_def)
qed

lemma deliver_Nil [simp]: "deliver [] = (\<lambda>p. p)"
  by (rule ext) (simp add: deliver_def)

lemma deliver_fields [simp]:
  "pr_cmd_id (deliver cms p) = pr_cmd_id p" "pr_sem (deliver cms p) = pr_sem p" "pr_used (deliver cms p) = pr_used p"
  by (simp_all add: deliver_def split: option.split)

lemma deliver_not: "\<not> waits_for (cq_cmd_id cm) p \<Longrightarrow> deliver [cm] p = p"
  by (simp add: deliver_def)

lemma waits_deliver: "waits_for i (deliver [cm] p) \<longleftrightarrow> waits_for i p \<and> cq_cmd_id cm \<noteq> i"
  by (auto simp: deliver_def waits_for_def)

lemma post_effect:
  fixes k :: "'z sync_state_scheme"
  assumes "sync_ok k" "can_post k s"
  defines "w \<equiv> sem_waiter (sems k s)"
  shows "\<exists>l. sem_post c s k = Some ((if w = NULL then k else set_state w 0 k)
     \<lparr>sems := (sems k)(s := sem_posted (sems k s)), io_log := io_log k @ l\<rparr>)"
proof (cases "w = NULL")
  case True
  then show ?thesis using sem_post_count [of k s c] assms
    by (intro exI [of _ "[]"]) (auto simp: sync_ok_def can_post_def sem_posted_def intro!: sync_state.equality)
next
  case False
  have "locks k (Rq_lock (tcb_cpu (tcbs k w))) = 0"
    using assms False by (simp add: sync_ok_def sched_ok_def all_free_def can_post_def)
  then show ?thesis using sem_post_wake [of k s w c] assms False
    by (intro exI [of _ "[Sev]"]) (auto simp: sync_ok_def can_post_def sem_posted_def intro!: sync_state.equality)
qed

lemma pending_ok_cong:
  assumes "pending_ok k" and "pending k' = pending k" "sems k' = sems k" "tcbs k' = tcbs k"
  shows "pending_ok k'"
  using assms by (simp add: pending_ok_def can_post_def)

lemma used_unique:
  assumes ok: "pending_ok k" and p: "p \<in> set (pending k)" "q \<in> set (pending k)" "pr_used p \<noteq> 0" "pr_used q \<noteq> 0"
    and "pr_cmd_id p = pr_cmd_id q \<or> pr_sem p = pr_sem q"
  shows "p = q"
proof -
  obtain i j where "i < NUM_WORKERS" "j < NUM_WORKERS" "p = pending k ! i" "q = pending k ! j"
    using ok p(1,2) by (auto simp: pending_ok_def in_set_conv_nth)
  then show ?thesis using ok p(3,4) assms(6) unfolding pending_ok_def by (cases "i = j") blast+
qed

lemma first_slot_Some:
  assumes "first_slot P k = Some i"
  shows "i < NUM_WORKERS" "P (pending k ! i)"
  using assms by (auto simp: first_slot_def find_Some_iff)

lemma first_slot_None: "first_slot P k = None \<Longrightarrow> length (pending k) = NUM_WORKERS \<Longrightarrow> \<forall>p \<in> set (pending k). \<not> P p"
  by (auto simp: first_slot_def find_None_iff in_set_conv_nth)

text \<open>The slot a completion is for, if any, is the only one.\<close>

lemma deliver_slot:
  assumes ok: "pending_ok k" and i: "first_slot (waits_for (cq_cmd_id cm)) k = Some i"
  shows "map (deliver [cm]) (pending k) = (pending k)[i := (pending k ! i)\<lparr>pr_result := cm, pr_done := 1\<rparr>]"
proof (rule nth_equalityI)
  note w = first_slot_Some [OF i]
  fix j assume j: "j < length (map (deliver [cm]) (pending k))"
  show "map (deliver [cm]) (pending k) ! j = (pending k)[i := (pending k ! i)\<lparr>pr_result := cm, pr_done := 1\<rparr>] ! j"
  proof (cases "j = i")
    case True
    then show ?thesis using j w by (simp add: deliver_def)
  next
    case False
    have "\<not> waits_for (cq_cmd_id cm) (pending k ! j)"
      using ok w False j unfolding pending_ok_def waits_for_def by (metis length_map)
    then show ?thesis using False j by (simp add: deliver_not)
  qed
qed simp

lemma served_slot:
  assumes ok: "pending_ok k" and i: "first_slot (waits_for (cq_cmd_id cm)) k = Some i"
  shows "served [cm] k s \<longleftrightarrow> s = pr_sem (pending k ! i)"
proof
  note w = first_slot_Some [OF i]
  have m: "pending k ! i \<in> set (pending k)" using ok w(1) by (simp add: pending_ok_def)
  then show "served [cm] k s" if "s = pr_sem (pending k ! i)" using that w(2) by (auto simp: served_def)
  show "s = pr_sem (pending k ! i)" if "served [cm] k s"
  proof -
    from that obtain p where p: "p \<in> set (pending k)" "pr_sem p = s" "waits_for (cq_cmd_id cm) p" by (auto simp: served_def)
    then have "p = pending k ! i" using used_unique [OF ok p(1) m] w(2) by (simp add: waits_for_def)
    then show ?thesis using p(2) by simp
  qed
qed

lemma pending_ok_dispatched:
  assumes ok: "pending_ok k" and d: "dispatched [cm] k k'"
  shows "pending_ok k'"
proof -
  note D = dispatchedD [OF d]
  have len: "length (pending k') = NUM_WORKERS" using ok D(1) by (simp add: pending_ok_def)
  have nth: "pending k' ! i = deliver [cm] (pending k ! i)" if "i < NUM_WORKERS" for i
    using that ok D(1) by (simp add: pending_ok_def)
  have "can_post k' (pr_sem q)" if q: "q \<in> set (pending k')" "pr_used q \<noteq> 0" "pr_done q = 0" for q
  proof -
    obtain p where p: "p \<in> set (pending k)" "q = deliver [cm] p" using q(1) D(1) by auto
    have "waits_for (pr_cmd_id q) q" using q by (simp add: waits_for_def)
    then have w: "waits_for (pr_cmd_id p) p" "cq_cmd_id cm \<noteq> pr_cmd_id p" using p(2) waits_deliver by auto
    have "\<not> served [cm] k (pr_sem p)"
    proof
      assume "served [cm] k (pr_sem p)"
      then obtain r where r: "r \<in> set (pending k)" "pr_sem r = pr_sem p" "waits_for (cq_cmd_id cm) r" by (auto simp: served_def)
      then have "r = p" using used_unique [OF ok r(1) p(1)] w(1) by (simp add: waits_for_def)
      then show False using r(3) w by (simp add: waits_for_def)
    qed
    moreover have "can_post k (pr_sem p)" using ok p(1) w(1) by (auto simp: pending_ok_def waits_for_def)
    ultimately show ?thesis using p(2) D(2,4) by (simp add: can_post_def)
  qed
  then show ?thesis using ok len nth unfolding pending_ok_def by auto
qed

lemma sync_ok_dispatched:
  assumes "sync_ok k" and d: "dispatched cms k k'"
  shows "sync_ok k'"
proof -
  note D = dispatchedD [OF d]
  have "sched_ok k" using assms(1) by (simp add: sync_ok_def)
  then have "sched_ok k'" by (rule sched_ok_cong) (simp_all add: D)
  then show ?thesis using assms(1) D(6) by (simp add: sync_ok_def)
qed

lemma dispatch_one_result:
  assumes ok: "sync_ok k" "pending_ok k"
  shows "\<exists>k'. dispatch_one c cm k = Some k' \<and> dispatched [cm] k k'"
proof (cases "first_slot (waits_for (cq_cmd_id cm)) k")
  case None
  have "\<forall>p \<in> set (pending k). \<not> waits_for (cq_cmd_id cm) p"
    using first_slot_None [OF None] ok(2) by (simp add: pending_ok_def)
  then have "map (deliver [cm]) (pending k) = pending k" "\<not> served [cm] k s" for s
    by (auto simp: deliver_not served_def intro: map_idI)
  then have "dispatched [cm] k k" by (simp add: dispatched_def)
  then show ?thesis using None by (auto simp: dispatch_one_def)
next
  case (Some i)
  note w = first_slot_Some [OF Some]
  let ?s = "pr_sem (pending k ! i)"
  let ?k = "k\<lparr>pending := map (deliver [cm]) (pending k)\<rparr>"
  have len: "i < length (pending k)" using ok(2) w(1) by (simp add: pending_ok_def)
  have "sched_ok k" using ok(1) by (simp add: sync_ok_def)
  then have "sched_ok ?k" by (rule sched_ok_cong) simp_all
  then have k1: "sync_ok ?k" using ok(1) by (simp add: sync_ok_def)
  have "can_post k ?s" using ok(2) w len by (auto simp: pending_ok_def waits_for_def)
  then have "can_post ?k ?s" by (simp add: can_post_def)
  from post_effect [OF k1 this, of c] obtain l where l: "sem_post c ?s ?k =
      Some ((if sem_waiter (sems ?k ?s) = NULL then ?k else set_state (sem_waiter (sems ?k ?s)) 0 ?k)
         \<lparr>sems := (sems ?k)(?s := sem_posted (sems ?k ?s)), io_log := io_log ?k @ l\<rparr>)" (is "_ = Some ?r") by blast
  have "dispatch_one c cm k = Some ?r"
    using Some l len unfolding deliver_slot [OF ok(2) Some] by (simp add: dispatch_one_def)
  moreover have "dispatched [cm] k ?r"
    unfolding dispatched_def served_slot [OF ok(2) Some] by (auto simp: fun_eq_iff)
  ultimately show ?thesis by blast
qed

text \<open>Two dispatches in a row are one: no semaphore is posted by both.\<close>

lemma dispatched_Cons:
  assumes ok: "pending_ok k" and d1: "dispatched [cm] k k1" and d2: "dispatched cms k1 k2"
  shows "dispatched (cm # cms) k k2"
proof -
  note D1 = dispatchedD [OF d1] and D2 = dispatchedD [OF d2]
  have s: "served (cm # cms) k s \<longleftrightarrow> served [cm] k s \<or> served cms k1 s" for s
    unfolding served_def D1(1) set_map by (auto simp: waits_deliver)
  have ex: "\<not> served cms k1 s" if "served [cm] k s" for s
  proof
    assume "served cms k1 s"
    then obtain q and cm' :: dma_accel_completion where q: "q \<in> set (pending k)" "pr_sem q = s" "waits_for (cq_cmd_id cm') q" "cq_cmd_id cm \<noteq> cq_cmd_id cm'"
      unfolding served_def D1(1) set_map by (simp add: waits_deliver) blast
    from that obtain p where p: "p \<in> set (pending k)" "pr_sem p = s" "waits_for (cq_cmd_id cm) p" by (auto simp: served_def)
    then have "p = q" using used_unique [OF ok p(1) q(1)] q by (simp add: waits_for_def)
    then show False using p q by (simp add: waits_for_def)
  qed
  have keep: "sems k1 s = sems k s" if "served cms k1 s" for s using ex that D1(2) by auto
  have "pending k2 = map (deliver (cm # cms)) (pending k)" unfolding D2(1) D1(1) by (simp add: deliver_Cons [of cm cms])
  moreover have "sems k2 = (\<lambda>t. if served (cm # cms) k t then sem_posted (sems k t) else sems k t)"
  proof
    fix x
    show "sems k2 x = (if served (cm # cms) k x then sem_posted (sems k x) else sems k x)"
      unfolding s D2(2) [of x] D1(2) [of x] using ex [of x] by argo
  qed
  moreover have "tcb_state (tcbs k2 t) = (if t \<noteq> NULL \<and> (\<exists>s. served (cm # cms) k s \<and> sem_waiter (sems k s) = t) then 0
        else tcb_state (tcbs k t))" for t
  proof -
    have "(\<exists>s. served (cm # cms) k s \<and> sem_waiter (sems k s) = t) \<longleftrightarrow>
        (\<exists>s. served [cm] k s \<and> sem_waiter (sems k s) = t) \<or> (\<exists>s. served cms k1 s \<and> sem_waiter (sems k1 s) = t)"
      using s keep by metis
    then show ?thesis unfolding D2(3) [of t] D1(3) [of t] by argo
  qed
  ultimately show ?thesis using D1(4-) D2(4-) unfolding dispatched_def by simp
qed

lemma dispatch_all_result:
  assumes "sync_ok k" "pending_ok k"
  shows "\<exists>k'. dispatch_all c cms k = Some k' \<and> dispatched cms k k' \<and> pending_ok k'"
  using assms
proof (induction cms arbitrary: k)
  case Nil
  then show ?case by (simp add: dispatched_def served_def)
next
  case (Cons cm cms)
  obtain k1 where k1: "dispatch_one c cm k = Some k1" "dispatched [cm] k k1"
    using dispatch_one_result [OF Cons.prems] by blast
  have "sync_ok k1" "pending_ok k1"
    using sync_ok_dispatched [OF Cons.prems(1) k1(2)] pending_ok_dispatched [OF Cons.prems(2) k1(2)] .
  from Cons.IH [OF this] obtain k2 where "dispatch_all c cms k1 = Some k2" "dispatched cms k1 k2" "pending_ok k2" by blast
  then show ?case using k1 dispatched_Cons [OF Cons.prems(2) k1(2)] by auto
qed

lemma dispatch_result:
  assumes ok: "sync_ok k" "pending_ok k" and free: "locks k Accel_lock = 0" and rest: "cq_rest t ring k"
  shows "\<exists>k'. dispatch_available_completions c k = Some k' \<and> pending_ok k' \<and>
     dispatched (cq_slots ring (cq_head_local k) (min NUM_WORKERS (cq_waiting t k))) k k'"
proof -
  let ?cms = "cq_slots ring (cq_head_local k) (min NUM_WORKERS (cq_waiting t k))"
  let ?k0 = "upd_regs c (\<lambda>r. r\<lparr>daif := daif r OR DAIF_I\<rparr>) k\<lparr>locks := (locks k)(Accel_lock := 1)\<rparr>"
  have r0: "cq_rest t ring ?k0" using rest by (simp add: cq_rest_def reg_addr_def)
  obtain l where l: "accel_drain_completions_multi NUM_WORKERS ?k0 =
      (?cms, ?k0\<lparr>cq_head_local := cq_head_local k + of_nat (min NUM_WORKERS (cq_waiting t k)), io_log := io_log k @ l\<rparr>)"
    (is "_ = (_, ?k1)")
    using drain_multi_exact [OF r0, of "[]" NUM_WORKERS] by (auto simp: accel_drain_completions_multi_def)
  have "sched_ok k" using ok(1) by (simp add: sync_ok_def)
  then have "sched_ok ?k1" by (auto simp: sched_ok_def all_free_def percpu_ok_def uart_live_def sched_inv_def)
  then have s1: "sync_ok ?k1" using ok(1) by (simp add: sync_ok_def)
  have p1: "pending_ok ?k1" using ok(2) by (simp add: pending_ok_def can_post_def)
  obtain k2 where k2: "dispatch_all c ?cms ?k1 = Some k2" "dispatched ?cms ?k1 k2" "pending_ok k2"
    using dispatch_all_result [OF s1 p1] by blast
  have served: "served ?cms ?k1 = served ?cms k" by (simp add: served_def fun_eq_iff)
  let ?k' = "spin_unlock_irqrestore c Accel_lock (daif (regs k c)) k2"
  have "dispatch_available_completions c k = Some ?k'"
    unfolding dispatch_available_completions_def spin_lock_irqsave_free [OF free] by (simp add: l k2(1))
  moreover have "pending_ok ?k'" using k2(3) by (simp add: pending_ok_def can_post_def lock_defs)
  moreover have "dispatched ?cms k ?k'"
    using k2(2) free unfolding dispatched_def served by (auto simp: lock_defs fun_eq_iff)
  ultimately show ?thesis by blast
qed

section \<open>Registering\<close>

text \<open>A request that may be made: a slot is free, and neither its command number nor its semaphore is in use.\<close>

definition can_register :: "u64 \<Rightarrow> u64 \<Rightarrow> 'z main_state_scheme \<Rightarrow> bool" where
  "can_register cmd_id s k \<longleftrightarrow> (\<exists>p \<in> set (pending k). pr_used p = 0) \<and> can_post k s \<and>
     (\<forall>p \<in> set (pending k). pr_used p \<noteq> 0 \<longrightarrow> pr_cmd_id p \<noteq> cmd_id \<and> pr_sem p \<noteq> s)"

lemma register_slot:
  assumes ok: "pending_ok k" and can: "can_register cmd_id s k"
  obtains i p where "i < NUM_WORKERS" "pending_register cmd_id s k = k\<lparr>pending := (pending k)[i := p]\<rparr>"
    "pr_cmd_id p = cmd_id" "pr_sem p = s" "pr_used p = 1" "pr_done p = 0"
proof -
  have "first_slot (\<lambda>p. pr_used p = 0) k \<noteq> None"
    using first_slot_None [of "\<lambda>p. pr_used p = 0" k] ok can by (auto simp: pending_ok_def can_register_def)
  then obtain i where i: "first_slot (\<lambda>p. pr_used p = 0) k = Some i" by blast
  show ?thesis
    using that [of i "(pending k ! i)\<lparr>pr_cmd_id := cmd_id, pr_sem := s, pr_used := 1, pr_done := 0\<rparr>"]
      first_slot_Some [OF i] i by (simp add: pending_register_def)
qed

lemma pending_ok_update:
  assumes ok: "pending_ok k" and i: "i < NUM_WORKERS" and can: "can_register cmd_id s k"
    and p: "pr_cmd_id p = cmd_id" "pr_sem p = s"
  shows "pending_ok (k\<lparr>pending := (pending k)[i := p]\<rparr>)"
proof -
  let ?P = "(pending k)[i := p]"
  have len: "length (pending k) = NUM_WORKERS" using ok by (simp add: pending_ok_def)
  have mem: "pending k ! j \<in> set (pending k)" if "j < NUM_WORKERS" for j using that len by simp
  have new: "pr_cmd_id (pending k ! j) \<noteq> cmd_id \<and> pr_sem (pending k ! j) \<noteq> s"
    if "j < NUM_WORKERS" "pr_used (pending k ! j) \<noteq> 0" for j
    using mem [OF that(1)] that(2) can by (auto simp: can_register_def)
  have "pr_cmd_id (?P ! a) \<noteq> pr_cmd_id (?P ! b) \<and> pr_sem (?P ! a) \<noteq> pr_sem (?P ! b)"
    if "a < NUM_WORKERS" "b < NUM_WORKERS" "a \<noteq> b" "pr_used (?P ! a) \<noteq> 0" "pr_used (?P ! b) \<noteq> 0" for a b
  proof (cases "a = i \<or> b = i")
    case True
    then show ?thesis using that new [of a] new [of b] p len by auto
  next
    case False
    then show ?thesis using that ok by (auto simp: pending_ok_def)
  qed
  moreover have "can_post k (pr_sem q)" if "q \<in> set ?P" "pr_used q \<noteq> 0" "pr_done q = 0" for q
    using set_update_subset_insert [of "pending k" i p] that ok can p(2)
    by (auto simp: pending_ok_def can_register_def)
  ultimately show ?thesis using len unfolding pending_ok_def can_post_def by auto
qed

lemma worker_submit_result:
  assumes ok: "sync_ok k" "pending_ok k" and free: "locks k Accel_lock = 0"
    and can: "can_register (ucast (sq_tail_local k + 1)) s k"
  shows "\<exists>k'. worker_submit c src dst len s k = Some (ucast (sq_tail_local k + 1), k') \<and> sync_ok k' \<and> pending_ok k' \<and>
     (\<exists>p \<in> set (pending k'). waits_for (ucast (sq_tail_local k + 1)) p \<and> pr_sem p = s) \<and>
     locks k' = locks k \<and> regs k' = regs k \<and> sems k' = sems k"
proof -
  let ?id = "ucast (sq_tail_local k + 1) :: u64"
  let ?k0 = "upd_regs c (\<lambda>r. r\<lparr>daif := daif r OR DAIF_I\<rparr>) k\<lparr>locks := (locks k)(Accel_lock := 1)\<rparr>"
  obtain ring tl l where sub: "accel_submit_copy c src dst len ?k0 = (?id, submitted ring tl l ?k0)"
    by (simp add: submit_effect)
  let ?k1 = "submitted ring tl l ?k0"
  have p1: "pending_ok ?k1" and c1: "can_register ?id s ?k1"
    using ok(2) can by (simp_all add: submitted_def pending_ok_def can_post_def can_register_def)
  obtain i p where r: "i < NUM_WORKERS" "pending_register ?id s ?k1 = ?k1\<lparr>pending := (pending ?k1)[i := p]\<rparr>"
    "pr_cmd_id p = ?id" "pr_sem p = s" "pr_used p = 1" "pr_done p = 0" using register_slot [OF p1 c1] .
  let ?k2 = "?k1\<lparr>pending := (pending ?k1)[i := p]\<rparr>"
  let ?k' = "spin_unlock_irqrestore c Accel_lock (daif (regs k c)) ?k2"
  have run: "worker_submit c src dst len s k = Some (?id, ?k')"
    unfolding worker_submit_def spin_lock_irqsave_free [OF free] by (simp add: sub r(2))
  have "pending_ok ?k2" by (rule pending_ok_update [OF p1 r(1) c1 r(3,4)])
  then have "pending_ok ?k'" by (rule pending_ok_cong) (simp_all add: lock_defs)
  moreover have "p \<in> set (pending ?k')"
    using r(1) ok(2) by (simp add: lock_defs submitted_def pending_ok_def set_update_memI)
  moreover have "waits_for ?id p" using r by (simp add: waits_for_def)
  moreover have lk: "locks ?k' = locks k" "regs ?k' = regs k" "sems ?k' = sems k"
    using free by (simp_all add: lock_defs submitted_def fun_upd_idem)
  moreover have "sched_ok k" using ok(1) by (simp add: sync_ok_def)
  then have "sched_ok ?k'" by (rule sched_ok_cong) (use lk in \<open>simp_all add: lock_defs submitted_def\<close>)
  then have "sync_ok ?k'" using ok(1) lk by (simp add: sync_ok_def)
  ultimately show ?thesis using run r(4) by blast
qed

section \<open>Properties\<close>

text \<open>C8: every completion is dispatched exactly once. With the device at rest, \<open>dispatch_available_completions\<close> takes the
  first completions that wait, at most three, and does exactly this: an entry of the table that waits for one of
  them gets its result and is marked done, and its semaphore is posted once; every other entry,
  semaphore and task is untouched, a task that waited on a posted semaphore is READY, and all locks and the
  interrupt mask are as before.\<close>

theorem dispatch_exactly_once:
  assumes "sync_ok k" "pending_ok k" and "locks k Accel_lock = 0" and "cq_rest t ring k"
  shows "\<exists>k'. dispatch_available_completions c k = Some k' \<and> sync_ok k' \<and> pending_ok k' \<and>
     dispatched (cq_slots ring (cq_head_local k) (min NUM_WORKERS (cq_waiting t k))) k k'"
  using dispatch_result [OF assms] sync_ok_dispatched [OF assms(1)] by blast


section \<open>A sample state\<close>

text \<open>The accelerator of \<open>accel_sample\<close>; the first slot waits for command 2, the others are free.\<close>

definition main_sample :: main_state where
  "main_sample = accel_state.extend accel_sample (main_state.fields
     (\<lparr>pr_cmd_id = 2, pr_sem = 0x9000, pr_result = \<lparr>cq_cmd_id = 0, cq_status = 0, cq_reserved = 0\<rparr>, pr_used = 1, pr_done = 0\<rparr> #
      replicate 2 \<lparr>pr_cmd_id = 0, pr_sem = 0, pr_result = \<lparr>cq_cmd_id = 0, cq_status = 0, cq_reserved = 0\<rparr>, pr_used = 0, pr_done = 0\<rparr>)
     [0, 0, 0] (\<lambda>_. replicate 128 0) (\<lambda>_. replicate 128 0) (\<lambda>_ _. None) [0, 0, 0, 0] 62500000
     (replicate 16 \<lparr>sw_site = [], sw_prev = 0, sw_next = 0\<rparr>) 0 0)"

lemmas main_sample_defs = main_sample_def accel_state.extend_def main_state.fields_def

lemma main_sample_simps [simp]:
  "pending main_sample =
     \<lparr>pr_cmd_id = 2, pr_sem = 0x9000, pr_result = \<lparr>cq_cmd_id = 0, cq_status = 0, cq_reserved = 0\<rparr>, pr_used = 1, pr_done = 0\<rparr> #
      replicate 2 \<lparr>pr_cmd_id = 0, pr_sem = 0, pr_result = \<lparr>cq_cmd_id = 0, cq_status = 0, cq_reserved = 0\<rparr>, pr_used = 0, pr_done = 0\<rparr>"
  "sems main_sample s = \<lparr>sem_count = 0, sem_waiter = NULL\<rparr>" "locks main_sample = locks sync_sample"
  "sq_tail_local main_sample = 3" "cq_head_local main_sample = 0"
  by (simp_all add: main_sample_defs) (simp_all add: accel_sample_defs)

lemma main_sample_ok: "sync_ok main_sample" "pending_ok main_sample" "locks main_sample Accel_lock = 0"
  "cq_rest 3 (\<lambda>i. \<lparr>cq_cmd_id = of_nat i + 1, cq_status = 0, cq_reserved = 0\<rparr>) main_sample"
proof -
  have s: "runqueues main_sample = runqueues sync_sample" "tcbs main_sample = tcbs sync_sample" "regs main_sample = regs sync_sample"
    "cpu_locals main_sample = cpu_locals sync_sample"
    by (simp_all add: main_sample_defs) (simp_all add: accel_sample_defs)
  have d: "dev main_sample = (\<lambda>_ a. if a = 0x10000064 then 3 else 0)"
    by (simp add: main_sample_defs) (simp add: accel_sample_defs)
  have "sched_ok sync_sample" by (rule sync_sample_sched_ok)
  then have "sched_inv main_sample" "percpu_ok main_sample" "\<forall>i<MAX_CPUS. locks main_sample (Rq_lock i) = 0" "locks main_sample Uart_lock = 0"
    by (auto simp: sched_ok_def sched_inv_def percpu_ok_def all_free_def s)
  moreover have "uart_live main_sample" by (simp add: uart_live_def d UART_FR_def)
  ultimately have "sched_ok main_sample" by (simp add: sched_ok_def all_free_def)
  then show "sync_ok main_sample" using sync_sample_ok by (simp add: sync_ok_def)
  show "pending_ok main_sample"
    by (auto simp: pending_ok_def NUM_WORKERS_def can_post_def INT_MAX_def less_Suc_eq numeral_3_eq_3 numeral_2_eq_2)
  show "locks main_sample Accel_lock = 0" by (simp add: sync_sample_defs) (simp add: lb_kernel_def sample_defs)
  show "cq_rest 3 (\<lambda>i. \<lparr>cq_cmd_id = of_nat i + 1, cq_status = 0, cq_reserved = 0\<rparr>) main_sample"
    by (simp add: cq_rest_def reg_addr_def REG_CQ_TAIL_def) (simp add: main_sample_defs accel_sample_defs)
qed

section \<open>Witnesses\<close>

theorem dispatch_exactly_once_witness:
  "\<exists>k'. dispatch_available_completions 0 main_sample = Some k' \<and> sync_ok k' \<and>
     dispatched (cq_slots (\<lambda>i. \<lparr>cq_cmd_id = of_nat i + 1, cq_status = 0, cq_reserved = 0\<rparr>) 0 3) main_sample k'"
proof -
  have "min NUM_WORKERS (cq_waiting 3 main_sample) = 3" by (simp add: NUM_WORKERS_def)
  from dispatch_exactly_once [OF main_sample_ok, of 0, unfolded this] show ?thesis unfolding main_sample_simps(5) by blast
qed


end
