(* ===== verification/Gic.thy ===== *)
theory Gic
  imports Kernel_State
begin

text \<open>
  The interrupt controller driver (\<open>kernel/gic.c\<close>): register addresses and the accesses each function
  makes, in order. The controller itself is a parameter (\<open>dev\<close>); what the accesses mean to it is the
  GICv2 register map, stated below as a decoding of the access history.
\<close>

section \<open>The driver\<close>

definition GICD_BASE :: u64 where "GICD_BASE = 0x08000000"
definition GICC_BASE :: u64 where "GICC_BASE = 0x08010000"

definition GICD_CTLR :: u64 where "GICD_CTLR = GICD_BASE + 0x000"

text \<open>\<open>4*((n)/32)\<close> is computed in 32 bits and then widened.\<close>

definition GICD_ISENABLER :: "u32 \<Rightarrow> u64" where
  "GICD_ISENABLER n = GICD_BASE + 0x100 + ucast (4 * (n div 32))"

definition GICD_IPRIORITYR :: "u32 \<Rightarrow> u64" where
  "GICD_IPRIORITYR n = GICD_BASE + 0x400 + ucast n"

definition GICD_ITARGETSR :: "u32 \<Rightarrow> u64" where
  "GICD_ITARGETSR n = GICD_BASE + 0x800 + ucast n"

definition GICC_CTLR :: u64 where "GICC_CTLR = GICC_BASE + 0x000"
definition GICC_PMR :: u64 where "GICC_PMR = GICC_BASE + 0x004"
definition GICC_IAR :: u64 where "GICC_IAR = GICC_BASE + 0x00C"
definition GICC_EOIR :: u64 where "GICC_EOIR = GICC_BASE + 0x010"

definition gic_init :: "'z kernel_scheme \<Rightarrow> 'z kernel_scheme" where
  "gic_init k =
    (let k = io_write (Wr32 GICD_CTLR 1) k;
         k = io_write (Wr32 GICC_PMR 0xFF) k
     in io_write (Wr32 GICC_CTLR 1) k)"

definition gic_enable_irq_target :: "u32 \<Rightarrow> u8 \<Rightarrow> 'z kernel_scheme \<Rightarrow> 'z kernel_scheme" where
  "gic_enable_irq_target irq target_mask k =
    (let k = (if irq \<ge> 32 then io_write (Wr8 (GICD_ITARGETSR irq) target_mask) k else k);
         k = io_write (Wr8 (GICD_IPRIORITYR irq) 0x80) k
     in io_write (Wr32 (GICD_ISENABLER irq) (push_bit (unat (irq mod 32)) 1)) k)"

definition gic_enable_irq :: "u32 \<Rightarrow> 'z kernel_scheme \<Rightarrow> 'z kernel_scheme" where
  "gic_enable_irq irq k = gic_enable_irq_target irq 0x01 k"

definition gic_get_target :: "u32 \<Rightarrow> 'z kernel_scheme \<Rightarrow> u32 \<times> 'z kernel_scheme" where
  "gic_get_target irq k = (let (v, k) = read8 (GICD_ITARGETSR irq) k in (ucast v, k))"

definition gic_probe_target :: "u32 \<Rightarrow> u8 \<Rightarrow> 'z kernel_scheme \<Rightarrow> u32 \<times> 'z kernel_scheme" where
  "gic_probe_target irq m k =
    (let (old, k) = read8 (GICD_ITARGETSR irq) k;
         k = io_write (Wr8 (GICD_ITARGETSR irq) m) k;
         (rb, k) = read8 (GICD_ITARGETSR irq) k;
         k = io_write (Wr8 (GICD_ITARGETSR irq) old) k
     in (ucast rb, k))"

definition gic_ack :: "'z kernel_scheme \<Rightarrow> u32 \<times> 'z kernel_scheme" where
  "gic_ack k = read32 GICC_IAR k"

definition gic_eoi :: "u32 \<Rightarrow> 'z kernel_scheme \<Rightarrow> 'z kernel_scheme" where
  "gic_eoi irq k = io_write (Wr32 GICC_EOIR irq) k"

definition gic_init_secondary :: "'z kernel_scheme \<Rightarrow> 'z kernel_scheme" where
  "gic_init_secondary k = (let k = io_write (Wr32 GICC_PMR 0xFF) k in io_write (Wr32 GICC_CTLR 1) k)"

lemmas gic_defs = gic_init_def gic_enable_irq_target_def gic_enable_irq_def gic_get_target_def
  gic_probe_target_def gic_ack_def gic_eoi_def gic_init_secondary_def

section \<open>The distributor the accesses program\<close>

text \<open>GICv2: bit \<open>b\<close> written as one to the \<open>w\<close>-th enable-set register enables interrupt
  \<open>32 w + b\<close>, a zero leaves it alone; the \<open>n\<close>-th byte of the target registers routes interrupt \<open>n\<close>.\<close>

record distributor =
  enabled :: "nat set"
  target :: "nat \<Rightarrow> u8"
  prio :: "nat \<Rightarrow> u8"

fun gicd_access :: "io \<Rightarrow> distributor \<Rightarrow> distributor" where
  "gicd_access (Wr32 a v) d =
    (let o' = unat (a - (GICD_BASE + 0x100))
     in if o' < 128 \<and> o' mod 4 = 0 then d\<lparr>enabled := enabled d \<union> {8 * o' + b |b. b < 32 \<and> bit v b}\<rparr> else d)"
| "gicd_access (Wr8 a v) d =
    (if unat (a - (GICD_BASE + 0x800)) < 1024 then d\<lparr>target := (target d)(unat (a - (GICD_BASE + 0x800)) := v)\<rparr>
     else if unat (a - (GICD_BASE + 0x400)) < 1024 then d\<lparr>prio := (prio d)(unat (a - (GICD_BASE + 0x400)) := v)\<rparr>
     else d)"
| "gicd_access _ d = d"

definition gicd :: "io list \<Rightarrow> distributor \<Rightarrow> distributor" where
  "gicd log d = fold gicd_access log d"

lemma gicd_simps [simp]: "gicd [] d = d" "gicd (x # l) d = gicd l (gicd_access x d)"
  "gicd (l @ l') d = gicd l' (gicd l d)"
  by (simp_all add: gicd_def)

lemma single_bit:
  assumes "i < 32" and "b < 32"
  shows "bit (push_bit i (1 :: u32)) b \<longleftrightarrow> b = i"
  using assms by (auto simp: bit_exp_iff)

lemma isenabler_access:
  assumes "unat irq < 1020"
  shows "gicd_access (Wr32 (GICD_ISENABLER irq) (push_bit (unat (irq mod 32)) 1)) d =
     d\<lparr>enabled := insert (unat irq) (enabled d)\<rparr>"
proof -
  have w: "unat (4 * (irq div 32)) = 4 * (unat irq div 32)"
  proof -
    have "unat (irq div 32) = unat irq div 32" by (simp add: unat_div)
    then show ?thesis using assms by (simp add: unat_word_ariths)
  qed
  have o': "unat (GICD_ISENABLER irq - (GICD_BASE + 0x100)) = 4 * (unat irq div 32)"
    using w by (simp add: GICD_ISENABLER_def)
  have m: "unat (irq mod 32) = unat irq mod 32" by (simp add: unat_mod)
  have "{8 * (4 * (unat irq div 32)) + b |b. b < 32 \<and> bit (push_bit (unat irq mod 32) (1 :: u32)) b} = {unat irq}"
    using single_bit [of "unat irq mod 32"] by (auto simp: mult_div_mod_eq intro!: exI [of _ "unat irq mod 32"])
  then show ?thesis using assms by (simp add: o' m)
qed

lemma itargetsr_access:
  assumes "unat irq < 1020"
  shows "gicd_access (Wr8 (GICD_ITARGETSR irq) m) d = d\<lparr>target := (target d)(unat irq := m)\<rparr>"
  using assms by (simp add: GICD_ITARGETSR_def)

lemma ipriorityr_access:
  assumes "unat irq < 1020"
  shows "gicd_access (Wr8 (GICD_IPRIORITYR irq) m) d = d\<lparr>prio := (prio d)(unat irq := m)\<rparr>"
proof -
  have "GICD_IPRIORITYR irq - (GICD_BASE + 0x800) = ucast irq - 0x400" by (simp add: GICD_IPRIORITYR_def)
  moreover have "unat (ucast irq - 0x400 :: u64) \<ge> 1024"
    using assms by (simp add: unat_sub_if' word_le_nat_alt)
  ultimately show ?thesis using assms by (simp add: GICD_IPRIORITYR_def)
qed

section \<open>Enabling an interrupt\<close>

text \<open>Enabling an interrupt programs exactly that interrupt. Decoded by the register map, the accesses of
  \<open>gic_enable_irq_target\<close> enable interrupt \<open>irq\<close> and no other and set its priority; a shared interrupt is
  routed to the given target, a private one keeps its own; and the last access is the one that
  enables, so that the interrupt is never live with a stale target.\<close>

lemma gic_enable_exact:
  assumes "unat irq < 1020"
  shows "\<exists>l x. io_log (gic_enable_irq_target irq m k) = io_log k @ l @ [x] \<and>
     enabled (gicd l d) = enabled d \<and>
     gicd (l @ [x]) d = d\<lparr>enabled := insert (unat irq) (enabled d),
       target := (if 32 \<le> unat irq then (target d)(unat irq := m) else target d),
       prio := (prio d)(unat irq := 0x80)\<rparr>"
proof -
  let ?x = "Wr32 (GICD_ISENABLER irq) (push_bit (unat (irq mod 32)) 1)"
  let ?l = "(if 32 \<le> irq then [Wr8 (GICD_ITARGETSR irq) m] else []) @ [Wr8 (GICD_IPRIORITYR irq) 0x80]"
  have "32 \<le> irq \<longleftrightarrow> 32 \<le> unat irq" by (simp add: word_le_nat_alt)
  then show ?thesis
    using isenabler_access [OF assms] itargetsr_access [OF assms] ipriorityr_access [OF assms]
    by (intro exI [of _ ?l] exI [of _ ?x])
       (simp add: gic_enable_irq_target_def io_write_def del: gicd_access.simps push_bit_of_1)
qed

text \<open>Probing is harmless. If the target byte reads as the distributor holds it, the accesses of
  \<open>gic_probe_target\<close> leave the distributor exactly as it was: routing restored, nothing enabled.\<close>

lemma gic_probe_restores:
  assumes "unat irq < 1020" and "ucast (dev k (io_log k) (GICD_ITARGETSR irq)) = target d (unat irq)"
  shows "\<exists>l. io_log (snd (gic_probe_target irq m k)) = io_log k @ l \<and> gicd l d = d"
proof -
  let ?a = "GICD_ITARGETSR irq"
  let ?l = "[Rd8 ?a, Wr8 ?a m, Rd8 ?a, Wr8 ?a (target d (unat irq))]"
  have "io_log (snd (gic_probe_target irq m k)) = io_log k @ ?l"
    using assms(2) by (simp add: gic_probe_target_def read8_def io_write_def Let_def)
  moreover have "gicd ?l d = d"
    using itargetsr_access [OF assms(1)] by (simp add: fun_upd_idem del: gicd_access.simps(2))
  ultimately show ?thesis by blast
qed

end
