(* ===== verification/Print.thy ===== *)
theory Print
  imports Uart
begin

text \<open>
  The line printers of \<open>kernel/main.c\<close> and \<open>put_hex\<close> of \<open>kernel/smp.c\<close>. They build their lines in
  fixed buffers on the stack; every store is checked against the size of its buffer, and one outside
  it is \<open>None\<close>.
\<close>

section \<open>The printers\<close>

abbreviation NUL :: char where "NUL \<equiv> CHR 0x00"
abbreviation CRLF :: string where "CRLF \<equiv> [CHR 0x0D, CHR 0x0A]"

text \<open>Stores of consecutive characters from position \<open>i\<close> on, and the C string at the front of a buffer.\<close>

fun store_at :: "nat \<Rightarrow> string \<Rightarrow> string \<Rightarrow> string option" where
  "store_at i [] buf = Some buf"
| "store_at i (ch # s) buf = (if i < length buf then store_at (i + 1) s (buf[i := ch]) else None)"

definition c_string :: "string \<Rightarrow> string" where
  "c_string buf = takeWhile (\<lambda>ch. ch \<noteq> NUL) buf"

definition hex_digits :: string where "hex_digits = ''0123456789abcdef''"

text \<open>\<open>print_hex_into(&buf[off], v)\<close>: sixteen digits from the most significant down, and a NUL.\<close>

definition print_hex_into :: "nat \<Rightarrow> u64 \<Rightarrow> string \<Rightarrow> string option" where
  "print_hex_into off v buf =
     store_at off (map (\<lambda>i. hex_digits ! unat (drop_bit ((15 - i) * 4) v AND 0xf)) [0..<16] @ [NUL]) buf"

text \<open>\<open>print_dec_into(out, v)\<close>: the digits are produced backwards in \<open>tmp[21]\<close>, as in the UART driver.\<close>

definition print_dec_into :: "u64 \<Rightarrow> string \<Rightarrow> string option" where
  "print_dec_into v out =
     (if v = 0 then store_at 0 [CHR ''0'', NUL] out
      else do {
        (i, tmp) \<leftarrow> dec_fill v 20 (replicate 21 NUL);
        store_at 0 (c_string (drop i tmp) @ [NUL]) out })"

text \<open>\<open>while (prefix[i] && i < 40) { line[i] = prefix[i]; i++; }\<close>\<close>

fun copy_prefix :: "nat \<Rightarrow> string \<Rightarrow> string \<Rightarrow> (nat \<times> string) option" where
  "copy_prefix i [] line = Some (i, line)"
| "copy_prefix i (ch # s) line =
     (if i < 40 then (if i < length line then copy_prefix (i + 1) s (line[i := ch]) else None)
      else Some (i, line))"

text \<open>The contents of the line, built on whatever \<open>line\<close> held before.\<close>

definition hex_line :: "string \<Rightarrow> u64 \<Rightarrow> string \<Rightarrow> string option" where
  "hex_line prefix v line = do {
     (i, line) \<leftarrow> copy_prefix 0 prefix line;
     line \<leftarrow> store_at i ''0x'' line;
     line \<leftarrow> print_hex_into (i + 2) v line;
     store_at (i + 2 + 16) (CRLF @ [NUL]) line }"

definition dec_line :: "string \<Rightarrow> u64 \<Rightarrow> string \<Rightarrow> string \<Rightarrow> string option" where
  "dec_line prefix v numbuf line = do {
     (i, line) \<leftarrow> copy_prefix 0 prefix line;
     numbuf \<leftarrow> print_dec_into v numbuf;
     line \<leftarrow> store_at i (c_string numbuf) line;
     store_at (i + length (c_string numbuf)) (CRLF @ [NUL]) line }"

text \<open>What the stack held before does not matter (below); it is taken to be zero.\<close>

definition print_hexline :: "nat \<Rightarrow> string \<Rightarrow> u64 \<Rightarrow> 'z kernel_scheme \<Rightarrow> 'z kernel_scheme option" where
  "print_hexline c prefix v k = do {
     line \<leftarrow> hex_line prefix v (replicate 64 NUL);
     uart_puts c (c_string line) k }"

definition print_decline :: "nat \<Rightarrow> string \<Rightarrow> u64 \<Rightarrow> 'z kernel_scheme \<Rightarrow> 'z kernel_scheme option" where
  "print_decline c prefix v k = do {
     line \<leftarrow> dec_line prefix v (replicate 21 NUL) (replicate 64 NUL);
     uart_puts c (c_string line) k }"

text \<open>\<open>put_hex\<close>: the digits go out one by one, without the UART lock.\<close>

definition put_hex :: "nat \<Rightarrow> u64 \<Rightarrow> 'z kernel_scheme \<Rightarrow> 'z kernel_scheme option" where
  "put_hex c v k = do {
     k \<leftarrow> uart_puts c ''0x'' k;
     uart_emit (map (\<lambda>i. hex_digits ! unat (drop_bit i v AND 0xf)) (map (\<lambda>j. 60 - 4 * j) [0..<16])) k }"

section \<open>The lines\<close>

text \<open>Reference: the hexadecimal digits of a number, and reading them back.\<close>

definition hexadecimal :: "u64 \<Rightarrow> string" where
  "hexadecimal v = map (\<lambda>i. hex_digits ! (unat v div 16 ^ (15 - i) mod 16)) [0..<16]"

definition hex_value :: "char \<Rightarrow> nat" where
  "hex_value ch = (if of_char ch < (58 :: nat) then of_char ch - 48 else of_char ch - 87)"

definition parse_hexadecimal :: "string \<Rightarrow> nat" where
  "parse_hexadecimal s = foldl (\<lambda>a ch. 16 * a + hex_value ch) 0 s"

lemma hex_nibble: "unat (drop_bit n (v :: u64) AND 0xf) = unat v div 2 ^ n mod 16"
proof -
  have "(0xf :: u64) = mask 4" by (simp add: mask_eq_exp_minus_1)
  then have "drop_bit n v AND 0xf = take_bit 4 (drop_bit n v)" by (simp add: take_bit_eq_mask)
  then have "unat (drop_bit n v AND 0xf) = take_bit 4 (drop_bit n (unat v))"
    by (simp only: unsigned_take_bit_eq unat_drop_bit_eq)
  then show ?thesis by (simp add: drop_bit_eq_div take_bit_eq_mod)
qed

lemma hex_into_digits:
  "map (\<lambda>i. hex_digits ! unat (drop_bit ((15 - i) * 4) v AND 0xf)) [0..<16] = hexadecimal v"
  unfolding hexadecimal_def hex_nibble by (simp add: power_mult mult.commute [of _ 4])

lemma put_hex_digits:
  "map (\<lambda>i. hex_digits ! unat (drop_bit i v AND 0xf)) (map (\<lambda>j. 60 - 4 * j) [0..<16]) = hexadecimal v"
  unfolding hexadecimal_def hex_nibble by (simp add: upt_rec)

lemma hex_value_digit: "d < 16 \<Longrightarrow> hex_value (hex_digits ! d) = d"
proof -
  assume "d < 16"
  then have "d \<in> set [0..<16]" by simp
  moreover have "\<forall>d \<in> set [0..<16]. hex_value (hex_digits ! d) = d" by code_simp
  ultimately show ?thesis by blast
qed

lemma parse_upt:
  fixes n :: nat
  shows "foldl (\<lambda>a i. 16 * a + n div 16 ^ (m + k - Suc i) mod 16) 0 [0..<k] = n div 16 ^ m mod 16 ^ k"
proof (induction k arbitrary: m)
  case (Suc k)
  have "foldl (\<lambda>a i. 16 * a + n div 16 ^ (m + Suc k - Suc i) mod 16) 0 [0..<Suc k] =
      16 * foldl (\<lambda>a i. 16 * a + n div 16 ^ (Suc m + k - Suc i) mod 16) 0 [0..<k] + n div 16 ^ m mod 16" by simp
  also have "\<dots> = 16 * (n div 16 ^ m div 16 mod 16 ^ k) + n div 16 ^ m mod 16"
    unfolding Suc.IH power_Suc2 div_mult2_eq ..
  also have "\<dots> = n div 16 ^ m mod 16 ^ Suc k" by (simp add: mod_mult2_eq)
  finally show ?case .
qed simp

lemma parse_hexadecimal_hexadecimal: "parse_hexadecimal (hexadecimal v) = unat v"
proof -
  have "parse_hexadecimal (hexadecimal v) = foldl (\<lambda>a i. 16 * a + unat v div 16 ^ (0 + 16 - Suc i) mod 16) 0 [0..<16]"
    by (simp add: parse_hexadecimal_def hexadecimal_def foldl_map hex_value_digit)
  also have "\<dots> = unat v mod 16 ^ 16" by (subst parse_upt) simp
  also have "\<dots> = unat v"
  proof -
    have "unat v < 2 ^ LENGTH(64)" by (rule unsigned_less)
    then show ?thesis by simp
  qed
  finally show ?thesis .
qed

lemma hexadecimal_nonzero: "ch \<in> set (hexadecimal v) \<Longrightarrow> ch \<noteq> NUL"
proof -
  have "\<forall>d \<in> set [0..<16]. hex_digits ! d \<noteq> NUL" by code_simp
  then show "ch \<in> set (hexadecimal v) \<Longrightarrow> ch \<noteq> NUL" by (auto simp: hexadecimal_def)
qed

lemma length_hexadecimal [simp]: "length (hexadecimal v) = 16"
  by (simp add: hexadecimal_def)

text \<open>Stores that fit replace that part of the buffer.\<close>

lemma store_at_fits:
  assumes "i + length s \<le> length buf"
  shows "store_at i s buf = Some (take i buf @ s @ drop (i + length s) buf)"
  using assms
proof (induction s arbitrary: i buf)
  case (Cons ch s)
  then have "store_at i (ch # s) buf =
      Some (take (i + 1) (buf[i := ch]) @ s @ drop (i + 1 + length s) (buf[i := ch]))" by simp
  then show ?case using Cons.prems by (simp add: set_take_update_append)
qed simp

lemma copy_prefix_copies:
  assumes "40 \<le> length line" "i \<le> 40"
  shows "copy_prefix i s line = Some (i + min (length s) (40 - i),
     take i line @ take (40 - i) s @ drop (i + min (length s) (40 - i)) line)"
  using assms
proof (induction s arbitrary: i line)
  case (Cons ch s)
  show ?case
  proof (cases "i < 40")
    case True
    then have "copy_prefix i (ch # s) line = Some (i + 1 + min (length s) (39 - i),
        take (i + 1) (line[i := ch]) @ take (39 - i) s @ drop (i + 1 + min (length s) (39 - i)) (line[i := ch]))"
      using Cons by simp
    moreover have "40 - i = Suc (39 - i)" using True by simp
    ultimately show ?thesis using True Cons.prems by (simp add: set_take_update_append)
  next
    case False
    with Cons.prems show ?thesis by simp
  qed
qed simp

lemma c_string_append: "\<forall>ch \<in> set s. ch \<noteq> NUL \<Longrightarrow> c_string (s @ NUL # r) = s"
  by (simp add: c_string_def takeWhile_append2)

text \<open>Appending to a line of which \<open>p\<close> is written and \<open>r\<close> is left.\<close>

lemma store_next:
  assumes "i = length p" "length s \<le> length r"
  shows "store_at i s (p @ r) = Some ((p @ s) @ drop (length s) r)"
  using assms store_at_fits [of i s "p @ r"] by simp

lemma prefix_next:
  assumes "length line = 64"
  obtains p r where "copy_prefix 0 prefix line = Some (length p, p @ r)" "p = take 40 prefix" "24 \<le> length r"
proof
  let ?n = "min (length prefix) 40"
  show "copy_prefix 0 prefix line = Some (length (take 40 prefix), take 40 prefix @ drop ?n line)"
    using copy_prefix_copies [of line 0 prefix] assms by simp
  show "24 \<le> length (drop ?n line)" using assms by simp
qed simp

lemma hex_line_fits:
  assumes "length line = 64" "NUL \<notin> set prefix"
  shows "\<exists>b. hex_line prefix v line = Some b \<and> c_string b = take 40 prefix @ ''0x'' @ hexadecimal v @ CRLF"
proof -
  obtain p r where c: "copy_prefix 0 prefix line = Some (length p, p @ r)" "p = take 40 prefix" "24 \<le> length r"
    using prefix_next [OF assms(1)] .
  let ?s = "p @ ''0x'' @ hexadecimal v @ CRLF"
  have "store_at (length p) ''0x'' (p @ r) = Some ((p @ ''0x'') @ drop 2 r)"
    using store_next [of "length p" p "''0x''" r] c(3) by (simp add: numeral_2_eq_2)
  moreover have "print_hex_into (length p + 2) v ((p @ ''0x'') @ drop 2 r) =
      Some ((p @ ''0x'' @ hexadecimal v) @ NUL # drop 19 r)"
    using store_next [of "length p + 2" "p @ ''0x''" "hexadecimal v @ [NUL]" "drop 2 r"] c(3)
    by (simp add: print_hex_into_def hex_into_digits del: store_at.simps)
  moreover have "store_at (length p + 2 + 16) (CRLF @ [NUL]) ((p @ ''0x'' @ hexadecimal v) @ NUL # drop 19 r) =
      Some (?s @ NUL # drop 21 r)"
    using store_next [of "length p + 2 + 16" "p @ ''0x'' @ hexadecimal v" "CRLF @ [NUL]" "NUL # drop 19 r"] c(3)
    by (simp del: store_at.simps)
  ultimately have "hex_line prefix v line = Some (?s @ NUL # drop 21 r)"
    by (simp add: hex_line_def c(1) del: store_at.simps append_assoc)
  moreover have "\<forall>ch \<in> set ?s. ch \<noteq> NUL" using assms(2) hexadecimal_nonzero c(2) by (auto dest: in_set_takeD)
  ultimately show ?thesis using c_string_append [of ?s] c(2) by auto
qed

lemma length_decimal_u64: "length (decimal (unat (v :: u64))) \<le> 20"
proof -
  have "unat v < 2 ^ LENGTH(64)" by (rule unsigned_less)
  then have "unat v < 10 ^ Suc 19" by simp
  then show ?thesis using length_decimal [of "unat v" 19] by simp
qed

lemma dec_into_fits:
  assumes "length numbuf = 21"
  shows "\<exists>b. print_dec_into v numbuf = Some b \<and> c_string b = decimal (unat v)"
proof -
  have z: "char_of (0 :: nat) = NUL" by code_simp
  note len = length_decimal_u64 [of v]
  have nz: "\<forall>ch \<in> set (decimal (unat v)). ch \<noteq> NUL" using decimal_nonzero by (metis z)
  have "print_dec_into v numbuf = store_at 0 (decimal (unat v) @ [NUL]) numbuf"
  proof (cases "v = 0")
    case True
    have "char_of (48 :: nat) = CHR ''0''" by code_simp
    with True show ?thesis by (simp add: print_dec_into_def decimal.simps)
  next
    case False
    let ?i = "20 - length (decimal (unat v))"
    have "dec_fill v 20 (replicate 21 NUL) = Some (?i, take ?i (replicate 21 NUL) @ decimal (unat v) @ [NUL])"
      using dec_fill_decimal [of v 20 "replicate 21 NUL"] False len by (simp add: unat_gt_0)
    then show ?thesis using False len c_string_append [OF nz] by (simp add: print_dec_into_def)
  qed
  then show ?thesis using store_at_fits [of 0 "decimal (unat v) @ [NUL]" numbuf] len assms c_string_append [OF nz] by simp
qed

lemma dec_line_fits:
  assumes "length line = 64" "length numbuf = 21" "NUL \<notin> set prefix"
  shows "\<exists>b. dec_line prefix v numbuf line = Some b \<and> c_string b = take 40 prefix @ decimal (unat v) @ CRLF"
proof -
  obtain p r where c: "copy_prefix 0 prefix line = Some (length p, p @ r)" "p = take 40 prefix" "24 \<le> length r"
    using prefix_next [OF assms(1)] .
  obtain b where b: "print_dec_into v numbuf = Some b" "c_string b = decimal (unat v)"
    using dec_into_fits [OF assms(2)] by blast
  let ?d = "decimal (unat v)"
  let ?s = "p @ ?d @ CRLF"
  have len: "length ?d \<le> 20" by (rule length_decimal_u64)
  have "store_at (length p) ?d (p @ r) = Some ((p @ ?d) @ drop (length ?d) r)"
    using store_next [of "length p" p ?d r] c(3) len by simp
  moreover have "store_at (length p + length ?d) (CRLF @ [NUL]) ((p @ ?d) @ drop (length ?d) r) =
      Some (?s @ NUL # drop (length ?d + 3) r)"
    using store_next [of "length p + length ?d" "p @ ?d" "CRLF @ [NUL]" "drop (length ?d) r"] c(3) len
    by (simp add: add.commute numeral_3_eq_3 del: store_at.simps)
  ultimately have "dec_line prefix v numbuf line = Some (?s @ NUL # drop (length ?d + 3) r)"
    by (simp add: dec_line_def c(1) b del: store_at.simps append_assoc)
  moreover have z: "char_of (0 :: nat) = NUL" by code_simp
  have "\<forall>ch \<in> set ?s. ch \<noteq> NUL" using assms(3) decimal_nonzero c(2) by (auto dest: in_set_takeD simp: z)
  ultimately show ?thesis using c_string_append [of ?s] c(2) by auto
qed

lemma uart_puts_returns:
  assumes "locks k Uart_lock = 0" and "uart_live k"
  shows "\<exists>l. uart_puts c s k = Some (k\<lparr>io_log := io_log k @ l\<rparr>) \<and> uart_sent l = map of_char s"
proof -
  let ?k0 = "upd_regs c (\<lambda>r. r\<lparr>daif := daif r OR DAIF_I\<rparr>) k\<lparr>locks := (locks k)(Uart_lock := 1)\<rparr>"
  have "uart_live ?k0" using assms(2) by (simp add: uart_live_def)
  from uart_emit_returns [OF this, of s] obtain l where
    l: "uart_emit s ?k0 = Some (?k0\<lparr>io_log := io_log k @ l\<rparr>)" "uart_sent l = map of_char s" by auto
  have "uart_puts c s k = Some (spin_unlock_irqrestore c Uart_lock (daif (regs k c)) (?k0\<lparr>io_log := io_log k @ l\<rparr>))"
    using l(1) assms(1) by (simp add: uart_puts_def spin_lock_irqsave_free)
  then show ?thesis using l(2) unlock_after_lock [OF assms(1), of c] by auto
qed

lemma print_hexline_returns:
  assumes "locks k Uart_lock = 0" "uart_live k" "NUL \<notin> set prefix"
  shows "\<exists>l. print_hexline c prefix v k = Some (k\<lparr>io_log := io_log k @ l\<rparr>) \<and>
     uart_sent l = map of_char (take 40 prefix @ ''0x'' @ hexadecimal v @ CRLF)"
proof -
  obtain b where "hex_line prefix v (replicate 64 NUL) = Some b"
    "c_string b = take 40 prefix @ ''0x'' @ hexadecimal v @ CRLF" using hex_line_fits [of "replicate 64 NUL", OF _ assms(3)] by auto
  then show ?thesis using uart_puts_returns [OF assms(1,2), of c "c_string b"] by (simp add: print_hexline_def)
qed

lemma print_decline_returns:
  assumes "locks k Uart_lock = 0" "uart_live k" "NUL \<notin> set prefix"
  shows "\<exists>l. print_decline c prefix v k = Some (k\<lparr>io_log := io_log k @ l\<rparr>) \<and>
     uart_sent l = map of_char (take 40 prefix @ decimal (unat v) @ CRLF)"
proof -
  obtain b where "dec_line prefix v (replicate 21 NUL) (replicate 64 NUL) = Some b"
    "c_string b = take 40 prefix @ decimal (unat v) @ CRLF" using dec_line_fits [of "replicate 64 NUL" "replicate 21 NUL", OF _ _ assms(3)] by auto
  then show ?thesis using uart_puts_returns [OF assms(1,2), of c "c_string b"] by (simp add: print_decline_def)
qed

section \<open>Reports\<close>

definition uart_ready :: "'z kernel_scheme \<Rightarrow> bool" where
  "uart_ready k \<longleftrightarrow> locks k Uart_lock = 0 \<and> uart_live k"

lemma uart_ready_did [simp]: "uart_ready (did l k) = uart_ready k"
  by (simp add: uart_ready_def uart_live_def did_def)

text \<open>\<open>r\<close> is what became of \<open>k\<close> after the accesses \<open>l\<close>: it came back, as \<open>h\<close> of the state, sent exactly \<open>s\<close> and changed nothing but
  the history of accesses.\<close>

definition sends :: "('z kernel_scheme \<Rightarrow> 'r) \<Rightarrow> 'z kernel_scheme \<Rightarrow> io list \<Rightarrow> 'r option \<Rightarrow> string \<Rightarrow> bool" where
  "sends h k l r s \<longleftrightarrow> (\<exists>l'. r = Some (h (did (l @ l') k)) \<and> uart_sent l' = map of_char s)"

lemma sendsI:
  assumes "\<And>k'. uart_ready k' \<Longrightarrow> \<exists>l. f k' = Some (k'\<lparr>io_log := io_log k' @ l\<rparr>) \<and> uart_sent l = map of_char s" and "uart_ready k"
  shows "sends (\<lambda>k. k) k l (f (did l k)) s"
  using assms(1) [of "did l k"] assms(2) unfolding did_def [symmetric] sends_def by simp

lemma sends_Some [intro]: "sends h k l (Some (h (did l k))) []"
  by (auto simp: sends_def intro: exI [of _ "[]"])

lemma sends_bind:
  assumes "sends (\<lambda>k. k) k l r s" "\<And>l. sends h k l (g (did l k)) s'"
  shows "sends h k l (r \<bind> g) (s @ s')"
proof -
  obtain l1 where l1: "r = Some (did (l @ l1) k)" "uart_sent l1 = map of_char s" using assms(1) unfolding sends_def by blast
  obtain l2 where "g (did (l @ l1) k) = Some (h (did ((l @ l1) @ l2) k))" "uart_sent l2 = map of_char s'"
    using assms(2) [of "l @ l1"] unfolding sends_def by blast
  with l1 show ?thesis unfolding sends_def by (intro exI [of _ "l1 @ l2"]) simp
qed

text \<open>A loop that prints the elements of a list one after the other.\<close>

fun print_each :: "('a \<Rightarrow> 'z kernel_scheme \<Rightarrow> 'z kernel_scheme option) \<Rightarrow> 'a list \<Rightarrow> 'z kernel_scheme \<Rightarrow> 'z kernel_scheme option" where
  "print_each f [] k = Some k"
| "print_each f (x # xs) k = do { k \<leftarrow> f x k; print_each f xs k }"

text \<open>The interface of a printer: what it is given, what of that is printable, and what it shows.\<close>

locale printer =
  fixes emit :: "nat \<Rightarrow> 'a \<Rightarrow> 'z kernel_scheme \<Rightarrow> 'z kernel_scheme option"
    and printable :: "'a \<Rightarrow> bool" and shown :: "'a \<Rightarrow> string"
  assumes emit_sends: "uart_ready k \<Longrightarrow> printable x \<Longrightarrow> sends (\<lambda>k. k) k l (emit c x (did l k)) (shown x)"
begin

lemma then_sends:
  assumes "uart_ready k" "printable x" "\<And>l. sends h k l (g (did l k)) s"
  shows "sends h k l (emit c x (did l k) \<bind> g) (shown x @ s)"
  using assms by (intro sends_bind emit_sends)

lemma each_sends:
  assumes "uart_ready k" "list_all printable xs"
  shows "sends (\<lambda>k. k) k l (print_each (emit c) xs (did l k)) (concat (map shown xs))"
  using assms(2)
proof (induction xs arbitrary: l)
  case Nil
  then show ?case by (simp add: sends_Some [where h = "\<lambda>k. k"])
next
  case (Cons x xs)
  then show ?case by (simp add: then_sends [OF assms(1)])
qed

end

definition hex_text :: "string \<Rightarrow> u64 \<Rightarrow> string" where
  "hex_text p v = take 40 p @ ''0x'' @ hexadecimal v @ CRLF"

definition dec_text :: "string \<Rightarrow> u64 \<Rightarrow> string" where
  "dec_text p v = take 40 p @ decimal (unat v) @ CRLF"

definition klog_text :: "string \<Rightarrow> u64 \<Rightarrow> bool \<Rightarrow> string \<Rightarrow> string" where
  "klog_text p v b s = p @ (if b then decimal (unat v) else []) @ s"

interpretation puts: printer uart_puts "\<lambda>_. True" "\<lambda>s. s"
  by unfold_locales (rule sendsI, rule uart_puts_returns, simp_all add: uart_ready_def)

interpretation hexline: printer "\<lambda>c (p, v). print_hexline c p v" "\<lambda>(p, v). NUL \<notin> set p" "\<lambda>(p, v). hex_text p v"
  by unfold_locales
    (clarsimp simp: hex_text_def simp del: append.simps, rule sendsI, rule print_hexline_returns, simp_all add: uart_ready_def)

interpretation decline: printer "\<lambda>c (p, v). print_decline c p v" "\<lambda>(p, v). NUL \<notin> set p" "\<lambda>(p, v). dec_text p v"
  by unfold_locales (clarsimp simp: dec_text_def, rule sendsI, rule print_decline_returns, simp_all add: uart_ready_def)

interpretation klogline: printer "\<lambda>c (p, v, b, s). klog c p v b s" "\<lambda>_. True" "\<lambda>(p, v, b, s). klog_text p v b s"
  by unfold_locales (clarsimp simp: klog_text_def split del: if_split, rule sendsI, rule klog_returns, simp_all add: uart_ready_def)

interpretation hexdigits: printer put_hex "\<lambda>_. True" "\<lambda>v. ''0x'' @ hexadecimal v"
proof
  fix k :: "'b kernel_scheme" and l v c
  assume k: "uart_ready k"
  have "sends (\<lambda>k. k) k l' (uart_emit (hexadecimal v) (did l' k)) (hexadecimal v)" for l'
    by (rule sendsI [OF _ k]) (rule uart_emit_returns, simp add: uart_ready_def)
  from puts.then_sends [OF k TrueI this] show "sends (\<lambda>k. k) k l (put_hex c v (did l k)) (''0x'' @ hexadecimal v)"
    unfolding put_hex_def put_hex_digits .
qed

text \<open>The reports of the kernel are put together from these.\<close>

lemmas hexline_then = hexline.then_sends [where x = "(p, v)" for p v, unfolded prod.case]
lemmas decline_then = decline.then_sends [where x = "(p, v)" for p v, unfolded prod.case]
lemmas puts_then = puts.then_sends [OF _ TrueI]
lemmas klog_then = klogline.then_sends [where x = "(p, v, b, s)" for p v b s, OF _ TrueI, unfolded prod.case]

section \<open>Properties\<close>

text \<open>C36: the line printers stay inside their buffers. Whatever the 64-byte line and the 21-byte number buffer held
  before, for every prefix and every 64-bit value no store leaves them, and the line is exactly the
  first 40 characters of the prefix, the number and the line end; both notations read back as the value.\<close>

theorem print_line_bounds:
  assumes "length line = 64" "length numbuf = 21" "NUL \<notin> set prefix"
  shows "(\<exists>b. hex_line prefix v line = Some b \<and> c_string b = take 40 prefix @ ''0x'' @ hexadecimal v @ CRLF) \<and>
     (\<exists>b. dec_line prefix v numbuf line = Some b \<and> c_string b = take 40 prefix @ decimal (unat v) @ CRLF) \<and>
     parse_hexadecimal (hexadecimal v) = unat v \<and> parse_decimal (decimal (unat v)) = unat v"
  using hex_line_fits [OF assms(1,3)] dec_line_fits [OF assms]
    parse_hexadecimal_hexadecimal parse_decimal_decimal by blast

theorem print_line_bounds_witness:
  "\<exists>b. dec_line ''BUSY TASK ewma='' 997 (replicate 21 NUL) (replicate 64 (CHR ''x'')) = Some b \<and>
     c_string b = ''BUSY TASK ewma='' @ decimal 997 @ CRLF"
  using print_line_bounds [of "replicate 64 (CHR ''x'')" "replicate 21 NUL" "''BUSY TASK ewma=''" 997] by simp

end
