(* ===== verification/Irq.thy ===== *)
theory Irq
  imports Dispatch Gic Print
begin

text \<open>
  Interrupt handling (\<open>kernel/main.c\<close>): \<open>irq_handler\<close>, which \<open>vectors.S\<close> calls on every CPU with
  interrupts masked, and \<open>secondary_irq\<close>. What the handler does is run to its end, or to the switch to
  another task; a task that is switched to goes on from its own saved state. \<open>lb\<close> says whether the
  build defines \<open>LOAD_BALANCE_SELFTEST\<close>; the code under \<open>DEBUG_HOOKS\<close> is left out.
\<close>

section \<open>The handlers\<close>

definition TIMER_IRQ_ID :: u32 where "TIMER_IRQ_ID = 30"
definition DMA_ACCEL_IRQ_ID :: u32 where "DMA_ACCEL_IRQ_ID = 37"

definition timer_rearm :: "u64 \<Rightarrow> 'z kernel_scheme \<Rightarrow> 'z kernel_scheme" where
  "timer_rearm ticks k = (let k = io_write (Cntp_tval ticks) k in io_write (Cntp_ctl 1) k)"

abbreviation upd_this :: "nat \<Rightarrow> (cpu_local \<Rightarrow> cpu_local) \<Rightarrow> 'z kernel_scheme \<Rightarrow> 'z kernel_scheme" where
  "upd_this c f k \<equiv> upd_local (tpidr (regs k c)) f k"

text \<open>\<open>dma_irq_count[i]++\<close>.\<close>

definition count_dma_irq :: "nat \<Rightarrow> 'z main_state_scheme \<Rightarrow> 'z main_state_scheme option" where
  "count_dma_irq i k =
    (if i < length (dma_irq_count k)
     then Some (k\<lparr>dma_irq_count := (dma_irq_count k)[i := dma_irq_count k ! i + 1]\<rparr>) else None)"

text \<open>The branch for the accelerator's interrupt, the same on every CPU.\<close>

definition dma_irq :: "nat \<Rightarrow> u32 \<Rightarrow> 'z main_state_scheme \<Rightarrow> 'z main_state_scheme option" where
  "dma_irq c irq k = do {
     let (status, k) = accel_irq_status k;
     k \<leftarrow> (if status AND IRQ_DMA_DONE \<noteq> 0 then
             (let k = accel_irq_ack IRQ_DMA_DONE k in dispatch_available_completions c k)
           else Some k);
     Some (gic_eoi irq k) }"

definition secondary_irq :: "nat \<Rightarrow> u32 \<Rightarrow> 'z main_state_scheme \<Rightarrow> 'z main_state_scheme option" where
  "secondary_irq c irq k =
    (if irq \<ge> 1020 then Some k
     else if irq = TIMER_IRQ_ID then do {
       let k = upd_this c (\<lambda>l. l\<lparr>irq_count := irq_count l + 1\<rparr>) k;
       let k = timer_rearm (tick_freq k div 2000) k;
       let k = sched_on_tick c k;
       (n, k) \<leftarrow> pick_next_ready c k;
       let k = upd_this c (\<lambda>l. l\<lparr>sched_calls := sched_calls l + 1\<rparr>) k;
       let k = gic_eoi irq k;
       Some (if n \<noteq> current c k then
               (let prev = current c k;
                    k = set_current c n k;
                    k = upd_this c (\<lambda>l. l\<lparr>context_switches := context_switches l + 1\<rparr>) k
                in switch_to c prev (tcb_sp (tcbs k n)) k)
             else k) }
     else if irq = DMA_ACCEL_IRQ_ID then do {
       k \<leftarrow> count_dma_irq (my_id c k) k;
       dma_irq c irq k }
     else Some (gic_eoi irq k))"

text \<open>The timer branch of CPU 0: selection, with the end of the interrupt and the balancing pass, and the switch.\<close>

definition primary_select :: "bool \<Rightarrow> nat \<Rightarrow> u32 \<Rightarrow> 'z main_state_scheme \<Rightarrow> (u64 \<times> 'z main_state_scheme) option" where
  "primary_select lb c irq k = do {
     let k = timer_rearm (tick_freq k div 2000) k;
     let k = sched_on_tick c k;
     (nxt, k) \<leftarrow> pick_next_ready c k;
     let k = gic_eoi irq k;
     k \<leftarrow> (if lb then
             (let k = k\<lparr>lb_tick_count := lb_tick_count k + 1\<rparr> in
              if lb_tick_count k \<ge> 200 then
                (let k = k\<lparr>lb_tick_count := 0\<rparr> in sched_load_balance_pass c k)
              else Some k)
           else Some k);
     Some (nxt, k) }"

definition primary_tick :: "bool \<Rightarrow> nat \<Rightarrow> u32 \<Rightarrow> 'z main_state_scheme \<Rightarrow> 'z main_state_scheme option" where
  "primary_tick lb c irq k = do {
     let k = upd_this c (\<lambda>l. l\<lparr>irq_count := irq_count l + 1\<rparr>) k;
     (nxt, k) \<leftarrow> primary_select lb c irq k;
     Some (if nxt \<noteq> current c k then
             (let prev = current c k; k = set_current c nxt k
              in switch_to c prev (tcb_sp (tcbs k nxt)) k)
           else k) }"

definition irq_handler :: "bool \<Rightarrow> nat \<Rightarrow> 'z main_state_scheme \<Rightarrow> 'z main_state_scheme option" where
  "irq_handler lb c k =
    (let (irq, k) = gic_ack k in
     if my_id c k \<noteq> 0 then secondary_irq c irq k
     else if irq = TIMER_IRQ_ID then primary_tick lb c irq k
     else if irq = DMA_ACCEL_IRQ_ID then do { k \<leftarrow> count_dma_irq 0 k; dma_irq c irq k }
     else Some (gic_eoi irq k))"

definition dma_irq_report :: "nat \<Rightarrow> 'z main_state_scheme \<Rightarrow> 'z main_state_scheme option" where
  "dma_irq_report c k = do {
     k \<leftarrow> print_decline c ''DMA IRQ c0='' (dma_irq_count k ! 0) k;
     k \<leftarrow> print_decline c ''DMA IRQ c1='' (dma_irq_count k ! 1) k;
     k \<leftarrow> print_decline c ''DMA IRQ c2='' (dma_irq_count k ! 2) k;
     print_decline c ''DMA IRQ c3='' (dma_irq_count k ! 3) k }"

section \<open>The timer interrupt\<close>

text \<open>What every CPU does before it selects: count, re-arm, account the load.\<close>

definition irq_ticked :: "nat \<Rightarrow> 'z main_state_scheme \<Rightarrow> 'z main_state_scheme" where
  "irq_ticked c k = sched_on_tick c (timer_rearm (tick_freq k div 2000)
     (upd_this c (\<lambda>l. l\<lparr>irq_count := irq_count l + 1\<rparr>) (snd (gic_ack k))))"

lemma on_tick_frame [simp]:
  "io_log (sched_on_tick c k) = io_log k" "regs (sched_on_tick c k) = regs k" "mem (sched_on_tick c k) = mem k"
  "cpu_locals (sched_on_tick c k) = cpu_locals k" "runqueues (sched_on_tick c k) = runqueues k"
  "locks (sched_on_tick c k) = locks k" "dev (sched_on_tick c k) = dev k"
  "tcb_sp (tcbs (sched_on_tick c k) t) = tcb_sp (tcbs k t)" "tcb_state (tcbs (sched_on_tick c k) t) = tcb_state (tcbs k t)"
  by (cases "active_policy k"; simp add: sched_on_tick_def ewma_on_tick_def)+

lemma irq_ticked_frame:
  "io_log (irq_ticked c k) = io_log k @ [Rd32 GICC_IAR, Cntp_tval (tick_freq k div 2000), Cntp_ctl 1]"
  "regs (irq_ticked c k) = regs k" "mem (irq_ticked c k) = mem k"
  "tcb_sp (tcbs (irq_ticked c k) t) = tcb_sp (tcbs k t)"
  "current c (irq_ticked c k) = current c k" "my_id c (irq_ticked c k) = my_id c k"
  "irq_count (this_cpu c (irq_ticked c k)) = irq_count (this_cpu c k) + 1"
  by (simp_all add: irq_ticked_def timer_rearm_def io_write_def gic_ack_def read32_def current_def this_cpu_def)

lemma irq_ticked_ok:
  assumes "sched_ok k"
  shows "sched_ok (irq_ticked c k)"
  unfolding irq_ticked_def
  by (rule tick_ok, rule sched_ok_cong [OF assms]) (simp_all add: timer_rearm_def io_write_def gic_ack_def read32_def)

text \<open>The end of the tick: the interrupt is completed, then the CPU goes on with \<open>t\<close>.\<close>

definition goes_on :: "nat \<Rightarrow> 'z main_state_scheme \<Rightarrow> u64 \<Rightarrow> 'z main_state_scheme \<Rightarrow> bool" where
  "goes_on c k t k' \<longleftrightarrow>
     (if t = current c k then regs k' = regs k \<and> mem k' = mem k
      else (\<exists>k2. k' = switch_to c (current c k) (tcb_sp (tcbs k t)) k2 \<and> regs k2 = regs k \<and> mem k2 = mem k \<and> current c k2 = t \<and>
        io_log k2 = io_log k @ [Rd32 GICC_IAR, Cntp_tval (tick_freq k div 2000), Cntp_ctl 1, Wr32 GICC_EOIR TIMER_IRQ_ID])) \<and>
     current c k' = t \<and>
     io_log k' = io_log k @ [Rd32 GICC_IAR, Cntp_tval (tick_freq k div 2000), Cntp_ctl 1, Wr32 GICC_EOIR TIMER_IRQ_ID] \<and>
     irq_count (this_cpu c k') = irq_count (this_cpu c k) + 1"

lemma irq_timer_primary:
  assumes "my_id c k = 0" and "fst (gic_ack k) = TIMER_IRQ_ID" and "pick_next_ready c (irq_ticked c k) = Some (t, k1)"
  defines "k2 \<equiv> gic_eoi TIMER_IRQ_ID k1"
  shows "irq_handler False c k = Some (if t \<noteq> current c k2
     then switch_to c (current c k2) (tcb_sp (tcbs (set_current c t k2) t)) (set_current c t k2) else k2)"
proof -
  have "my_id c (snd (gic_ack k)) = 0" "tick_freq (snd (gic_ack k)) = tick_freq k"
    using assms(1) by (simp_all add: gic_ack_def read32_def this_cpu_def)
  then show ?thesis using assms(2,3) unfolding irq_handler_def primary_tick_def primary_select_def irq_ticked_def k2_def Let_def by (simp add: split_beta)
qed

lemma irq_timer_secondary:
  assumes "my_id c k \<noteq> 0" and "fst (gic_ack k) = TIMER_IRQ_ID" and "pick_next_ready c (irq_ticked c k) = Some (t, k1)"
  defines "k2 \<equiv> gic_eoi TIMER_IRQ_ID (upd_this c (\<lambda>l. l\<lparr>sched_calls := sched_calls l + 1\<rparr>) k1)"
  defines "k3 \<equiv> upd_this c (\<lambda>l. l\<lparr>context_switches := context_switches l + 1\<rparr>) (set_current c t k2)"
  shows "irq_handler False c k = Some (if t \<noteq> current c k2 then switch_to c (current c k2) (tcb_sp (tcbs k3 t)) k3 else k2)"
proof -
  have "my_id c (snd (gic_ack k)) \<noteq> 0" "tick_freq (snd (gic_ack k)) = tick_freq k"
    using assms(1) by (simp_all add: gic_ack_def read32_def this_cpu_def)
  moreover have "\<not> 1020 \<le> TIMER_IRQ_ID" by (simp add: TIMER_IRQ_ID_def)
  ultimately show ?thesis using assms(2,3)
    unfolding irq_handler_def secondary_irq_def irq_ticked_def k3_def k2_def Let_def by (simp add: split_beta)
qed

lemmas local_defs = current_def this_cpu_def set_current_def gic_eoi_def io_write_def

lemma irq_timer_result:
  assumes ok: "sched_ok k" and c: "c < MAX_CPUS" and irq: "fst (gic_ack k) = TIMER_IRQ_ID"
  shows "\<exists>t k1 k'. picks c (irq_ticked c k) t k1 \<and> irq_handler False c k = Some k' \<and> goes_on c k t k' \<and> sched_ok k'"
proof -
  let ?k = "irq_ticked c k"
  have ok0: "sched_ok ?k" by (rule irq_ticked_ok [OF ok])
  obtain t k1 where p: "pick_next_ready c ?k = Some (t, k1)" "picks c ?k t k1"
    using pick_next_ready_picks [OF sched_ok_this [OF ok0 c]] by blast
  note fr = picks_frame [OF p(2)] and tk = irq_ticked_frame [where k = k and c = c]
  have ok1: "sched_ok k1" by (rule picks_ok [OF ok0 p(2) c])
  have cur: "current c k1 = current c k" using fr(7) tk(5) by simp
  have ic: "irq_count (this_cpu c k1) = irq_count (this_cpu c k) + 1" using fr(8) tk(7) by simp
  show ?thesis
  proof (cases "my_id c k = 0")
    case True
    let ?e = "gic_eoi TIMER_IRQ_ID k1"
    let ?r = "if t \<noteq> current c ?e then switch_to c (current c ?e) (tcb_sp (tcbs (set_current c t ?e) t)) (set_current c t ?e) else ?e"
    have "irq_handler False c k = Some ?r" using irq_timer_primary [OF True irq p(1)] .
    moreover have "sched_ok ?e" by (rule sched_ok_cong [OF ok1]) (simp_all add: local_defs)
    then have "sched_ok ?r" by (simp add: switch_to_ok set_current_ok)
    moreover have "goes_on c k t ?r"
      using cur ic fr tk by (auto simp: goes_on_def local_defs frame_simps intro!: exI [of _ "set_current c t ?e"])
    ultimately show ?thesis using p(2) by blast
  next
    case False
    let ?e = "gic_eoi TIMER_IRQ_ID (upd_this c (\<lambda>l. l\<lparr>sched_calls := sched_calls l + 1\<rparr>) k1)"
    let ?s = "upd_this c (\<lambda>l. l\<lparr>context_switches := context_switches l + 1\<rparr>) (set_current c t ?e)"
    let ?r = "if t \<noteq> current c ?e then switch_to c (current c ?e) (tcb_sp (tcbs ?s t)) ?s else ?e"
    have "irq_handler False c k = Some ?r" using irq_timer_secondary [OF False irq p(1)] .
    moreover have e: "sched_ok ?e" by (rule sched_ok_cong [OF ok1]) (simp_all add: local_defs)
    have "sched_ok ?s" by (rule sched_ok_cong [OF e]) (simp_all add: local_defs)
    with e have "sched_ok ?r" by (simp add: switch_to_ok)
    moreover have "goes_on c k t ?r"
      using cur ic fr tk by (auto simp: goes_on_def local_defs frame_simps intro!: exI [of _ ?s])
    ultimately show ?thesis using p(2) by blast
  qed
qed

section \<open>The other interrupts\<close>

lemma irq_dma_result:
  assumes ok: "sync_ok k" "pending_ok k" "locks k Accel_lock = 0" and rest: "cq_rest t ring k"
    and status: "ucast (dev k (io_log k) (reg_addr REG_IRQ_STATUS k)) AND IRQ_DMA_DONE \<noteq> (0 :: u32)"
  shows "\<exists>k'. dma_irq c irq k = Some k' \<and> sync_ok k' \<and> pending_ok k' \<and> last (io_log k') = Wr32 GICC_EOIR irq \<and>
     dispatched (cq_slots ring (cq_head_local k) (min NUM_WORKERS (cq_waiting t k))) k k'"
proof -
  let ?k = "k\<lparr>io_log := io_log k @ [Rd32 (reg_addr REG_IRQ_STATUS k), Wr32 (reg_addr REG_IRQ_STATUS k) IRQ_DMA_DONE]\<rparr>"
  let ?cms = "cq_slots ring (cq_head_local k) (min NUM_WORKERS (cq_waiting t k))"
  have "sched_ok k" using ok(1) by (simp add: sync_ok_def)
  then have "sched_ok ?k" by (rule sched_ok_cong) simp_all
  then have s: "sync_ok ?k" using ok(1) by (simp add: sync_ok_def)
  have "pending_ok ?k" by (rule pending_ok_cong [OF ok(2)]) simp_all
  moreover have "locks ?k Accel_lock = 0" "cq_rest t ring ?k" using ok(3) rest by simp_all
  ultimately obtain k' where k': "dispatch_available_completions c ?k = Some k'" "pending_ok k'" "dispatched ?cms ?k k'"
    using dispatch_result [OF s] by force
  have d: "dispatched ?cms k (gic_eoi irq k')"
    using k'(3) by (simp add: dispatched_def served_def gic_eoi_def io_write_def cong: if_cong)
  have "dma_irq c irq k = Some (gic_eoi irq k')" using status k'(1)
    by (simp add: dma_irq_def accel_irq_status_def accel_irq_ack_def reg_read_def read32_def reg_write_def io_write_def Let_def)
  moreover have "pending_ok (gic_eoi irq k')"
    by (rule pending_ok_cong [OF k'(2)]) (simp_all add: gic_eoi_def io_write_def)
  moreover have "last (io_log (gic_eoi irq k')) = Wr32 GICC_EOIR irq" by (simp add: gic_eoi_def io_write_def)
  ultimately show ?thesis using d sync_ok_dispatched [OF ok(1) d] by blast
qed

lemma irq_handler_dma:
  assumes "percpu_ok k" "c < MAX_CPUS" and "fst (gic_ack k) = DMA_ACCEL_IRQ_ID" and "length (dma_irq_count k) = MAX_CPUS"
  shows "irq_handler lb c k = dma_irq c DMA_ACCEL_IRQ_ID
     (k\<lparr>io_log := io_log k @ [Rd32 GICC_IAR], dma_irq_count := (dma_irq_count k)[c := dma_irq_count k ! c + 1]\<rparr>)"
proof -
  have "my_id c k = c" using percpu_simps [OF assms(1,2)] by simp
  then show ?thesis using assms(2-4)
    by (simp add: irq_handler_def secondary_irq_def count_dma_irq_def gic_ack_def read32_def this_cpu_def
        DMA_ACCEL_IRQ_ID_def TIMER_IRQ_ID_def)
qed

lemma irq_handler_other:
  assumes "percpu_ok k" "c < MAX_CPUS" and "fst (gic_ack k) = irq" "irq \<noteq> TIMER_IRQ_ID" "irq \<noteq> DMA_ACCEL_IRQ_ID"
  shows "irq_handler lb c k = Some (k\<lparr>io_log := io_log k @
     (if c \<noteq> 0 \<and> 1020 \<le> irq then [Rd32 GICC_IAR] else [Rd32 GICC_IAR, Wr32 GICC_EOIR irq])\<rparr>)"
proof -
  have "my_id c k = c" using percpu_simps [OF assms(1,2)] by simp
  then show ?thesis using assms(3-)
    by (auto simp: irq_handler_def secondary_irq_def gic_ack_def read32_def this_cpu_def gic_eoi_def io_write_def)
qed

section \<open>What the other interrupts leave alone\<close>

text \<open>Registers of the CPUs, memory and current tasks are the same afterwards: nothing on the way of a device interrupt switches.\<close>

definition same_cpus :: "'z kernel_scheme \<Rightarrow> 'z kernel_scheme \<Rightarrow> bool" where
  "same_cpus k k' \<longleftrightarrow> regs k' = regs k \<and> mem k' = mem k \<and> cpu_locals k' = cpu_locals k"

lemma same_cpus_trans: "same_cpus k k' \<Longrightarrow> same_cpus k' k'' \<Longrightarrow> same_cpus k k''"
  by (simp add: same_cpus_def)

lemma critical_same:
  assumes "spin_lock_irqsave c l k = Some (f, k0)" and "same_cpus k0 k1"
  shows "same_cpus k (spin_unlock_irqrestore c l f k1)"
  using assms by (auto simp: spin_lock_irqsave_Some same_cpus_def spin_unlock_irqrestore_def spin_unlock_def irq_restore_def)

lemma sched_wake_same: "sched_wake c t k = Some k' \<Longrightarrow> same_cpus k k'"
  by (auto simp: sched_wake_def spin_lock_irqsave_Some Option.bind_eq_Some_conv Let_def spin_unlock_irqrestore_def spin_unlock_def irq_restore_def
      dsb_sev_def io_write_def same_cpus_def)

lemma sem_post_same:
  assumes "sem_post c s k = Some k'"
  shows "same_cpus k k'"
proof -
  from assms obtain f k0 k1 where l: "spin_lock_irqsave c (Sem_lock s) k = Some (f, k0)" and k': "k' = spin_unlock_irqrestore c (Sem_lock s) f k1"
    and k1: "(if sem_waiter (sems k0 s) \<noteq> NULL then sched_wake c (sem_waiter (sems k0 s)) (upd_sem s (\<lambda>x. x\<lparr>sem_waiter := NULL\<rparr>) k0)
       else if sem_count (sems k0 s) = INT_MAX then None else Some (upd_sem s (\<lambda>x. x\<lparr>sem_count := sem_count x + 1\<rparr>) k0)) = Some k1"
    unfolding sem_post_def Let_def by (fastforce simp only: Option.bind_eq_Some_conv option.inject split: prod.splits)
  have "same_cpus k0 k1" using k1 by (auto simp: same_cpus_def split: if_splits dest!: sched_wake_same)
  then show ?thesis unfolding k' by (rule critical_same [OF l])
qed

lemma dispatch_all_same: "dispatch_all c cms k = Some k' \<Longrightarrow> same_cpus k k'"
proof (induction cms arbitrary: k)
  case Nil
  then show ?case by (simp add: same_cpus_def)
next
  case (Cons cm cms)
  then obtain k1 where k1: "dispatch_one c cm k = Some k1" "dispatch_all c cms k1 = Some k'" by (auto simp: Option.bind_eq_Some_conv)
  have "same_cpus k k1" using k1(1) sem_post_same
    by (fastforce simp: dispatch_one_def same_cpus_def Let_def split: option.splits)
  then show ?case using Cons.IH [OF k1(2)] by (rule same_cpus_trans)
qed

lemma drain_multi_same: "same_cpus k (snd (accel_drain_multi out n k))"
  by (induction out n k rule: accel_drain_multi.induct)
    (subst accel_drain_multi.simps, auto simp: same_cpus_def cq_take_def reg_read_def read32_def reg_write_def io_write_def Let_def split_def)

lemma dispatch_available_same:
  assumes "dispatch_available_completions c k = Some k'"
  shows "same_cpus k k'"
proof -
  from assms obtain f k0 k1 where l: "spin_lock_irqsave c Accel_lock k = Some (f, k0)" and k': "k' = spin_unlock_irqrestore c Accel_lock f k1"
    and k1: "dispatch_all c (fst (accel_drain_completions_multi NUM_WORKERS k0)) (snd (accel_drain_completions_multi NUM_WORKERS k0)) = Some k1"
    unfolding dispatch_available_completions_def Let_def by (fastforce simp: Option.bind_eq_Some_conv split_def)
  have "same_cpus k0 k1"
    using same_cpus_trans [OF drain_multi_same dispatch_all_same [OF k1 [unfolded accel_drain_completions_multi_def]]] .
  then show ?thesis unfolding k' by (rule critical_same [OF l])
qed

lemma dma_irq_same: "dma_irq c irq k = Some k' \<Longrightarrow> same_cpus k k'"
  using dispatch_available_same
  by (fastforce simp: dma_irq_def accel_irq_status_def accel_irq_ack_def reg_read_def read32_def reg_write_def io_write_def gic_eoi_def
      Option.bind_eq_Some_conv Let_def same_cpus_def split: if_splits)

lemma other_irq_same:
  assumes "irq_handler lb c k = Some k'" and "fst (gic_ack k) \<noteq> TIMER_IRQ_ID"
  shows "same_cpus k k'"
proof -
  have ack: "same_cpus k (snd (gic_ack k))" by (simp add: gic_ack_def read32_def same_cpus_def)
  have eoi: "same_cpus k1 (gic_eoi i k1)" for k1 :: "'a main_state_scheme" and i by (simp add: gic_eoi_def io_write_def same_cpus_def)
  have dma: "same_cpus k1 k'" if "do { k \<leftarrow> count_dma_irq j k1; dma_irq c i k } = Some k'" for k1 i j
    using that dma_irq_same by (fastforce simp: count_dma_irq_def same_cpus_def split: if_splits)
  show ?thesis using assms ack eoi dma
    by (auto simp: irq_handler_def secondary_irq_def split_def Let_def same_cpus_def split: if_splits)
qed

section \<open>Properties\<close>

text \<open>C12: the timer tick. On every CPU a timer interrupt counts one tick, re-arms the timer, selects by the policy and
  signals the end of the interrupt before it gives up the CPU; then the selected task is current, and either
  the interrupted task goes on with its registers and stack untouched, or the CPU is switched to the
  saved context of the selected one. Run queues, per-CPU data and locks stay in order.\<close>

theorem irq_timer_tick:
  assumes "sched_ok k" and "c < MAX_CPUS" and "fst (gic_ack k) = TIMER_IRQ_ID"
  shows "\<exists>t k1 k'. picks c (irq_ticked c k) t k1 \<and> irq_handler False c k = Some k' \<and> goes_on c k t k' \<and> sched_ok k'"
  using assms by (rule irq_timer_result)

text \<open>C13: the other interrupts. The accelerator's interrupt, on whichever CPU it arrives, is counted there, dispatches the
  completions that wait, each to its task, and is completed last. Any other interrupt changes nothing; it is completed,
  except that a secondary CPU does not complete a spurious one, while CPU 0 does.\<close>

theorem irq_device_spec:
  assumes "sync_ok k" "pending_ok k" "locks k Accel_lock = 0" "cq_rest t ring k" "length (dma_irq_count k) = MAX_CPUS" "c < MAX_CPUS"
  shows "(fst (gic_ack k) = DMA_ACCEL_IRQ_ID \<and>
       ucast (dev k (io_log k @ [Rd32 GICC_IAR]) (reg_addr REG_IRQ_STATUS k)) AND IRQ_DMA_DONE \<noteq> (0 :: u32) \<longrightarrow>
     (\<exists>k'. irq_handler lb c k = Some k' \<and> sync_ok k' \<and> pending_ok k' \<and>
        dma_irq_count k' = (dma_irq_count k)[c := dma_irq_count k ! c + 1] \<and>
        last (io_log k') = Wr32 GICC_EOIR DMA_ACCEL_IRQ_ID \<and>
        pending k' = map (deliver (cq_slots ring (cq_head_local k) (min NUM_WORKERS (cq_waiting t k)))) (pending k))) \<and>
    (fst (gic_ack k) \<notin> {TIMER_IRQ_ID, DMA_ACCEL_IRQ_ID} \<longrightarrow>
     irq_handler lb c k = Some (k\<lparr>io_log := io_log k @
       (if c \<noteq> 0 \<and> 1020 \<le> fst (gic_ack k) then [Rd32 GICC_IAR] else [Rd32 GICC_IAR, Wr32 GICC_EOIR (fst (gic_ack k))])\<rparr>))"
    (is "?dma \<and> ?other")
proof
  have pc: "percpu_ok k" using assms(1) by (simp add: sync_ok_def sched_ok_def)
  show ?other using irq_handler_other [OF pc assms(6) refl] by blast
  let ?k = "k\<lparr>io_log := io_log k @ [Rd32 GICC_IAR], dma_irq_count := (dma_irq_count k)[c := dma_irq_count k ! c + 1]\<rparr>"
  have "sched_ok k" using assms(1) by (simp add: sync_ok_def)
  then have "sched_ok ?k" by (rule sched_ok_cong) simp_all
  then have s: "sync_ok ?k" using assms(1) by (simp add: sync_ok_def)
  have p: "pending_ok ?k" by (rule pending_ok_cong [OF assms(2)]) simp_all
  have r: "locks ?k Accel_lock = 0" "cq_rest t ring ?k" using assms(3,4) by (simp_all add: cq_rest_def reg_addr_def)
  show ?dma
  proof
    assume irq: "fst (gic_ack k) = DMA_ACCEL_IRQ_ID \<and>
       ucast (dev k (io_log k @ [Rd32 GICC_IAR]) (reg_addr REG_IRQ_STATUS k)) AND IRQ_DMA_DONE \<noteq> (0 :: u32)"
    then have "ucast (dev ?k (io_log ?k) (reg_addr REG_IRQ_STATUS ?k)) AND IRQ_DMA_DONE \<noteq> (0 :: u32)"
      by (simp add: reg_addr_def)
    from irq_dma_result [OF s p r this, of c DMA_ACCEL_IRQ_ID] obtain k' where
      k': "dma_irq c DMA_ACCEL_IRQ_ID ?k = Some k'" "sync_ok k'" "pending_ok k'"
        "last (io_log k') = Wr32 GICC_EOIR DMA_ACCEL_IRQ_ID"
        "dispatched (cq_slots ring (cq_head_local k) (min NUM_WORKERS (cq_waiting t k))) ?k k'" by auto
    note D = dispatchedD [OF k'(5)]
    have "irq_handler lb c k = Some k'" using irq_handler_dma [OF pc assms(6) _ assms(5)] irq k'(1) by simp
    then show "\<exists>k'. irq_handler lb c k = Some k' \<and> sync_ok k' \<and> pending_ok k' \<and>
        dma_irq_count k' = (dma_irq_count k)[c := dma_irq_count k ! c + 1] \<and>
        last (io_log k') = Wr32 GICC_EOIR DMA_ACCEL_IRQ_ID \<and>
        pending k' = map (deliver (cq_slots ring (cq_head_local k) (min NUM_WORKERS (cq_waiting t k)))) (pending k)"
      using k'(2-4) D(1,10) by auto
  qed
qed

section \<open>Witnesses\<close>

text \<open>\<open>main_sample\<close> with an interrupt pending.\<close>

definition irq_sample :: "u64 \<Rightarrow> main_state" where
  "irq_sample irq = main_sample\<lparr>dev := \<lambda>_ a. if a = 0x10000064 then 3 else if a = GICC_IAR then irq
     else if a = 0x10000034 then 1 else 0\<rparr>"

lemma irq_sample_ok:
  "sync_ok (irq_sample irq)" "pending_ok (irq_sample irq)" "locks (irq_sample irq) Accel_lock = 0"
  "cq_rest 3 (\<lambda>i. \<lparr>cq_cmd_id = of_nat i + 1, cq_status = 0, cq_reserved = 0\<rparr>) (irq_sample irq)"
proof -
  have "sched_ok main_sample" using main_sample_ok(1) by (simp add: sync_ok_def)
  then have "sched_inv (irq_sample irq)" "percpu_ok (irq_sample irq)" "\<forall>i<MAX_CPUS. locks (irq_sample irq) (Rq_lock i) = 0"
    "locks (irq_sample irq) Uart_lock = 0"
    by (auto simp: irq_sample_def sched_ok_def sched_inv_def percpu_ok_def all_free_def)
  moreover have "uart_live (irq_sample irq)" by (simp add: uart_live_def irq_sample_def UART_FR_def GICC_IAR_def GICC_BASE_def)
  ultimately show "sync_ok (irq_sample irq)" using main_sample_ok(1)
    by (simp add: sync_ok_def sched_ok_def all_free_def irq_sample_def)
  show "pending_ok (irq_sample irq)" by (rule pending_ok_cong [OF main_sample_ok(2)]) (simp_all add: irq_sample_def)
  show "locks (irq_sample irq) Accel_lock = 0" using main_sample_ok(3) by (simp add: irq_sample_def)
  show "cq_rest 3 (\<lambda>i. \<lparr>cq_cmd_id = of_nat i + 1, cq_status = 0, cq_reserved = 0\<rparr>) (irq_sample irq)"
    using main_sample_ok(4) by (simp add: cq_rest_def reg_addr_def REG_CQ_TAIL_def irq_sample_def)
       (simp add: main_sample_defs accel_sample_defs)
qed

theorem irq_timer_tick_witness:
  "\<exists>t k'. irq_handler False 1 (irq_sample 30) = Some k' \<and> goes_on 1 (irq_sample 30) t k'"
proof -
  have "sched_ok (irq_sample 30)" using irq_sample_ok(1) by (simp add: sync_ok_def)
  moreover have "fst (gic_ack (irq_sample 30)) = TIMER_IRQ_ID"
    by (simp add: gic_ack_def read32_def irq_sample_def TIMER_IRQ_ID_def GICC_IAR_def GICC_BASE_def)
  moreover have "1 < MAX_CPUS" by (simp add: MAX_CPUS_def)
  ultimately show ?thesis using irq_timer_tick [of "irq_sample 30" 1] by blast
qed

theorem irq_device_spec_witness:
  "\<exists>k'. irq_handler False 2 (irq_sample 37) = Some k' \<and> sync_ok k' \<and> last (io_log k') = Wr32 GICC_EOIR DMA_ACCEL_IRQ_ID"
proof -
  have "length (dma_irq_count (irq_sample 37)) = MAX_CPUS" by (simp add: irq_sample_def MAX_CPUS_def) (simp add: main_sample_defs)
  moreover have "fst (gic_ack (irq_sample 37)) = DMA_ACCEL_IRQ_ID"
    by (simp add: gic_ack_def read32_def irq_sample_def DMA_ACCEL_IRQ_ID_def GICC_IAR_def GICC_BASE_def)
  moreover have "reg_addr REG_IRQ_STATUS (irq_sample 37) = 0x10000034"
    by (simp add: reg_addr_def irq_sample_def REG_IRQ_STATUS_def) (simp add: main_sample_defs accel_sample_defs)
  then have "ucast (dev (irq_sample 37) l (reg_addr REG_IRQ_STATUS (irq_sample 37))) AND IRQ_DMA_DONE \<noteq> (0 :: u32)" for l
    by (simp add: irq_sample_def IRQ_DMA_DONE_def GICC_IAR_def GICC_BASE_def)
  ultimately show ?thesis
    using irq_device_spec [OF irq_sample_ok, of 37 2 False] by (simp add: MAX_CPUS_def) blast
qed

end
