(* ===== verification/Smp.thy ===== *)
theory Smp
  imports Irq
begin

text \<open>
  Bringing up the secondary CPUs (\<open>kernel/smp.c\<close>, \<open>kernel/psci.c\<close>): the PSCI call, the loop on CPU 0
  that starts them and waits, and \<open>secondary_main\<close>, which a secondary CPU runs from its first
  instruction to its idle loop. The addresses the linker gives to variables and functions and the
  identification registers of the hardware are the record \<open>image\<close>. What the firmware answers (\<open>hv\<close>) is a
  parameter. While CPU 0 waits, the other CPUs run: \<open>env\<close> is what they have done to the state by
  each poll. The code under \<open>SMP_SELFTEST\<close> is in \<open>Selftest\<close>, the ping and pong tasks are in \<open>Pingpong\<close>.
\<close>

section \<open>State\<close>

record image =
  tramp :: u64                      \<comment> \<open>\<open>task_trampoline\<close>\<close>
  vectors :: u64
  secondary_start :: u64
  idle_tcb :: "nat \<Rightarrow> u64"
  test_tcb :: "nat \<Rightarrow> nat \<Rightarrow> u64"
  pp_tcb :: "nat \<Rightarrow> u64"
  test_task_a :: u64
  test_task_b :: u64
  pp_ping_task :: u64
  pp_pong_task :: u64
  pp_to_pong :: u64
  pp_to_ping :: u64
  taskWorker :: "nat \<Rightarrow> u64"
  busy_task :: u64
  worker_entry :: u64
  busy_task_entry :: u64
  worker_sem :: "nat \<Rightarrow> u64"
  sq_addr :: u64
  cq_addr :: u64
  src_phys :: "nat \<Rightarrow> u64"
  dst_phys :: "nat \<Rightarrow> u64"
  dummy_sp :: u64
  mpidr_el1 :: "nat \<Rightarrow> u64"
  cntfrq_el0 :: u64

record boot_state = main_state +
  cpu_seen_id :: "nat \<Rightarrow> nat"
  cpu_alive :: "nat \<Rightarrow> bool"
  cpu_mpidr :: "nat \<Rightarrow> u64"
  boot_vbar :: u64
  vbar :: "nat \<Rightarrow> u64"               \<comment> \<open>VBAR_EL1 of each CPU\<close>
  report_calls :: u64
  test_progress :: "nat \<Rightarrow> nat \<Rightarrow> u64"
  pp_rounds_done :: u64
  pp_pongs :: u64
  hv :: "io list \<Rightarrow> u64"

text \<open>How a call that does not come back ends: in \<open>while (1) wfe\<close> after a failure, or running.\<close>

datatype 'k boot_end = Halted 'k | Running 'k

section \<open>PSCI\<close>

definition PSCI_CPU_ON :: u64 where "PSCI_CPU_ON = 0xC4000003"

definition psci_call :: "u64 \<Rightarrow> u64 \<Rightarrow> u64 \<Rightarrow> u64 \<Rightarrow> 'z boot_state_scheme \<Rightarrow> u64 \<times> 'z boot_state_scheme" where
  "psci_call func_id arg0 arg1 arg2 k =
    (let k = io_write (Hvc func_id arg0 arg1 arg2) k in (hv k (io_log k), k))"

text \<open>\<open>(int)\<close> of the \<open>long\<close> in x0: its low 32 bits, signed.\<close>

definition psci_cpu_on :: "u64 \<Rightarrow> u64 \<Rightarrow> 'z boot_state_scheme \<Rightarrow> int \<times> 'z boot_state_scheme" where
  "psci_cpu_on target_cpu_mpidr entry_point_pa k =
    (let (r, k) = psci_call PSCI_CPU_ON target_cpu_mpidr entry_point_pa 0 k in (sint (ucast r :: u32), k))"

section \<open>CPU 0\<close>

definition WAIT_SPINS :: nat where "WAIT_SPINS = 50000000"

text \<open>\<open>while (!cpu_alive[cpu] && ++spins < 50000000UL) { }\<close>\<close>

function smp_wait :: "(nat \<Rightarrow> nat \<Rightarrow> 'z boot_state_scheme \<Rightarrow> 'z boot_state_scheme) \<Rightarrow> nat \<Rightarrow> nat \<Rightarrow>
    'z boot_state_scheme \<Rightarrow> 'z boot_state_scheme" where
  "smp_wait env cpu spins k =
    (let k = env cpu spins k in
     if \<not> cpu_alive k cpu \<and> spins + 1 < WAIT_SPINS then smp_wait env cpu (spins + 1) k else k)"
  by pat_completeness auto
termination
  by (relation "measure (\<lambda>(env, cpu, spins, k). WAIT_SPINS - spins)") auto

declare smp_wait.simps [simp del]

text \<open>The body of the loop for one CPU; the result says whether it came up. \<open>-rc\<close> of the least integer is undefined.\<close>

definition smp_boot_one :: "(nat \<Rightarrow> nat \<Rightarrow> 'z boot_state_scheme \<Rightarrow> 'z boot_state_scheme) \<Rightarrow> image \<Rightarrow> nat \<Rightarrow> nat \<Rightarrow>
    'z boot_state_scheme \<Rightarrow> (bool \<times> 'z boot_state_scheme) option" where
  "smp_boot_one env im c cpu k = do {
     let (rc, k) = psci_cpu_on (of_nat cpu) (secondary_start im) k;
     k \<leftarrow> klog c ''CPU0: psci_cpu_on target='' (of_nat cpu) True (if rc < 0 then '' rc=-'' else '' rc='') k;
     k \<leftarrow> (if rc = - (2 ^ 31) then None else klog c [] (of_int (if rc < 0 then - rc else rc)) True CRLF k);
     if rc \<noteq> 0 then Some (False, k)
     else do {
       let k = env cpu WAIT_SPINS (smp_wait env cpu 0 k);
       if cpu_alive k cpu then do {
         k \<leftarrow> klog c ''CPU'' (of_nat cpu) True '': alive, MPIDR_EL1='' k;
         k \<leftarrow> put_hex c (cpu_mpidr k cpu) k;
         k \<leftarrow> klog c '' this_cpu()->cpu_id='' (of_nat (cpu_seen_id k cpu)) True CRLF k;
         Some (True, k) }
       else do {
         k \<leftarrow> klog c ''CPU'' (of_nat cpu) True ('': did NOT come up (timeout)'' @ CRLF) k;
         Some (False, k) } } }"

fun smp_boot_loop :: "(nat \<Rightarrow> nat \<Rightarrow> 'z boot_state_scheme \<Rightarrow> 'z boot_state_scheme) \<Rightarrow> image \<Rightarrow> nat \<Rightarrow> nat list \<Rightarrow> nat \<Rightarrow>
    'z boot_state_scheme \<Rightarrow> (nat \<times> 'z boot_state_scheme) option" where
  "smp_boot_loop env im c [] online k = Some (online, k)"
| "smp_boot_loop env im c (cpu # cpus) online k = do {
     (up, k) \<leftarrow> smp_boot_one env im c cpu k;
     smp_boot_loop env im c cpus (if up then online + 1 else online) k }"

definition smp_boot_secondaries :: "(nat \<Rightarrow> nat \<Rightarrow> 'z boot_state_scheme \<Rightarrow> 'z boot_state_scheme) \<Rightarrow> image \<Rightarrow> nat \<Rightarrow>
    'z boot_state_scheme \<Rightarrow> 'z boot_state_scheme option" where
  "smp_boot_secondaries env im c k = do {
     let k = k\<lparr>boot_vbar := vbar k c\<rparr>;
     let k = k\<lparr>cpu_mpidr := (cpu_mpidr k)(0 := mpidr_el1 im c), cpu_alive := (cpu_alive k)(0 := True)\<rparr>;
     (online, k) \<leftarrow> smp_boot_loop env im c [1..<MAX_CPUS] 1 k;
     k \<leftarrow> klog c ''CPUs online: '' (of_nat online) True CRLF k;
     Some (k\<lparr>smp_online := online\<rparr>) }"

section \<open>A secondary CPU\<close>

abbreviation set_name :: "u64 \<Rightarrow> string \<Rightarrow> 'z kernel_scheme \<Rightarrow> 'z kernel_scheme" where
  "set_name t s k \<equiv> upd_tcb t (\<lambda>x. x\<lparr>tcb_name := s\<rparr>) k"

text \<open>A ping or pong task: named, set up, pinned, registered.\<close>

definition pp_start :: "image \<Rightarrow> nat \<Rightarrow> nat \<Rightarrow> u64 \<Rightarrow> string \<Rightarrow> u64 \<Rightarrow> 'z kernel_scheme \<Rightarrow> 'z kernel_scheme option" where
  "pp_start im c i t s entry k =
    (let k = set_name t s k;
         k = task_init (tramp im) t entry k;
         k = upd_tcb t (\<lambda>x. x\<lparr>pinned := 1\<rparr>) k
     in sched_register_on c i t k)"

definition test_start :: "image \<Rightarrow> nat \<Rightarrow> nat \<Rightarrow> nat \<Rightarrow> 'z kernel_scheme \<Rightarrow> 'z kernel_scheme option" where
  "test_start im c i j k =
    (let t = test_tcb im i j;
         k = set_name t ''sectest'' k;
         k = task_init (tramp im) t (if j = 0 then test_task_a im else test_task_b im) k
     in sched_register_on c i t k)"

text \<open>Identification: per-CPU data, vector base, and the flag CPU 0 polls, published last.\<close>

definition secondary_enter :: "image \<Rightarrow> nat \<Rightarrow> nat \<Rightarrow> 'z boot_state_scheme \<Rightarrow> 'z boot_state_scheme" where
  "secondary_enter im c i k =
    (let k = percpu_init c i k;
         k = k\<lparr>cpu_seen_id := (cpu_seen_id k)(i := my_id c k)\<rparr>;
         k = k\<lparr>vbar := (vbar k)(c := boot_vbar k)\<rparr>;
         k = k\<lparr>cpu_mpidr := (cpu_mpidr k)(i := mpidr_el1 im c)\<rparr>;
         k = k\<lparr>cpu_alive := (cpu_alive k)(i := True)\<rparr>
     in dsb_sev k)"

text \<open>The CPU's run queue: its idle task, which stands for the running context, and its test tasks.\<close>

definition secondary_tasks :: "image \<Rightarrow> nat \<Rightarrow> nat \<Rightarrow> 'z boot_state_scheme \<Rightarrow> 'z boot_state_scheme option" where
  "secondary_tasks im c i k = do {
     let k = set_name (idle_tcb im i) ''idle'' k;
     let k = set_state (idle_tcb im i) 0 k;
     let k = set_current c (idle_tcb im i) k;
     k \<leftarrow> sched_register_on c i (idle_tcb im i) k;
     k \<leftarrow> test_start im c i 0 k;
     k \<leftarrow> test_start im c i 1 k;
     if i = 1 then pp_start im c i (pp_tcb im 0) ''ping'' (pp_ping_task im) k
     else if i = 2 then pp_start im c i (pp_tcb im 1) ''pong'' (pp_pong_task im) k
     else Some k }"

definition secondary_go :: "image \<Rightarrow> nat \<Rightarrow> 'z boot_state_scheme \<Rightarrow> 'z boot_state_scheme" where
  "secondary_go im c k =
    (let k = gic_init_secondary k;
         k = gic_enable_irq 30 k;
         k = io_write (Cntp_tval (cntfrq_el0 im div 2000)) k;
         k = io_write (Cntp_ctl 1) k
     in upd_regs c (\<lambda>r. r\<lparr>daif := daif r AND NOT DAIF_I\<rparr>) k)"

definition secondary_main :: "image \<Rightarrow> nat \<Rightarrow> nat \<Rightarrow> 'z boot_state_scheme \<Rightarrow> 'z boot_state_scheme boot_end option" where
  "secondary_main im c i k =
    (let k = upd_regs c (\<lambda>r. r\<lparr>daif := daif r OR 0x3C0\<rparr>) k in
     if i \<ge> MAX_CPUS then Some (Halted k)
     else do {
       k \<leftarrow> secondary_tasks im c i (secondary_enter im c i k);
       Some (Running (secondary_go im c k)) })"

section \<open>Test tasks and reports\<close>

definition PP_ROUNDS :: u64 where "PP_ROUNDS = 2000"

text \<open>One round of \<open>test_task_a\<close> (\<open>j = 0\<close>) and \<open>test_task_b\<close> (\<open>j = 1\<close>), with \<open>i\<close> the CPU number read at the start.\<close>

definition test_task_round :: "nat \<Rightarrow> nat \<Rightarrow> 'z boot_state_scheme \<Rightarrow> 'z boot_state_scheme" where
  "test_task_round i j k = k\<lparr>test_progress := (test_progress k)(i := (test_progress k i)(j := test_progress k i j + 1))\<rparr>"

fun klog_progress :: "nat \<Rightarrow> nat list \<Rightarrow> 'z boot_state_scheme \<Rightarrow> 'z boot_state_scheme option" where
  "klog_progress c [] k = Some k"
| "klog_progress c (i # is) k = do {
     k \<leftarrow> klog c '' cpu'' (of_nat i) True ''='' k;
     k \<leftarrow> klog c [] (test_progress k i 0) True '','' k;
     k \<leftarrow> klog c [] (test_progress k i 1) True [] k;
     klog_progress c is k }"

definition smp_report_irq_counts :: "nat \<Rightarrow> 'z boot_state_scheme \<Rightarrow> 'z boot_state_scheme option" where
  "smp_report_irq_counts c k =
    (let k = k\<lparr>report_calls := report_calls k + 1\<rparr> in
     if report_calls k mod 64 \<noteq> 0 then Some k
     else do {
       k \<leftarrow> klog c ''IRQ counts: cpu0='' (irq_count (cpu_locals k 0)) True [] k;
       k \<leftarrow> klog c '' cpu1='' (irq_count (cpu_locals k 1)) True [] k;
       k \<leftarrow> klog c '' cpu2='' (irq_count (cpu_locals k 2)) True [] k;
       k \<leftarrow> klog c '' cpu3='' (irq_count (cpu_locals k 3)) True CRLF k;
       let calls = sum_list (map (\<lambda>i. sched_calls (cpu_locals k i)) [1..<MAX_CPUS]);
       let bad = sum_list (map (\<lambda>i. unexpected_switch (cpu_locals k i)) [1..<MAX_CPUS]);
       k \<leftarrow> klog c ''SCHED secondaries: calls='' calls True [] k;
       k \<leftarrow> klog c '' unexpected='' bad True CRLF k;
       let sw = sum_list (map (\<lambda>i. context_switches (cpu_locals k i)) [1..<MAX_CPUS]);
       k \<leftarrow> klog c ''SECTEST switches='' sw True [] k;
       k \<leftarrow> klog_progress c [1..<MAX_CPUS] k;
       k \<leftarrow> klog c [] 0 False CRLF k;
       k \<leftarrow> klog c ''PINGPONG rounds='' (pp_rounds_done k) True [] k;
       klog c '' pongs='' (pp_pongs k) True CRLF k })"

section \<open>Putting a task on a queue\<close>

text \<open>A task that may be registered: a real block, on no queue yet, and room on the queue.\<close>

definition addable :: "nat \<Rightarrow> u64 \<Rightarrow> 'z kernel_scheme \<Rightarrow> bool" where
  "addable i t k \<longleftrightarrow> sched_inv k \<and> i < MAX_CPUS \<and> locks k (Rq_lock i) = 0 \<and> t \<noteq> NULL \<and>
     (\<forall>j < MAX_CPUS. t \<notin> set (rq_tasks (runqueues k j))) \<and> length (rq_tasks (runqueues k i)) < MAX_TASKS"

definition adds :: "nat \<Rightarrow> u64 \<Rightarrow> 'z kernel_scheme \<Rightarrow> 'z kernel_scheme \<Rightarrow> bool" where
  "adds i t k k' \<longleftrightarrow> sched_inv k' \<and> rq_tasks (runqueues k' i) = rq_tasks (runqueues k i) @ [t] \<and>
     (\<forall>j. j \<noteq> i \<longrightarrow> runqueues k' j = runqueues k j) \<and> locks k' = locks k \<and> regs k' = regs k \<and>
     cpu_locals k' = cpu_locals k \<and> dev k' = dev k \<and> kernel.more k' = kernel.more k \<and>
     (\<forall>u. u \<noteq> t \<longrightarrow> pinned (tcbs k' u) = pinned (tcbs k u)) \<and> smp_online k' = smp_online k"

lemma addsD:
  assumes "adds i t k k'"
  shows "sched_inv k'" "rq_tasks (runqueues k' i) = rq_tasks (runqueues k i) @ [t]"
    "j \<noteq> i \<Longrightarrow> runqueues k' j = runqueues k j" "locks k' = locks k" "regs k' = regs k"
    "cpu_locals k' = cpu_locals k" "kernel.more k' = kernel.more k" "u \<noteq> t \<Longrightarrow> pinned (tcbs k' u) = pinned (tcbs k u)"
    "smp_online k' = smp_online k"
  using assms by (simp_all add: adds_def)

lemma register_adds:
  assumes "addable i t k"
  shows "\<exists>k'. sched_register_on c i t k = Some k' \<and> adds i t k k' \<and> pinned (tcbs k' t) = pinned (tcbs k t)"
proof -
  have a: "sched_inv k" "i < MAX_CPUS" "locks k (Rq_lock i) = 0" "t \<noteq> NULL"
    "\<And>j. j < MAX_CPUS \<Longrightarrow> t \<notin> set (rq_tasks (runqueues k j))" using assms by (simp_all add: addable_def)
  have wf: "wf_rq (runqueues k i)" using sched_invD(1) [OF a(1,2)] by (simp add: rq_ok_def)
  then have n: "num_tasks (runqueues k i) < MAX_TASKS" using assms by (simp add: addable_def)
  let ?k = "rq_append c i t k"
  have "adds i t k ?k" unfolding adds_def
    using rq_append_inv [OF a(1,2,4,5)] rq_append_tasks(1) [OF wf n] n by (simp add: rq_append_closed)
  moreover have "pinned (tcbs ?k t) = pinned (tcbs k t)" by (simp add: rq_append_closed)
  ultimately show ?thesis using register_result [OF a(2,3)] by blast
qed

text \<open>Preparing the block of the task first changes none of this.\<close>

lemma task_init_more [frame_simps]:
  "dev (task_init tr t e k) = dev k" "kernel.more (task_init tr t e k) = kernel.more k"
  "pinned (tcbs (task_init tr t e k) u) = pinned (tcbs k u)" "smp_online (task_init tr t e k) = smp_online k"
  by (simp_all add: task_init_def Let_def store64_def)

lemma adds_after:
  assumes "adds i t k0 k'" and "runqueues k0 = runqueues k" "locks k0 = locks k" "regs k0 = regs k"
    "cpu_locals k0 = cpu_locals k" "dev k0 = dev k" "kernel.more k0 = kernel.more k"
    "\<And>u. u \<noteq> t \<Longrightarrow> pinned (tcbs k0 u) = pinned (tcbs k u)" "smp_online k0 = smp_online k"
  shows "adds i t k k'"
  using assms by (simp add: adds_def)

lemma addable_cong:
  assumes "addable i t k" and "runqueues k0 = runqueues k" "locks k0 = locks k" "\<And>u. tcb_cpu (tcbs k0 u) = tcb_cpu (tcbs k u)"
  shows "addable i t k0"
  using assms sched_inv_cong [of k k0] by (simp add: addable_def)

lemma test_start_adds:
  assumes "addable i (test_tcb im i j) k"
  shows "\<exists>k'. test_start im c i j k = Some k' \<and> adds i (test_tcb im i j) k k'"
proof -
  let ?t = "test_tcb im i j"
  let ?k0 = "task_init (tramp im) ?t (if j = 0 then test_task_a im else test_task_b im) (set_name ?t ''sectest'' k)"
  have "addable i ?t ?k0" by (rule addable_cong [OF assms]) (simp_all add: frame_simps)
  then obtain k' where k': "sched_register_on c i ?t ?k0 = Some k'" "adds i ?t ?k0 k'" using register_adds by blast
  have "adds i ?t k k'" by (rule adds_after [OF k'(2)]) (simp_all add: frame_simps)
  then show ?thesis using k'(1) by (simp add: test_start_def Let_def)
qed

lemma pp_start_adds:
  assumes "addable i t k"
  shows "\<exists>k'. pp_start im c i t s entry k = Some k' \<and> adds i t k k' \<and> pinned (tcbs k' t) = 1"
proof -
  let ?k0 = "upd_tcb t (\<lambda>x. x\<lparr>pinned := 1\<rparr>) (task_init (tramp im) t entry (set_name t s k))"
  have "addable i t ?k0" by (rule addable_cong [OF assms]) (simp_all add: frame_simps)
  then obtain k' where k': "sched_register_on c i t ?k0 = Some k'" "adds i t ?k0 k'" "pinned (tcbs k' t) = pinned (tcbs ?k0 t)"
    using register_adds by blast
  have "adds i t k k'" by (rule adds_after [OF k'(2)]) (simp_all add: frame_simps)
  then show ?thesis using k'(1,3) by (simp add: pp_start_def Let_def)
qed

lemma addable_next:
  assumes "adds i t k k'" "addable i u k" "u \<noteq> t" "length (rq_tasks (runqueues k i)) + 1 < MAX_TASKS"
  shows "addable i u k'"
  unfolding addable_def
proof (intro conjI allI impI)
  note D = addsD [OF assms(1)]
  show "sched_inv k'" by (rule D(1))
  show "i < MAX_CPUS" "u \<noteq> NULL" using assms(2) by (simp_all add: addable_def)
  show "locks k' (Rq_lock i) = 0" using assms(2) D(4) by (simp add: addable_def)
  show "length (rq_tasks (runqueues k' i)) < MAX_TASKS" using assms(4) D(2) by simp
  fix j assume "j < MAX_CPUS"
  then show "u \<notin> set (rq_tasks (runqueues k' j))" using assms(2,3) D(2) D(3) [of j] by (cases "j = i") (auto simp: addable_def)
qed

section \<open>A secondary CPU comes up\<close>

text \<open>The tasks of CPU \<open>i\<close>, in the order they are registered.\<close>

definition secondary_set :: "image \<Rightarrow> nat \<Rightarrow> u64 list" where
  "secondary_set im i = [idle_tcb im i, test_tcb im i 0, test_tcb im i 1] @
     (if i = 1 then [pp_tcb im 0] else if i = 2 then [pp_tcb im 1] else [])"

text \<open>The state in which CPU \<open>i\<close> may start: its queue is empty and unlocked, its tasks are on no queue.\<close>

definition can_boot :: "image \<Rightarrow> nat \<Rightarrow> 'z kernel_scheme \<Rightarrow> bool" where
  "can_boot im i k \<longleftrightarrow> i < MAX_CPUS \<and> sched_inv k \<and> rq_tasks (runqueues k i) = [] \<and> locks k (Rq_lock i) = 0 \<and>
     distinct (secondary_set im i) \<and> NULL \<notin> set (secondary_set im i) \<and>
     (\<forall>t \<in> set (secondary_set im i). \<forall>j < MAX_CPUS. t \<notin> set (rq_tasks (runqueues k j)))"

lemma can_boot_addable: "can_boot im i k \<Longrightarrow> t \<in> set (secondary_set im i) \<Longrightarrow> addable i t k"
  by (auto simp: can_boot_def addable_def MAX_TASKS_def)

text \<open>The three tasks every secondary has.\<close>

lemma secondary_tasks_three:
  assumes ok: "can_boot im i k"
  obtains k3 where "secondary_tasks im c i k = (if i = 1 then pp_start im c i (pp_tcb im 0) ''ping'' (pp_ping_task im) k3
       else if i = 2 then pp_start im c i (pp_tcb im 1) ''pong'' (pp_pong_task im) k3 else Some k3)"
    "\<And>t. t \<in> set (drop 3 (secondary_set im i)) \<Longrightarrow> addable i t k3"
    "rq_tasks (runqueues k3 i) = take 3 (secondary_set im i)" "sched_inv k3" "\<And>j. j \<noteq> i \<Longrightarrow> runqueues k3 j = runqueues k j"
    "locks k3 = locks k" "regs k3 = regs k" "cpu_locals k3 = cpu_locals (set_current c (idle_tcb im i) k)" "kernel.more k3 = kernel.more k"
proof -
  let ?S = "secondary_set im i"
  let ?k0 = "set_current c (idle_tcb im i) (set_state (idle_tcb im i) 0 (set_name (idle_tcb im i) ''idle'' k))"
  have ad: "addable i t ?k0" if "t \<in> set ?S" for t
    by (rule addable_cong [OF can_boot_addable [OF ok that]]) (simp_all add: set_current_def)
  have d: "distinct ?S" and e: "rq_tasks (runqueues ?k0 i) = []" using ok by (simp_all add: can_boot_def set_current_def)
  obtain k1 where k1: "sched_register_on c i (idle_tcb im i) ?k0 = Some k1" "adds i (idle_tcb im i) ?k0 k1"
    using register_adds [OF ad] by (force simp: secondary_set_def)
  note D1 = addsD [OF k1(2)]
  have n1: "addable i t k1" if "t \<in> set (tl ?S)" for t
    using addable_next [OF k1(2) ad, of t] that d e by (auto simp: secondary_set_def MAX_TASKS_def)
  obtain k2 where k2: "test_start im c i 0 k1 = Some k2" "adds i (test_tcb im i 0) k1 k2"
    using test_start_adds [OF n1] by (force simp: secondary_set_def)
  note D2 = addsD [OF k2(2)]
  have n2: "addable i t k2" if "t \<in> set (drop 2 ?S)" for t
    using addable_next [OF k2(2) n1, of t] that d e D1(2) by (auto simp: secondary_set_def MAX_TASKS_def)
  obtain k3 where k3: "test_start im c i 1 k2 = Some k3" "adds i (test_tcb im i 1) k2 k3"
    using test_start_adds [OF n2] by (force simp: secondary_set_def numeral_2_eq_2)
  note D3 = addsD [OF k3(2)]
  show ?thesis
  proof (rule that [of k3])
    show "addable i t k3" if "t \<in> set (drop 3 ?S)" for t
      using addable_next [OF k3(2) n2, of t] that d e D1(2) D2(2)
      by (auto simp: secondary_set_def MAX_TASKS_def numeral_2_eq_2 numeral_3_eq_3)
  qed (use k1(1) k2(1) k3(1) D1 D2 D3 e in \<open>simp_all add: secondary_tasks_def secondary_set_def set_current_def numeral_3_eq_3 Let_def\<close>)
qed

lemma secondary_tasks_result:
  assumes ok: "can_boot im i k"
  shows "\<exists>k'. secondary_tasks im c i k = Some k' \<and> sched_inv k' \<and> rq_tasks (runqueues k' i) = secondary_set im i \<and>
     (\<forall>j. j \<noteq> i \<longrightarrow> runqueues k' j = runqueues k j) \<and> locks k' = locks k \<and> regs k' = regs k \<and>
     cpu_locals k' = cpu_locals (set_current c (idle_tcb im i) k) \<and> kernel.more k' = kernel.more k \<and>
     (\<forall>t \<in> set (drop 3 (secondary_set im i)). pinned (tcbs k' t) = 1)"
proof (rule secondary_tasks_three [OF ok, of c])
  fix k3
  let ?S = "secondary_set im i"
  assume run: "secondary_tasks im c i k = (if i = 1 then pp_start im c i (pp_tcb im 0) ''ping'' (pp_ping_task im) k3
       else if i = 2 then pp_start im c i (pp_tcb im 1) ''pong'' (pp_pong_task im) k3 else Some k3)"
    and ad: "\<And>t. t \<in> set (drop 3 ?S) \<Longrightarrow> addable i t k3" and q3: "rq_tasks (runqueues k3 i) = take 3 ?S"
    and f3: "sched_inv k3" "\<And>j. j \<noteq> i \<Longrightarrow> runqueues k3 j = runqueues k j" "locks k3 = locks k" "regs k3 = regs k"
      "cpu_locals k3 = cpu_locals (set_current c (idle_tcb im i) k)" "kernel.more k3 = kernel.more k"
  consider t s en where "secondary_tasks im c i k = pp_start im c i t s en k3" "drop 3 ?S = [t]"
    | "secondary_tasks im c i k = Some k3" "drop 3 ?S = []"
    using run by (cases "i = 1"; cases "i = 2") (auto simp: secondary_set_def numeral_3_eq_3)
  then show ?thesis
  proof cases
    case 1
    then have "addable i t k3" using ad by simp
    then obtain k' where k': "secondary_tasks im c i k = Some k'" "adds i t k3 k'" "pinned (tcbs k' t) = 1"
      using pp_start_adds 1(1) by force
    note D = addsD [OF k'(2)]
    have "rq_tasks (runqueues k' i) = take 3 ?S @ drop 3 ?S" using D(2) q3 1(2) by simp
    then have "rq_tasks (runqueues k' i) = ?S" by (simp only: append_take_drop_id)
    then show ?thesis using k' D f3 1(2) by auto
  next
    case 2
    have "rq_tasks (runqueues k3 i) = take 3 ?S @ drop 3 ?S" using q3 2(2) by simp
    then have "rq_tasks (runqueues k3 i) = ?S" by (simp only: append_take_drop_id)
    then show ?thesis using 2 f3 by auto
  qed
qed

lemma secondary_enter_frame:
  assumes "i < MAX_CPUS"
  shows "runqueues (secondary_enter im c i k) = runqueues k" "tcbs (secondary_enter im c i k) = tcbs k"
    "locks (secondary_enter im c i k) = locks k" "tpidr (regs (secondary_enter im c i k) c) = i"
    "cpu_id (cpu_locals (secondary_enter im c i k) i) = i" "cpu_alive (secondary_enter im c i k) = (cpu_alive k)(i := True)"
    "cpu_seen_id (secondary_enter im c i k) = (cpu_seen_id k)(i := i)" "vbar (secondary_enter im c i k) c = boot_vbar k"
  by (simp_all add: secondary_enter_def percpu_init_def dsb_sev_def io_write_def this_cpu_def Let_def)

lemma secondary_go_frame:
  "runqueues (secondary_go im c k) = runqueues k" "tcbs (secondary_go im c k) = tcbs k" "locks (secondary_go im c k) = locks k"
  "cpu_locals (secondary_go im c k) = cpu_locals k" "tpidr (regs (secondary_go im c k) d) = tpidr (regs k d)"
  "main_state.more (secondary_go im c k) = main_state.more k" "\<not> irq_masked c (secondary_go im c k)"
  by (simp_all add: secondary_go_def gic_defs io_write_def irq_masked_def DAIF_I_def bit_and_iff bit_not_iff Let_def)

lemma more_boot:
  assumes "kernel.more k' = kernel.more k"
  shows "main_state.more k' = main_state.more k"
  using assms by (cases k; cases k'; simp)

lemma boot_fields:
  assumes "main_state.more k' = main_state.more k"
  shows "cpu_alive k' = cpu_alive k" "cpu_seen_id k' = cpu_seen_id k" "vbar k' = vbar k"
  using assms by (cases k; cases k'; simp)+

lemma secondary_main_result:
  assumes "can_boot im i k"
  shows "\<exists>k'. secondary_main im i i k = Some (Running k') \<and> sched_inv k' \<and>
     rq_tasks (runqueues k' i) = secondary_set im i \<and> (\<forall>j. j \<noteq> i \<longrightarrow> runqueues k' j = runqueues k j) \<and>
     tpidr (regs k' i) = i \<and> cpu_id (cpu_locals k' i) = i \<and> current i k' = idle_tcb im i \<and>
     (\<forall>t \<in> set (drop 3 (secondary_set im i)). pinned (tcbs k' t) = 1) \<and>
     cpu_alive k' = (cpu_alive k)(i := True) \<and> cpu_seen_id k' = (cpu_seen_id k)(i := i) \<and>
     locks k' = locks k \<and> \<not> irq_masked i k'"
proof -
  have i: "i < MAX_CPUS" using assms by (simp add: can_boot_def)
  let ?k0 = "secondary_enter im i i (upd_regs i (\<lambda>r. r\<lparr>daif := daif r OR 0x3C0\<rparr>) k)"
  note E = secondary_enter_frame [OF i, of im i "upd_regs i (\<lambda>r. r\<lparr>daif := daif r OR 0x3C0\<rparr>) k"]
  have "sched_inv ?k0" by (rule sched_inv_cong [of k]) (use assms E in \<open>simp_all add: can_boot_def\<close>)
  then have "can_boot im i ?k0" using assms E(1,3) by (simp add: can_boot_def)
  from secondary_tasks_result [OF this, of i] obtain k1 where k1: "secondary_tasks im i i ?k0 = Some k1" "sched_inv k1"
    "rq_tasks (runqueues k1 i) = secondary_set im i" "\<forall>j. j \<noteq> i \<longrightarrow> runqueues k1 j = runqueues ?k0 j" "locks k1 = locks ?k0"
    "regs k1 = regs ?k0" "cpu_locals k1 = cpu_locals (set_current i (idle_tcb im i) ?k0)" "kernel.more k1 = kernel.more ?k0"
    "\<forall>t \<in> set (drop 3 (secondary_set im i)). pinned (tcbs k1 t) = 1" by blast
  let ?k' = "secondary_go im i k1"
  note G = secondary_go_frame [where im = im and c = i and k = k1]
  have run: "secondary_main im i i k = Some (Running ?k')" using i k1(1) by (simp add: secondary_main_def Let_def)
  have inv: "sched_inv ?k'" by (rule sched_inv_cong [OF k1(2)]) (simp_all add: G)
  have more: "main_state.more ?k' = main_state.more ?k0" using G(6) more_boot [OF k1(8)] by simp
  have tp: "tpidr (regs ?k' i) = i" using G(5) k1(6) E(4) by simp
  have loc: "cpu_locals ?k' i = (cpu_locals ?k0 i)\<lparr>curr := idle_tcb im i\<rparr>" using G(4) k1(7) E(4) by (simp add: set_current_def)
  have cur: "current i ?k' = idle_tcb im i" using tp loc by (simp add: current_def this_cpu_def)
  have fl: "cpu_alive ?k' = (cpu_alive k)(i := True)" "cpu_seen_id ?k' = (cpu_seen_id k)(i := i)"
    using boot_fields [OF more] E(6,7) by simp_all
  have qs: "\<forall>j. j \<noteq> i \<longrightarrow> runqueues ?k' j = runqueues k j" "locks ?k' = locks k" using k1(4,5) G(1,3) E(1,3) by simp_all
  show ?thesis
    using run inv tp cur fl qs G(1,2,7) k1(3,9) loc E(5) by (intro exI [of _ ?k']) simp
qed

section \<open>CPU 0 counts\<close>

text \<open>What the boot loop relies on: the UART is free and live, and the firmware never answers with the least integer.\<close>

definition boot_ok :: "'z boot_state_scheme \<Rightarrow> bool" where
  "boot_ok k \<longleftrightarrow> locks k Uart_lock = 0 \<and> uart_live k \<and> (\<forall>l. sint (ucast (hv k l) :: u32) \<noteq> - (2 ^ 31))"

text \<open>The other CPUs keep it that way and do not take their flags back.\<close>

definition env_ok :: "(nat \<Rightarrow> nat \<Rightarrow> 'z boot_state_scheme \<Rightarrow> 'z boot_state_scheme) \<Rightarrow> bool" where
  "env_ok env \<longleftrightarrow> (\<forall>cpu n k. boot_ok k \<longrightarrow> boot_ok (env cpu n k) \<and> (\<forall>i. cpu_alive k i \<longrightarrow> cpu_alive (env cpu n k) i))"

lemma boot_ok_log [simp]: "boot_ok (k\<lparr>io_log := l\<rparr>) = boot_ok k"
  by (simp add: boot_ok_def uart_live_def)

lemma boot_klog:
  assumes "boot_ok k"
  shows "\<exists>l. klog c p v b s k = Some (k\<lparr>io_log := l\<rparr>)"
  using klog_returns [of k c p v b s] assms by (auto simp: boot_ok_def)

lemma boot_klog_log:
  assumes "boot_ok k"
  shows "\<exists>l'. klog c p v b s (k\<lparr>io_log := l\<rparr>) = Some (k\<lparr>io_log := l'\<rparr>)"
  using boot_klog [of "k\<lparr>io_log := l\<rparr>" c p v b s] assms by simp

lemma boot_put_hex:
  assumes "boot_ok k"
  shows "\<exists>l. put_hex c v k = Some (k\<lparr>io_log := l\<rparr>)"
proof -
  obtain l where l: "uart_puts c ''0x'' k = Some (k\<lparr>io_log := io_log k @ l\<rparr>)"
    using uart_puts_returns [of k c "''0x''"] assms by (auto simp: boot_ok_def)
  have "uart_live (k\<lparr>io_log := io_log k @ l\<rparr>)" using assms by (simp add: boot_ok_def uart_live_def)
  from uart_emit_returns [OF this, of "hexadecimal v"] show ?thesis
    unfolding put_hex_def put_hex_digits l by auto
qed

lemma env_okD:
  assumes "env_ok env" "boot_ok k"
  shows "boot_ok (env cpu n k)" "cpu_alive k i \<Longrightarrow> cpu_alive (env cpu n k) i"
  using assms by (simp_all add: env_ok_def)

lemma smp_wait_ok:
  assumes "env_ok env" "boot_ok k"
  shows "boot_ok (smp_wait env cpu n k)" "cpu_alive k i \<Longrightarrow> cpu_alive (smp_wait env cpu n k) i"
proof -
  have "boot_ok (smp_wait env cpu n k) \<and> (cpu_alive k i \<longrightarrow> cpu_alive (smp_wait env cpu n k) i)"
    using assms
  proof (induction env cpu n k rule: smp_wait.induct)
    case (1 env cpu n k)
    note e = env_okD(1) [OF 1(2,3), where cpu = cpu and n = n] env_okD(2) [OF 1(2,3), where cpu = cpu and n = n and i = i]
    show ?case using 1(1) [OF refl] 1(2) e
      by (subst (1 2) smp_wait.simps) (auto simp: Let_def)
  qed
  then show "boot_ok (smp_wait env cpu n k)" "cpu_alive k i \<Longrightarrow> cpu_alive (smp_wait env cpu n k) i" by blast+
qed

text \<open>One turn of the loop comes back, and counts the CPU only if it is alive.\<close>

definition boots :: "(bool \<times> 'z boot_state_scheme) option \<Rightarrow> nat \<Rightarrow> 'z boot_state_scheme \<Rightarrow> bool" where
  "boots r cpu k \<longleftrightarrow> (\<exists>up k'. r = Some (up, k') \<and> boot_ok k' \<and> (\<forall>i. cpu_alive k i \<longrightarrow> cpu_alive k' i) \<and> (up \<longrightarrow> cpu_alive k' cpu))"

lemma bootsI: "r = Some (up, k') \<Longrightarrow> boot_ok k' \<Longrightarrow> (\<And>i. cpu_alive k i \<Longrightarrow> cpu_alive k' i) \<Longrightarrow> (up \<Longrightarrow> cpu_alive k' cpu) \<Longrightarrow> boots r cpu k"
  by (auto simp: boots_def)

text \<open>How a turn ends: the firmware refuses, or CPU 0 has waited and says whether the CPU is alive.\<close>

lemma smp_boot_one_cases:
  assumes ok: "boot_ok k" and after: "\<And>l. boot_ok (env cpu WAIT_SPINS (smp_wait env cpu 0 (k\<lparr>io_log := l\<rparr>)))"
  obtains l0 l where "hv k l0 \<noteq> 0" "smp_boot_one env im c cpu k = Some (False, k\<lparr>io_log := l\<rparr>)"
    | l l' where "smp_boot_one env im c cpu k = (let k = env cpu WAIT_SPINS (smp_wait env cpu 0 (k\<lparr>io_log := l\<rparr>))
        in Some (cpu_alive k cpu, k\<lparr>io_log := l'\<rparr>))"
proof -
  obtain rc l where p: "psci_cpu_on (of_nat cpu) (secondary_start im) k = (rc, k\<lparr>io_log := l\<rparr>)"
    "rc = sint (ucast (hv k l) :: u32)" by (simp add: psci_cpu_on_def psci_call_def io_write_def Let_def)
  have nm: "rc \<noteq> - (2 ^ 31)" using ok p(2) by (simp add: boot_ok_def)
  obtain l1 where l1: "klog c ''CPU0: psci_cpu_on target='' (of_nat cpu) True (if rc < 0 then '' rc=-'' else '' rc='') (k\<lparr>io_log := l\<rparr>)
      = Some (k\<lparr>io_log := l1\<rparr>)" using boot_klog_log [OF ok] by blast
  obtain l2 where l2: "klog c [] (of_int (if rc < 0 then - rc else rc)) True CRLF (k\<lparr>io_log := l1\<rparr>) = Some (k\<lparr>io_log := l2\<rparr>)"
    using boot_klog_log [OF ok] by blast
  let ?k = "env cpu WAIT_SPINS (smp_wait env cpu 0 (k\<lparr>io_log := l2\<rparr>))"
  note b = after [of l2]
  obtain l3 where l3: "klog c ''CPU'' (of_nat cpu) True '': alive, MPIDR_EL1='' ?k = Some (?k\<lparr>io_log := l3\<rparr>)"
    using boot_klog [OF b] by blast
  obtain l4 where l4: "put_hex c (cpu_mpidr ?k cpu) (?k\<lparr>io_log := l3\<rparr>) = Some (?k\<lparr>io_log := l4\<rparr>)"
    using boot_put_hex [of "?k\<lparr>io_log := l3\<rparr>"] b by auto
  obtain l5 where l5: "klog c '' this_cpu()->cpu_id='' (of_nat (cpu_seen_id ?k cpu)) True CRLF (?k\<lparr>io_log := l4\<rparr>) = Some (?k\<lparr>io_log := l5\<rparr>)"
    using boot_klog_log [OF b] by blast
  obtain l6 where l6: "klog c ''CPU'' (of_nat cpu) True ('': did NOT come up (timeout)'' @ CRLF) ?k = Some (?k\<lparr>io_log := l6\<rparr>)"
    using boot_klog [OF b] by blast
  have one: "smp_boot_one env im c cpu k = (if rc \<noteq> 0 then Some (False, k\<lparr>io_log := l2\<rparr>)
      else Some (cpu_alive ?k cpu, ?k\<lparr>io_log := if cpu_alive ?k cpu then l5 else l6\<rparr>))"
    unfolding smp_boot_one_def p(1) Let_def prod.case l1 bind.bind_lunit using nm l2 l6 by (simp add: l3 l4 l5)
  show ?thesis
  proof (cases "rc = 0")
    case True
    then show ?thesis using that(2) one by (simp add: Let_def)
  next
    case False
    then have "hv k l \<noteq> 0" using p(2) by auto
    then show ?thesis using that(1) one False by simp
  qed
qed

lemma smp_boot_one_ok:
  assumes env: "env_ok env" and ok: "boot_ok k"
  shows "boots (smp_boot_one env im c cpu k) cpu k"
proof -
  let ?k = "\<lambda>l. env cpu WAIT_SPINS (smp_wait env cpu 0 (k\<lparr>io_log := l\<rparr>))"
  have w: "boot_ok (smp_wait env cpu 0 (k\<lparr>io_log := l\<rparr>))" for l using smp_wait_ok(1) [OF env] ok by simp
  have b: "boot_ok (?k l)" for l by (rule env_okD(1) [OF env w])
  have al: "cpu_alive (?k l) i" if "cpu_alive k i" for i l
    using env_okD(2) [OF env w] smp_wait_ok(2) [OF env, of "k\<lparr>io_log := l\<rparr>" i cpu 0] ok that by simp
  show ?thesis
  proof (rule smp_boot_one_cases [where env = env and cpu = cpu and im = im and c = c, OF ok b])
    show "smp_boot_one env im c cpu k = Some (False, k\<lparr>io_log := l\<rparr>) \<Longrightarrow> ?thesis" for l
      using ok by (intro bootsI [of _ False "k\<lparr>io_log := l\<rparr>"]) simp_all
    show "smp_boot_one env im c cpu k = (let k = ?k l in Some (cpu_alive k cpu, k\<lparr>io_log := l'\<rparr>)) \<Longrightarrow> ?thesis" for l l'
      using b al by (intro bootsI [of _ "cpu_alive (?k l) cpu" "(?k l)\<lparr>io_log := l'\<rparr>"]) (simp_all add: Let_def)
  qed
qed

lemma smp_boot_loop_ok:
  assumes "env_ok env" "boot_ok k" "distinct cpus"
  shows "\<exists>S k'. smp_boot_loop env im c cpus n k = Some (n + card S, k') \<and> S \<subseteq> set cpus \<and> boot_ok k' \<and>
     (\<forall>i \<in> S. cpu_alive k' i) \<and> (\<forall>i. cpu_alive k i \<longrightarrow> cpu_alive k' i)"
  using assms(2,3)
proof (induction cpus arbitrary: n k)
  case Nil
  then show ?case by (intro exI [of _ "{}"]) simp
next
  case (Cons cpu cpus)
  obtain up k1 where k1: "smp_boot_one env im c cpu k = Some (up, k1)" "boot_ok k1" "\<forall>i. cpu_alive k i \<longrightarrow> cpu_alive k1 i"
    "up \<longrightarrow> cpu_alive k1 cpu" using smp_boot_one_ok [OF assms(1) Cons.prems(1)] unfolding boots_def by blast
  obtain S k' where s: "smp_boot_loop env im c cpus (if up then n + 1 else n) k1 = Some ((if up then n + 1 else n) + card S, k')"
    "S \<subseteq> set cpus" "boot_ok k'" "\<forall>i \<in> S. cpu_alive k' i" "\<forall>i. cpu_alive k1 i \<longrightarrow> cpu_alive k' i"
    using Cons.IH [OF k1(2), of "if up then n + 1 else n"] Cons.prems(2) by auto
  let ?S = "if up then insert cpu S else S"
  have fin: "finite S" using s(2) by (rule finite_subset) simp
  have "cpu \<notin> S" using s(2) Cons.prems(2) by auto
  then have "card ?S = (if up then 1 else 0) + card S" using fin by simp
  then have "smp_boot_loop env im c (cpu # cpus) n k = Some (n + card ?S, k')" using k1(1) s(1) by simp
  then show ?case using s k1 by (intro exI [of _ ?S] exI [of _ k']) auto
qed

section \<open>Properties\<close>


section \<open>Witnesses\<close>

text \<open>Blocks of 8 KiB each, in a row.\<close>

definition sample_image :: image where
  "sample_image = \<lparr>tramp = 0x40080000, vectors = 0x40081000, secondary_start = 0x40082000,
     idle_tcb = (\<lambda>i. 0x50000000 + 0x2000 * of_nat i), test_tcb = (\<lambda>i j. 0x50010000 + 0x4000 * of_nat i + 0x2000 * of_nat j),
     pp_tcb = (\<lambda>i. 0x50030000 + 0x2000 * of_nat i), test_task_a = 0x40083000, test_task_b = 0x40084000,
     pp_ping_task = 0x40085000, pp_pong_task = 0x40086000, pp_to_pong = 0x50040000, pp_to_ping = 0x50040100,
     taskWorker = (\<lambda>i. 0x50050000 + 0x2000 * of_nat i), busy_task = 0x50060000, worker_entry = 0x40087000,
     busy_task_entry = 0x40088000, worker_sem = (\<lambda>i. 0x50041000 + 0x100 * of_nat i), sq_addr = 0x50070000, cq_addr = 0x50071000,
     src_phys = (\<lambda>i. 0x50080000 + 0x80 * of_nat i), dst_phys = (\<lambda>i. 0x50081000 + 0x80 * of_nat i), dummy_sp = 0x50090000,
     mpidr_el1 = of_nat, cntfrq_el0 = 62500000\<rparr>"

definition boot_sample :: boot_state where
  "boot_sample = main_state.extend main_sample (boot_state.fields (\<lambda>_. 0) (\<lambda>_. False) (\<lambda>_. 0) 0 (\<lambda>_. 0) 0 (\<lambda>_ _. 0) 0 0 (\<lambda>_. 0))"

lemmas boot_sample_defs = boot_sample_def main_state.extend_def boot_state.fields_def

lemma boot_sample_fields:
  "runqueues boot_sample = runqueues main_sample" "tcbs boot_sample = tcbs main_sample" "locks boot_sample = locks main_sample"
  "dev boot_sample = dev main_sample" "hv boot_sample = (\<lambda>_. 0)" "regs boot_sample = regs main_sample"
  "cpu_locals boot_sample = cpu_locals main_sample"
  by (simp_all add: boot_sample_defs)

lemma main_sample_queues: "runqueues main_sample i = (if i = 1 then demo_rq else sample_rq)"
  by (simp add: main_sample_defs) (simp add: accel_sample_defs, simp add: sync_sample_defs)

lemma boot_sample_ok: "sched_ok boot_sample" "boot_ok boot_sample"
proof -
  have "sched_ok main_sample" using main_sample_ok(1) by (simp add: sync_ok_def)
  then show s: "sched_ok boot_sample" by (rule sched_ok_cong) (simp_all add: boot_sample_fields)
  then show "boot_ok boot_sample" by (simp add: sched_ok_def all_free_def boot_ok_def boot_sample_fields)
qed

lemma demo_tasks: "set (rq_tasks demo_rq) \<subseteq> {0x1000, 0x3000, 0x5000}"
  by (auto simp: demo_rq_def rq_tasks_def)


end
