(* ===== verification/Diag.thy ===== *)
theory Diag
  imports Smp
begin

text \<open>
  Diagnostics of \<open>kernel/main.c\<close>: the history of task switches, the checks on saved stack pointers
  that report and halt, and the report of a synchronous exception. They are compiled into every build; the
  calls from the scheduler are under \<open>DEBUG_HOOKS\<close>.
\<close>

section \<open>Switch history\<close>

definition SWITCH_HIST_LEN :: nat where "SWITCH_HIST_LEN = 16"

definition worker_id_of :: "image \<Rightarrow> u64 \<Rightarrow> int" where
  "worker_id_of im t = (case find (\<lambda>i. taskWorker im i = t) [0..<NUM_WORKERS] of Some i \<Rightarrow> int i | None \<Rightarrow> - 1)"

definition hist_id :: "image \<Rightarrow> u64 \<Rightarrow> int" where
  "hist_id im t = (if t = busy_task im then - 1 else worker_id_of im t)"

definition record_switch :: "image \<Rightarrow> string \<Rightarrow> u64 \<Rightarrow> u64 \<Rightarrow> 'z main_state_scheme \<Rightarrow> 'z main_state_scheme" where
  "record_switch im site prev_p next_p k =
    (let pid = hist_id im prev_p;
         nid = hist_id im next_p;
         k = k\<lparr>switch_hist := (switch_hist k)[switch_hist_idx k := \<lparr>sw_site = site, sw_prev = pid, sw_next = nid\<rparr>]\<rparr>
     in k\<lparr>switch_hist_idx := (switch_hist_idx k + 1) mod SWITCH_HIST_LEN\<rparr>)"

text \<open>The loop of \<open>dump_switch_hist\<close>, over the entries from the oldest on; one that was never written is skipped.\<close>

fun dump_entries :: "nat \<Rightarrow> switch_rec list \<Rightarrow> 'z main_state_scheme \<Rightarrow> 'z main_state_scheme option" where
  "dump_entries c [] k = Some k"
| "dump_entries c (x # xs) k =
    (if sw_site x = [] then dump_entries c xs k
     else do {
       k \<leftarrow> uart_puts c '' site='' k;
       k \<leftarrow> uart_puts c (sw_site x) k;
       k \<leftarrow> print_decline c ''  prev_id='' (of_int (sw_prev x)) k;
       k \<leftarrow> print_decline c ''  next_id='' (of_int (sw_next x)) k;
       dump_entries c xs k })"

definition hist_oldest_first :: "'z main_state_scheme \<Rightarrow> switch_rec list" where
  "hist_oldest_first k = map (\<lambda>i. switch_hist k ! ((switch_hist_idx k + i) mod SWITCH_HIST_LEN)) [0..<SWITCH_HIST_LEN]"

definition dump_switch_hist :: "nat \<Rightarrow> 'z main_state_scheme \<Rightarrow> 'z main_state_scheme option" where
  "dump_switch_hist c k = do {
     k \<leftarrow> uart_puts c (''CORRUPT sp: recent switch history (oldest first)'' @ CRLF) k;
     dump_entries c (hist_oldest_first k) k }"

section \<open>Checks that halt\<close>

text \<open>Whether \<open>sp\<close> lies in the stack array of the block at \<open>t\<close>: \<open>lo <= sp && sp < hi\<close>.\<close>

definition in_stack :: "u64 \<Rightarrow> u64 \<Rightarrow> bool" where
  "in_stack t sp \<longleftrightarrow> stack_addr t 0 \<le> sp \<and> sp < stack_addr t 0 + of_nat STACK_WORDS * 8"

definition check_sp_write :: "image \<Rightarrow> nat \<Rightarrow> u64 \<Rightarrow> u64 \<Rightarrow> 'z main_state_scheme \<Rightarrow> 'z main_state_scheme boot_end option" where
  "check_sp_write im c ptr value k =
    (if ptr = taskWorker im 1 \<and> \<not> in_stack (taskWorker im 1) value then do {
       k \<leftarrow> uart_puts c (''CAUGHT WRITE: switch_to about to write BAD value into taskWorker[1].sp'' @ CRLF) k;
       k \<leftarrow> print_hexline c ''  bad value about to be written='' value k;
       k \<leftarrow> dump_switch_hist c k;
       Some (Halted k) }
     else Some (Running k))"

definition report_pre_switch_bad :: "image \<Rightarrow> nat \<Rightarrow> string \<Rightarrow> u64 \<Rightarrow> u64 \<Rightarrow> 'z main_state_scheme \<Rightarrow> 'z main_state_scheme boot_end option" where
  "report_pre_switch_bad im c where next_p bad_sp k = do {
     let nid = hist_id im next_p;
     k \<leftarrow> uart_puts c ''PRE-SWITCH BAD: next->sp already invalid BEFORE switch_to, site='' k;
     k \<leftarrow> uart_puts c where k;
     k \<leftarrow> print_decline c ''  next_id='' (of_int nid) k;
     k \<leftarrow> print_hexline c ''  bad next->sp='' bad_sp k;
     k \<leftarrow> dump_switch_hist c k;
     Some (Halted k) }"

definition report_corrupt_sp :: "nat \<Rightarrow> string \<Rightarrow> u64 \<Rightarrow> 'z main_state_scheme \<Rightarrow> 'z main_state_scheme boot_end option" where
  "report_corrupt_sp c where sp k = do { k \<leftarrow> print_hexline c where sp k; Some (Halted k) }"

fun print_words :: "nat \<Rightarrow> u64 list \<Rightarrow> 'z main_state_scheme \<Rightarrow> 'z main_state_scheme option" where
  "print_words c [] k = Some k"
| "print_words c (w # ws) k = do { k \<leftarrow> print_hexline c '' w='' w k; print_words c ws k }"

definition trace_switch_resume :: "nat \<Rightarrow> u64 \<Rightarrow> 'z main_state_scheme \<Rightarrow> 'z main_state_scheme option" where
  "trace_switch_resume c frame k =
    (let x30_slot = mem k (frame + 24) in
     if x30_slot \<ge> 0x40000000 then Some k
     else do {
       k \<leftarrow> print_hexline c ''SUSPICIOUS x30 slot, frame='' frame k;
       k \<leftarrow> print_hexline c '' x30_slot='' x30_slot k;
       print_words c (map (\<lambda>i. mem k (frame + 8 * of_nat i)) [0..<14]) k })"

section \<open>Synchronous exceptions\<close>

text \<open>\<open>r\<close> is the saved register block: x0 to x30, ESR, ELR, SP.\<close>

fun print_regs :: "nat \<Rightarrow> string list \<Rightarrow> u64 list \<Rightarrow> 'z main_state_scheme \<Rightarrow> 'z main_state_scheme option" where
  "print_regs c (s # ss) (v # vs) k = do { k \<leftarrow> print_hexline c ('' '' @ s) v k; print_regs c ss vs k }"
| "print_regs c _ _ k = Some k"

definition reg_names :: "string list" where
  "reg_names = [''x0'', ''x1'', ''x2'', ''x3'', ''x4'', ''x5'', ''x6'', ''x7'', ''x8'', ''x9'', ''x10'', ''x11'', ''x12'', ''x13'', ''x14'',
     ''x15'', ''x16'', ''x17'', ''x18'', ''x19'', ''x20'', ''x21'', ''x22'', ''x23'', ''x24'', ''x25'', ''x26'', ''x27'', ''x28'', ''x29'', ''x30'']"

fun print_pending :: "nat \<Rightarrow> pending_req list \<Rightarrow> 'z main_state_scheme \<Rightarrow> 'z main_state_scheme option" where
  "print_pending c [] k = Some k"
| "print_pending c (p # ps) k = do {
     k \<leftarrow> print_decline c ''P4 M7: pending[i].used='' (of_int (pr_used p)) k;
     k \<leftarrow> print_decline c ''P4 M7: pending[i].done='' (of_int (pr_done p)) k;
     k \<leftarrow> print_decline c ''P4 M7: pending[i].cmd_id='' (pr_cmd_id p) k;
     k \<leftarrow> print_hexline c ''P4 M7: pending[i].sem ptr='' (pr_sem p) k;
     print_pending c ps k }"

definition task_code :: "image \<Rightarrow> u64 \<Rightarrow> u64" where
  "task_code im t = (if t = NULL then 98 else if t = taskWorker im 0 then 0 else if t = taskWorker im 1 then 1
     else if t = taskWorker im 2 then 2 else if t = busy_task im then 3 else 99)"

definition matched_worker :: "image \<Rightarrow> u64 \<Rightarrow> int" where
  "matched_worker im sp = (case find (\<lambda>i. in_stack (taskWorker im i) sp) [0..<NUM_WORKERS] of Some i \<Rightarrow> int i | None \<Rightarrow> - 1)"

definition sync_exception_handler_full :: "image \<Rightarrow> nat \<Rightarrow> u64 list \<Rightarrow> 'z main_state_scheme \<Rightarrow> 'z main_state_scheme boot_end option" where
  "sync_exception_handler_full im c r k = do {
     let esr = r ! 31; let elr = r ! 32; let orig_sp = r ! 33;
     k \<leftarrow> print_hexline c ''SYNC EXCEPTION ESR='' esr k;
     k \<leftarrow> print_hexline c ''SYNC EXCEPTION ELR='' elr k;
     k \<leftarrow> print_hexline c ''SYNC EXCEPTION SP='' orig_sp k;
     k \<leftarrow> print_decline c ''SYNC EXCEPTION SP belongs to worker (-1=none)='' (of_int (matched_worker im orig_sp)) k;
     k \<leftarrow> print_regs c reg_names (take 31 r) k;
     k \<leftarrow> print_decline c ''P4 M7: current task = '' (task_code im (current c k)) k;
     k \<leftarrow> print_pending c (pending k) k;
     Some (Halted k) }"

section \<open>The history is the last sixteen switches\<close>

lemma hist_record:
  assumes "length (switch_hist k) = SWITCH_HIST_LEN" "switch_hist_idx k < SWITCH_HIST_LEN"
  shows "hist_oldest_first (record_switch im site p n k) =
     tl (hist_oldest_first k) @ [\<lparr>sw_site = site, sw_prev = hist_id im p, sw_next = hist_id im n\<rparr>]" (is "?l = ?r")
proof (rule nth_equalityI)
  show "length ?l = length ?r" by (simp add: hist_oldest_first_def SWITCH_HIST_LEN_def)
  fix i assume "i < length ?l"
  then have i: "i < 16" by (simp add: hist_oldest_first_def SWITCH_HIST_LEN_def)
  let ?j = "switch_hist_idx k"
  have j: "?j < 16" using assms(2) by (simp add: SWITCH_HIST_LEN_def)
  have eq: "((?j + 1) mod 16 + i) mod 16 = (?j + Suc i) mod 16" 
    using mod_add_left_eq [of "?j + 1" 16 i] by simp
  show "?l ! i = ?r ! i"
  proof (cases "i = 15")
    case True
    have "(?j + 16) mod 16 = ?j" using j by simp
    then show ?thesis using True assms j eq
      by (simp add: hist_oldest_first_def SWITCH_HIST_LEN_def record_switch_def Let_def nth_append)
  next
    case False
    with i have "i < 15" by simp
    then have ne: "(?j + Suc i) mod 16 \<noteq> ?j" using j by (auto simp: mod_if)
    show ?thesis using i False assms j ne eq
      by (simp add: hist_oldest_first_def SWITCH_HIST_LEN_def record_switch_def Let_def nth_append nth_tl)
  qed
qed

lemma record_wf:
  assumes "length (switch_hist k) = SWITCH_HIST_LEN" "switch_hist_idx k < SWITCH_HIST_LEN"
  shows "length (switch_hist (record_switch im site p n k)) = SWITCH_HIST_LEN"
    "switch_hist_idx (record_switch im site p n k) < SWITCH_HIST_LEN"
  using assms by (simp_all add: record_switch_def SWITCH_HIST_LEN_def Let_def)

text \<open>After any sequence of recorded switches the ring, in the order \<open>dump_switch_hist\<close> prints it, is the last sixteen of the old
  contents followed by the new records.\<close>

definition record_switches :: "image \<Rightarrow> (string \<times> u64 \<times> u64) list \<Rightarrow> 'z main_state_scheme \<Rightarrow> 'z main_state_scheme" where
  "record_switches im hs k = fold (\<lambda>(site, p, n) k. record_switch im site p n k) hs k"

lemma record_switches_history:
  assumes "length (switch_hist k) = SWITCH_HIST_LEN" "switch_hist_idx k < SWITCH_HIST_LEN"
  shows "hist_oldest_first (record_switches im hs k) = drop (length hs) (hist_oldest_first k @
     map (\<lambda>(site, p, n). \<lparr>sw_site = site, sw_prev = hist_id im p, sw_next = hist_id im n\<rparr>) hs)"
  using assms
proof (induction hs arbitrary: k)
  case (Cons h hs)
  obtain site p n where h: "h = (site, p, n)" by (cases h)
  have "hist_oldest_first k \<noteq> []" by (simp add: hist_oldest_first_def SWITCH_HIST_LEN_def)
  then obtain a t where "hist_oldest_first k = a # t" by (cases "hist_oldest_first k") auto
  then show ?case using Cons.IH [OF record_wf [OF Cons.prems, of im site p n]] hist_record [OF Cons.prems, of im site p n]
    by (simp add: record_switches_def h del: drop_append)
qed (simp add: record_switches_def)

section \<open>The exception report\<close>

lemma did_main [frame_simps]: "pending (did l k) = pending k" "switch_hist (did l k) = switch_hist k"
  "switch_hist_idx (did l k) = switch_hist_idx k" "hist_oldest_first (did l k) = hist_oldest_first k"
  by (simp_all add: did_def hist_oldest_first_def)

definition pending_text :: "pending_req \<Rightarrow> string" where
  "pending_text p = dec_text ''P4 M7: pending[i].used='' (of_int (pr_used p)) @ dec_text ''P4 M7: pending[i].done='' (of_int (pr_done p)) @
     dec_text ''P4 M7: pending[i].cmd_id='' (pr_cmd_id p) @ hex_text ''P4 M7: pending[i].sem ptr='' (pr_sem p)"

definition exception_text :: "image \<Rightarrow> u64 list \<Rightarrow> u64 \<Rightarrow> pending_req list \<Rightarrow> string" where
  "exception_text im r t ps = hex_text ''SYNC EXCEPTION ESR='' (r ! 31) @ hex_text ''SYNC EXCEPTION ELR='' (r ! 32) @
     hex_text ''SYNC EXCEPTION SP='' (r ! 33) @
     dec_text ''SYNC EXCEPTION SP belongs to worker (-1=none)='' (of_int (matched_worker im (r ! 33))) @
     concat (map (\<lambda>(s, v). hex_text ('' '' @ s) v) (zip reg_names (take 31 r))) @
     dec_text ''P4 M7: current task = '' (task_code im t) @ concat (map pending_text ps)"

lemma print_regs_each: "print_regs c ss vs k = print_each (\<lambda>(p, v). print_hexline c p v) (map (\<lambda>(s, v). ('' '' @ s, v)) (zip ss vs)) k"
  by (induction c ss vs k rule: print_regs.induct) (auto split: bind_splits)

lemma print_regs_sends:
  assumes "uart_ready k" "list_all (\<lambda>s. NUL \<notin> set s) ss"
  shows "sends (\<lambda>k. k) k l (print_regs c ss vs (did l k)) (concat (map (\<lambda>(s, v). hex_text ('' '' @ s) v) (zip ss vs)))"
proof -
  have "list_all (\<lambda>(p, v). NUL \<notin> set p) (map (\<lambda>(s, v). ('' '' @ s, v)) (zip ss vs))"
    using assms(2) by (auto simp: list_all_iff dest: set_zip_leftD)
  from hexline.each_sends [OF assms(1) this] show ?thesis
    unfolding print_regs_each by (simp add: split_def comp_def)
qed

lemma print_pending_sends:
  assumes "uart_ready k"
  shows "sends (\<lambda>k. k) k l (print_pending c ps (did l k)) (concat (map pending_text ps))"
proof (induction ps arbitrary: l)
  case Nil
  then show ?case by (simp add: sends_Some [where h = "\<lambda>k. k"])
next
  case (Cons p ps)
  show ?case unfolding print_pending.simps list.map concat.simps pending_text_def [of p] append_assoc
    by (intro hexline_then decline_then assms Cons) simp_all
qed

lemma exception_sends:
  assumes "uart_ready k"
  shows "sends Halted k l (sync_exception_handler_full im c r (did l k)) (exception_text im r (current c k) (pending k))"
proof -
  have names: "list_all (\<lambda>s. NUL \<notin> set s) reg_names" by (simp add: reg_names_def)
  have pend: "sends Halted k l (print_pending c (pending k) (did l k) \<bind> (\<lambda>k. Some (Halted k))) (concat (map pending_text (pending k)))" for l
    using sends_bind [OF print_pending_sends [OF assms, of l c "pending k"], of Halted "\<lambda>k. Some (Halted k)" "[]"] sends_Some by auto
  show ?thesis
    unfolding sync_exception_handler_full_def exception_text_def Let_def
    by (intro hexline_then decline_then sends_bind [OF print_regs_sends [OF assms names]] assms;
        (simp only: frame_simps, intro decline_then assms)?; (simp only: frame_simps pend)?)
       simp_all
qed

section \<open>The other reports\<close>

definition hist_text :: "switch_rec \<Rightarrow> string" where
  "hist_text x = (if sw_site x = [] then [] else '' site='' @ sw_site x @ dec_text ''  prev_id='' (of_int (sw_prev x)) @
     dec_text ''  next_id='' (of_int (sw_next x)))"

definition dump_text :: "'z main_state_scheme \<Rightarrow> string" where
  "dump_text k = (''CORRUPT sp: recent switch history (oldest first)'' @ CRLF) @ concat (map hist_text (hist_oldest_first k))"

lemma dump_entries_sends:
  assumes "uart_ready k"
  shows "sends (\<lambda>k. k) k l (dump_entries c xs (did l k)) (concat (map hist_text xs))"
proof (induction xs arbitrary: l)
  case Nil
  then show ?case by (simp add: sends_Some [where h = "\<lambda>k. k"])
next
  case (Cons x xs)
  have "sends (\<lambda>k. k) k l (do {
       k \<leftarrow> uart_puts c '' site='' (did l k);
       k \<leftarrow> uart_puts c (sw_site x) k;
       k \<leftarrow> print_decline c ''  prev_id='' (of_int (sw_prev x)) k;
       k \<leftarrow> print_decline c ''  next_id='' (of_int (sw_next x)) k;
       dump_entries c xs k })
     ('' site='' @ sw_site x @ dec_text ''  prev_id='' (of_int (sw_prev x)) @ dec_text ''  next_id='' (of_int (sw_next x)) @
      concat (map hist_text xs))"
    by (intro puts_then decline_then assms Cons) simp_all
  then show ?case using Cons by (simp add: hist_text_def [of x])
qed

lemma dump_sends:
  assumes "uart_ready k"
  shows "sends (\<lambda>k. k) k l (dump_switch_hist c (did l k)) (dump_text k)"
  unfolding dump_switch_hist_def dump_text_def
  by (intro puts_then assms, simp only: frame_simps) (rule dump_entries_sends [OF assms])

lemma dump_halts:
  assumes "uart_ready k"
  shows "sends Halted k l (dump_switch_hist c (did l k) \<bind> (\<lambda>k. Some (Halted k))) (dump_text k)"
  using sends_bind [OF dump_sends [OF assms, of l c], of Halted "\<lambda>k. Some (Halted k)" "[]"] sends_Some by auto

definition pre_switch_text :: "image \<Rightarrow> string \<Rightarrow> u64 \<Rightarrow> u64 \<Rightarrow> 'z main_state_scheme \<Rightarrow> string" where
  "pre_switch_text im where nxt bad_sp k = ''PRE-SWITCH BAD: next->sp already invalid BEFORE switch_to, site='' @ where @
     dec_text ''  next_id='' (of_int (hist_id im nxt)) @ hex_text ''  bad next->sp='' bad_sp @ dump_text k"

lemma report_pre_switch_sends:
  assumes "uart_ready k"
  shows "sends Halted k l (report_pre_switch_bad im c where nxt bad_sp (did l k)) (pre_switch_text im where nxt bad_sp k)"
  unfolding report_pre_switch_bad_def pre_switch_text_def Let_def
  by (intro puts_then decline_then hexline_then assms dump_halts) simp_all

end
