(* ===== verification/Debug.thy ===== *)
theory Debug
  imports Diag
begin

text \<open>
  The kernel compiled with \<open>DEBUG_HOOKS\<close>: \<open>checked_switch_to\<close> as \<open>sched.c\<close> and \<open>sync.c\<close> then have it, the calls
  inside \<open>switch_to\<close> (\<open>switch.S\<close>), the sweep over the workers at every timer tick of CPU 0 and the report after a switch
  in \<open>irq_handler\<close> (\<open>main.c\<close>); and the control experiment \<open>DISABLE_REAL_DMA\<close> of \<open>worker_entry\<close>. The default build
  has none of this; the theorems say when the checks stop the machine, and that otherwise they
  change nothing but their own records. The hooks of \<open>switch_to\<close> are C functions: they keep x19 to x28, and what
  they leave in x0 to x18 is not used before it is loaded again.
\<close>

section \<open>Operations\<close>

record debug_state = boot_state +
  w_sp_log :: "nat \<Rightarrow> u64 list"
  w_sp_log_idx :: "nat \<Rightarrow> nat"
  fake_cmd_id_counter :: u64

definition dbg_switch_to :: "image \<Rightarrow> nat \<Rightarrow> u64 \<Rightarrow> u64 \<Rightarrow> 'z main_state_scheme \<Rightarrow> 'z main_state_scheme boot_end option" where
  "dbg_switch_to im c old_sp_ptr new_sp k =
    (let k = switch_save c k;
         k = set_x c 19 old_sp_ptr k;
         k = set_x c 20 new_sp k;
         k = set_x c 21 (sp_reg (regs k c)) k;
         k = set_x c 0 (get_x c 19 k) k;
         k = set_x c 1 (get_x c 21 k) k in do {
     r \<leftarrow> check_sp_write im c (get_x c 0 k) (get_x c 1 k) k;
     case r of
       Halted k \<Rightarrow> Some (Halted k)
     | Running k \<Rightarrow> do {
         let k = upd_tcb (get_x c 19 k) (\<lambda>t. t\<lparr>tcb_sp := get_x c 21 k\<rparr>) k;
         let k = set_sp c (get_x c 20 k) k;
         let k = set_x c 0 (get_x c 20 k) k;
         k \<leftarrow> trace_switch_resume c (get_x c 0 k) k;
         Some (Running (switch_restore c k)) } })"

text \<open>Up to the switch, and after it, when \<open>prev\<close> runs again.\<close>

definition dbg_checked_switch_to :: "image \<Rightarrow> nat \<Rightarrow> u64 \<Rightarrow> u64 \<Rightarrow> string \<Rightarrow> 'z main_state_scheme \<Rightarrow>
    'z main_state_scheme boot_end option" where
  "dbg_checked_switch_to im c prev nxt where k =
    (let k = record_switch im where prev nxt k;
         sp = tcb_sp (tcbs k nxt) in
     if \<not> in_stack nxt sp then report_pre_switch_bad im c where nxt sp k
     else dbg_switch_to im c prev sp k)"

definition dbg_after_switch :: "nat \<Rightarrow> u64 \<Rightarrow> string \<Rightarrow> 'z main_state_scheme \<Rightarrow> 'z main_state_scheme boot_end option" where
  "dbg_after_switch c prev where k =
    (let (flags, k) = irq_disable_save c k;
         bad_sp = tcb_sp (tcbs k prev);
         bad = (\<not> in_stack prev bad_sp);
         k = irq_restore c flags k in
     if bad then report_corrupt_sp c where bad_sp k else Some (Running k))"

section \<open>The tick of CPU 0\<close>

fun log_sps :: "image \<Rightarrow> nat list \<Rightarrow> 'z debug_state_scheme \<Rightarrow> 'z debug_state_scheme" where
  "log_sps im [] k = k"
| "log_sps im (i # is) k =
    (let k = k\<lparr>w_sp_log := (w_sp_log k)(i := (w_sp_log k i)[w_sp_log_idx k i := tcb_sp (tcbs k (taskWorker im i))])\<rparr>;
         k = k\<lparr>w_sp_log_idx := (w_sp_log_idx k)(i := (w_sp_log_idx k i + 1) mod SWITCH_HIST_LEN)\<rparr>
     in log_sps im is k)"

definition sp_lost :: "image \<Rightarrow> nat \<Rightarrow> 'z kernel_scheme \<Rightarrow> bool" where
  "sp_lost im i k \<longleftrightarrow> (let s = tcb_sp (tcbs k (taskWorker im i)) in s \<noteq> 0 \<and> \<not> in_stack (taskWorker im i) s)"

definition sp_log_oldest_first :: "nat \<Rightarrow> 'z debug_state_scheme \<Rightarrow> u64 list" where
  "sp_log_oldest_first i k = map (\<lambda>j. w_sp_log k i ! ((w_sp_log_idx k i + j) mod SWITCH_HIST_LEN)) [0..<SWITCH_HIST_LEN]"

definition sweep_report :: "image \<Rightarrow> nat \<Rightarrow> nat \<Rightarrow> 'z debug_state_scheme \<Rightarrow> 'z debug_state_scheme boot_end option" where
  "sweep_report im c i k = do {
     k \<leftarrow> uart_puts c (''W SP LOG for the bad worker (oldest first):'' @ CRLF) k;
     k \<leftarrow> print_each (\<lambda>(p, v). print_hexline c p v) (map (\<lambda>v. (''  '', v)) (sp_log_oldest_first i k)) k;
     k \<leftarrow> uart_puts c ''TICK-SWEEP: worker sp went bad while NOT being switched, id='' k;
     k \<leftarrow> uart_puts c (char_of (48 + i) # CRLF) k;
     k \<leftarrow> print_hexline c ''  bad sp='' (tcb_sp (tcbs k (taskWorker im i))) k;
     k \<leftarrow> dump_switch_hist c k;
     Some (Halted k) }"

fun sweep :: "image \<Rightarrow> nat \<Rightarrow> nat list \<Rightarrow> 'z debug_state_scheme \<Rightarrow> 'z debug_state_scheme boot_end option" where
  "sweep im c [] k = Some (Running k)"
| "sweep im c (i # is) k = (if sp_lost im i k then sweep_report im c i k else sweep im c is k)"

text \<open>The timer branch of \<open>irq_handler\<close>, up to the switch.\<close>

definition dbg_primary_tick :: "image \<Rightarrow> bool \<Rightarrow> nat \<Rightarrow> u32 \<Rightarrow> 'z debug_state_scheme \<Rightarrow> 'z debug_state_scheme boot_end option" where
  "dbg_primary_tick im lb c irq k = do {
     let k = upd_this c (\<lambda>l. l\<lparr>irq_count := irq_count l + 1\<rparr>) k;
     let k = log_sps im [0..<NUM_WORKERS] k;
     r \<leftarrow> sweep im c [0..<NUM_WORKERS] k;
     case r of
       Halted k \<Rightarrow> Some (Halted k)
     | Running k \<Rightarrow> do {
         (nxt, k) \<leftarrow> primary_select lb c irq k;
         if nxt \<noteq> current c k then
           (let prev = current c k;
                k = set_current c nxt k;
                k = record_switch im ''irq_handler'' prev nxt k;
                sp = tcb_sp (tcbs k nxt) in
            if \<not> in_stack nxt sp then report_pre_switch_bad im c ''irq_handler'' nxt sp k
            else dbg_switch_to im c prev sp k)
         else Some (Running k) } }"

text \<open>And after it, when \<open>prev\<close> runs again; \<open>nxt\<close> is the local variable of the call that switched away.\<close>

fun print_matches :: "image \<Rightarrow> nat \<Rightarrow> u64 \<Rightarrow> nat list \<Rightarrow> 'z main_state_scheme \<Rightarrow> 'z main_state_scheme option" where
  "print_matches im c sp [] k = Some k"
| "print_matches im c sp (i # is) k = do {
     k \<leftarrow> (if in_stack (taskWorker im i) sp then print_decline c ''CORRUPT sp: MATCH worker='' (of_nat i) k else Some k);
     print_matches im c sp is k }"

definition irq_after_switch :: "image \<Rightarrow> nat \<Rightarrow> u64 \<Rightarrow> u64 \<Rightarrow> 'z main_state_scheme \<Rightarrow> 'z main_state_scheme boot_end option" where
  "irq_after_switch im c prev nxt k =
    (let sp = tcb_sp (tcbs k prev) in
     if \<not> in_stack prev sp then do {
       k \<leftarrow> print_hexline c ''CORRUPT sp after irq_handler switch_to, sp='' sp k;
       k \<leftarrow> print_hexline c ''CORRUPT sp: MPIDR_EL1 of offending core='' (mpidr_el1 im c) k;
       k \<leftarrow> print_decline c ''CORRUPT sp: prev worker id='' (of_int (worker_id_of im prev)) k;
       let canary_lo = mem k (stack_addr prev 0);
       let canary_hi = mem k (stack_addr prev (STACK_WORDS - 1));
       k \<leftarrow> print_hexline c ''CORRUPT sp: prev->stack[0] (low canary)='' canary_lo k;
       k \<leftarrow> print_hexline c ''CORRUPT sp: prev->stack[top] (high canary)='' canary_hi k;
       k \<leftarrow> print_decline c ''CORRUPT sp: low canary intact (1=yes)='' (if canary_lo = CANARY then 1 else 0) k;
       k \<leftarrow> print_decline c ''CORRUPT sp: high canary intact (1=yes)='' (if canary_hi = CANARY then 1 else 0) k;
       k \<leftarrow> print_matches im c sp [0..<NUM_WORKERS] k;
       k \<leftarrow> print_decline c ''CORRUPT sp: next worker id='' (of_int (worker_id_of im nxt)) k;
       k \<leftarrow> (if in_stack (busy_task im) sp
             then uart_puts c (''CORRUPT sp: matches busy_task's valid range'' @ CRLF) k else Some k);
       k \<leftarrow> print_hexline c ''CORRUPT sp: next->sp for comparison='' (tcb_sp (tcbs k nxt)) k;
       k \<leftarrow> print_hexline c ''CORRUPT sp: &prev->stack[0]='' (stack_addr prev 0) k;
       k \<leftarrow> print_hexline c ''CORRUPT sp: &next->stack[0]='' (stack_addr nxt 0) k;
       k \<leftarrow> dump_switch_hist c k;
       Some (Halted k) }
     else Some (Running k))"

section \<open>The control experiment\<close>

text \<open>A completion made up on the spot; the data is copied by the CPU.\<close>

definition fake_submit :: "nat \<Rightarrow> nat \<Rightarrow> u64 \<Rightarrow> 'z debug_state_scheme \<Rightarrow> (u64 \<times> 'z debug_state_scheme) option" where
  "fake_submit c i s k = do {
     (flags, k) \<leftarrow> spin_lock_irqsave c Accel_lock k;
     let k = k\<lparr>fake_cmd_id_counter := fake_cmd_id_counter k + 1\<rparr>;
     let cmd_id = fake_cmd_id_counter k;
     let k = k\<lparr>dst_buf := (dst_buf k)(i := src_buf k i)\<rparr>;
     let k = pending_register cmd_id s k;
     let k = upd_pending i (\<lambda>p. p\<lparr>pr_result := (pr_result p)\<lparr>cq_cmd_id := cmd_id\<rparr>\<rparr>) k;
     let k = upd_pending i (\<lambda>p. p\<lparr>pr_result := (pr_result p)\<lparr>cq_status := 0\<rparr>\<rparr>) k;
     let k = upd_pending i (\<lambda>p. p\<lparr>pr_done := 1\<rparr>) k;
     k \<leftarrow> sem_post c s k;
     Some (cmd_id, spin_unlock_irqrestore c Accel_lock flags k) }"

section \<open>The checked switch\<close>

lemma did_record [simp]: "did l (record_switch im w p n k) = record_switch im w p n (did l k)"
  by (simp add: did_def record_switch_def Let_def)

lemma record_switch_frame [frame_simps]:
  "tcbs (record_switch im w p n k) = tcbs k" "regs (record_switch im w p n k) = regs k" "mem (record_switch im w p n k) = mem k"
  "locks (record_switch im w p n k) = locks k" "dev (record_switch im w p n k) = dev k"
  "current c (record_switch im w p n k) = current c k"
  by (simp_all add: record_switch_def Let_def current_def this_cpu_def)

lemma uart_ready_record [simp]: "uart_ready (record_switch im w p n k) = uart_ready k"
  by (simp add: uart_ready_def uart_live_def frame_simps)

lemma dbg_switch_halts:
  assumes "uart_ready k" "\<not> in_stack nxt (tcb_sp (tcbs k nxt))"
  shows "\<exists>l. dbg_checked_switch_to im c prev nxt w k = Some (Halted (did l (record_switch im w prev nxt k))) \<and>
     uart_sent l = map of_char (pre_switch_text im w nxt (tcb_sp (tcbs k nxt)) (record_switch im w prev nxt k))"
proof -
  let ?k = "record_switch im w prev nxt k"
  have "sends Halted ?k [] (report_pre_switch_bad im c w nxt (tcb_sp (tcbs k nxt)) (did [] ?k))
      (pre_switch_text im w nxt (tcb_sp (tcbs k nxt)) ?k)"
    using assms(1) by (intro report_pre_switch_sends) simp
  then show ?thesis using assms(2) by (simp add: sends_def dbg_checked_switch_to_def frame_simps del: did_record)
qed

lemma regs_order:
  fixes r :: cpu_regs
  shows "r\<lparr>daif := d, xreg := x\<rparr> = r\<lparr>xreg := x, daif := d\<rparr>" "r\<lparr>pc_reg := p, xreg := x\<rparr> = r\<lparr>xreg := x, pc_reg := p\<rparr>"
    "r\<lparr>sp_reg := s, xreg := x\<rparr> = r\<lparr>xreg := x, sp_reg := s\<rparr>"
  by simp_all

lemma pop_set_x:
  "n \<noteq> a \<Longrightarrow> ldr_pop c a (set_x c n v k) = set_x c n v (ldr_pop c a k)"
  "n \<noteq> a \<Longrightarrow> n \<noteq> b \<Longrightarrow> ldp_pop c a b (set_x c n v k) = set_x c n v (ldp_pop c a b k)"
  by (simp_all add: insn_defs regs_order fun_upd_twist [of n])

lemma restore_set_x:
  assumes "n < 19" "n \<noteq> 3"
  shows "switch_restore c (set_x c n v k) = set_x c n v (switch_restore c k)"
proof -
  have ne: "n \<noteq> 19" "n \<noteq> 20" "n \<noteq> 21" "n \<noteq> 22" "n \<noteq> 23" "n \<noteq> 24" "n \<noteq> 25" "n \<noteq> 26" "n \<noteq> 27" "n \<noteq> 28" "n \<noteq> 29" "n \<noteq> 30"
    using assms by simp_all
  have ret: "upd_regs c (\<lambda>r. r\<lparr>pc_reg := xreg r 30\<rparr>) (upd_regs c (\<lambda>r. r\<lparr>daif := get_x c 3 (set_x c n v k')\<rparr>) (set_x c n v k')) =
      set_x c n v (upd_regs c (\<lambda>r. r\<lparr>pc_reg := xreg r 30\<rparr>) (upd_regs c (\<lambda>r. r\<lparr>daif := get_x c 3 k'\<rparr>) k'))" for k'
    using assms by (simp add: insn_defs regs_order)
  show ?thesis unfolding switch_restore_def Let_def
    by (simp only: pop_set_x ne assms(2) not_False_eq_True) (rule ret)
qed

lemma dbg_switch_runs:
  assumes "prev \<noteq> taskWorker im 1 \<or> in_stack prev (sp_reg (regs (switch_save c k) c))"
    and "0x40000000 \<le> mem (switch_save c k) (sp + 24)"
  shows "\<exists>v w. dbg_switch_to im c prev sp k = Some (Running (set_x c 0 v (set_x c 1 w (switch_to c prev sp k))))"
proof -
  let ?s = "set_x c 21 (sp_reg (regs (switch_save c k) c)) (set_x c 20 sp (set_x c 19 prev (switch_save c k)))"
  let ?h = "set_x c 1 (sp_reg (regs (switch_save c k) c)) (set_x c 0 prev ?s)"
  let ?t = "set_sp c sp (upd_tcb prev (\<lambda>t. t\<lparr>tcb_sp := sp_reg (regs (switch_save c k) c)\<rparr>) ?h)"
  let ?u = "set_sp c sp (upd_tcb prev (\<lambda>t. t\<lparr>tcb_sp := sp_reg (regs (switch_save c k) c)\<rparr>) ?s)"
  have "check_sp_write im c prev (sp_reg (regs (switch_save c k) c)) ?h = Some (Running ?h)"
    using assms(1) by (auto simp: check_sp_write_def)
  moreover have "trace_switch_resume c sp (set_x c 0 sp ?t) = Some (set_x c 0 sp ?t)"
    using assms(2) by (simp add: trace_switch_resume_def insn_defs)
  ultimately have "dbg_switch_to im c prev sp k = Some (Running (switch_restore c (set_x c 0 sp ?t)))"
    unfolding dbg_switch_to_def Let_def by (simp add: get_x_def set_x_def set_sp_def)
  moreover have "set_x c 0 sp ?t = set_x c 0 sp (set_x c 1 (sp_reg (regs (switch_save c k) c)) ?u)"
    by (simp add: insn_defs regs_order fun_upd_twist)
  moreover have "switch_to c prev sp k = switch_restore c ?u"
    unfolding switch_to_def Let_def by (simp add: insn_defs)
  moreover have "switch_restore c (set_x c 0 v k) = set_x c 0 v (switch_restore c k)"
    "switch_restore c (set_x c 1 v k) = set_x c 1 v (switch_restore c k)" for v and k :: "'a main_state_scheme"
    by (rule restore_set_x; simp)+
  ultimately show ?thesis by (simp only: option.inject boot_end.inject) blast
qed

section \<open>The sweep\<close>

lemma log_sps_frame [frame_simps]:
  "tcbs (log_sps im is k) = tcbs k" "locks (log_sps im is k) = locks k" "dev (log_sps im is k) = dev k"
  "regs (log_sps im is k) = regs k" "cpu_locals (log_sps im is k) = cpu_locals k"
  by (induction im "is" k rule: log_sps.induct) (simp_all add: Let_def)

lemma log_sps_local: "log_sps im is (k\<lparr>cpu_locals := x\<rparr>) = (log_sps im is k)\<lparr>cpu_locals := x\<rparr>"
proof (induction "is" arbitrary: k)
  case (Cons i "is")
  have "log_sps im is (k\<lparr>cpu_locals := x, w_sp_log := y, w_sp_log_idx := z\<rparr>) =
      log_sps im is (k\<lparr>w_sp_log := y, w_sp_log_idx := z, cpu_locals := x\<rparr>)" for y z by (rule arg_cong [where f = "log_sps im is"]) simp
  also have "log_sps im is (k\<lparr>w_sp_log := y, w_sp_log_idx := z, cpu_locals := x\<rparr>) =
      (log_sps im is (k\<lparr>w_sp_log := y, w_sp_log_idx := z\<rparr>))\<lparr>cpu_locals := x\<rparr>" for y z by (rule Cons)
  finally show ?case by (simp add: Let_def)
qed simp

lemma did_debug [frame_simps]: "sp_log_oldest_first i (did l k) = sp_log_oldest_first i k"
  by (simp add: sp_log_oldest_first_def did_def)

definition sweep_text :: "image \<Rightarrow> nat \<Rightarrow> 'z debug_state_scheme \<Rightarrow> string" where
  "sweep_text im i k = (''W SP LOG for the bad worker (oldest first):'' @ CRLF) @
     concat (map (hex_text ''  '') (sp_log_oldest_first i k)) @
     ''TICK-SWEEP: worker sp went bad while NOT being switched, id='' @ (char_of (48 + i) # CRLF) @
     hex_text ''  bad sp='' (tcb_sp (tcbs k (taskWorker im i))) @ dump_text k"

lemma sweep_report_sends:
  assumes "uart_ready k"
  shows "sends Halted k l (sweep_report im c i (did l k)) (sweep_text im i k)"
proof -
  have log: "sends (\<lambda>k. k) k l (print_each (\<lambda>(p, v). print_hexline c p v) (map (\<lambda>v. (''  '', v)) vs) (did l k))
      (concat (map (hex_text ''  '') vs))" for vs l
    using hexline.each_sends [OF assms, of "map (\<lambda>v. (''  '', v)) vs" l c] by (simp add: list_all_iff comp_def)
  show ?thesis unfolding sweep_report_def sweep_text_def
    by (intro puts_then assms, simp only: frame_simps, intro sends_bind [OF log] puts_then assms, simp only: frame_simps,
        intro hexline_then assms dump_halts) simp
qed

lemma sweep_result:
  assumes "uart_ready k"
  shows "case find (\<lambda>i. sp_lost im i k) is of
     None \<Rightarrow> sweep im c is k = Some (Running k)
   | Some i \<Rightarrow> \<exists>l. sweep im c is k = Some (Halted (did l k)) \<and> uart_sent l = map of_char (sweep_text im i k)"
proof (induction "is")
  case (Cons i "is")
  then show ?case using sweep_report_sends [OF assms, of "[]" im c i]
    by (cases "find (\<lambda>i. sp_lost im i k) is"; cases "sp_lost im i k") (simp_all add: sends_def)
qed simp

text \<open>The state after the tick has been counted and the stack pointers logged.\<close>

definition tick_logged :: "image \<Rightarrow> nat \<Rightarrow> 'z debug_state_scheme \<Rightarrow> 'z debug_state_scheme" where
  "tick_logged im c k = log_sps im [0..<NUM_WORKERS] (upd_this c (\<lambda>l. l\<lparr>irq_count := irq_count l + 1\<rparr>) k)"

lemma tick_logged_frame:
  "uart_ready (tick_logged im c k) = uart_ready k" "sp_lost im i (tick_logged im c k) = sp_lost im i k"
  by (simp_all add: tick_logged_def uart_ready_def uart_live_def sp_lost_def frame_simps)

section \<open>The experiment records its result in the wrong slot\<close>

lemma sem_post_pending:
  assumes "sem_post c s k = Some k'"
  shows "pending k' = pending k"
  using assms by (auto simp: sem_post_def sched_wake_def lock_defs rq_at_def dsb_sev_def io_write_def Let_def split: if_splits bind_splits)

text \<open>\<open>pending_register\<close> takes the first free slot, the result goes to the slot with the number of the worker: if
  worker 1 is the first to submit, its own entry stays undone and without a result.\<close>

lemma fake_wrong_slot:
  assumes "fake_submit c 1 s k = Some (cmd_id, k')" "length (pending k) = NUM_WORKERS" "pr_used (pending k ! 0) = 0"
  shows "waits_for cmd_id (pending k' ! 0) \<and> pr_result (pending k' ! 0) = pr_result (pending k ! 0) \<and> pr_done (pending k' ! 1) = 1"
proof -
  have len: "length (pending k) = 3" using assms(2) by (simp add: NUM_WORKERS_def)
  have reg: "pending_register cmd_id s k1 =
      upd_pending 0 (\<lambda>p. p\<lparr>pr_cmd_id := cmd_id, pr_sem := s, pr_used := 1, pr_done := 0\<rparr>) k1"
    if "pending k1 = pending k" for cmd_id and k1 :: "'a debug_state_scheme"
    using assms(3) that by (simp add: pending_register_def first_slot_def NUM_WORKERS_def upt_rec)
  have "pending k' = (pending k)[0 := (pending k ! 0)\<lparr>pr_cmd_id := cmd_id, pr_sem := s, pr_used := 1, pr_done := 0\<rparr>,
      1 := (pending k ! 1)\<lparr>pr_result := (pr_result (pending k ! 1))\<lparr>cq_cmd_id := cmd_id, cq_status := 0\<rparr>, pr_done := 1\<rparr>]"
    using assms(1) len by (auto simp: fake_submit_def reg lock_defs Let_def dest!: sem_post_pending split: if_splits bind_splits)
  then show ?thesis using len by (simp add: waits_for_def)
qed

section \<open>Properties\<close>


text \<open>The sweep of the debug build. At a timer tick of CPU 0 the machine halts, before anything is scheduled, exactly if the saved
  stack pointer of some worker is neither 0 nor in the worker's stack; the report is about the first such
  worker. If there is none, it goes on with the selection and, when another task is selected, with the checked switch to it; when
  the current task is kept, the tick is that of the default build.\<close>

lemma debug_tick_exact:
  assumes "uart_ready k"
  shows "case find (\<lambda>i. sp_lost im i k) [0..<NUM_WORKERS] of
     Some i \<Rightarrow> \<exists>l. dbg_primary_tick im lb c irq k = Some (Halted (did l (tick_logged im c k))) \<and>
        uart_sent l = map of_char (sweep_text im i (tick_logged im c k))
   | None \<Rightarrow> dbg_primary_tick im lb c irq k = primary_select lb c irq (tick_logged im c k) \<bind> (\<lambda>(nxt, k').
          if nxt \<noteq> current c k' then dbg_checked_switch_to im c (current c k') nxt ''irq_handler'' (set_current c nxt k')
          else Some (Running k')) \<and>
        (\<forall>k'. primary_select lb c irq (tick_logged im c k) = Some (current c k', k') \<longrightarrow>
          primary_tick lb c irq (log_sps im [0..<NUM_WORKERS] k) = Some k' \<and> dbg_primary_tick im lb c irq k = Some (Running k'))"
proof -
  let ?k = "tick_logged im c k"
  have r: "uart_ready ?k" and lost: "(\<lambda>i. sp_lost im i ?k) = (\<lambda>i. sp_lost im i k)" using assms by (simp_all add: tick_logged_frame)
  have "primary_tick lb c irq (log_sps im [0..<NUM_WORKERS] k) = do {
      (nxt, k) \<leftarrow> primary_select lb c irq ?k;
      Some (if nxt \<noteq> current c k then
             (let prev = current c k; k = set_current c nxt k in switch_to c prev (tcb_sp (tcbs k nxt)) k) else k) }"
    by (simp add: primary_tick_def tick_logged_def log_sps_local frame_simps)
  then show ?thesis using sweep_result [OF r, of im c "[0..<NUM_WORKERS]"]
    unfolding lost dbg_primary_tick_def dbg_checked_switch_to_def Let_def tick_logged_def [symmetric] by (auto split: option.splits)
qed

section \<open>Witnesses\<close>

definition debug_sample :: debug_state where
  "debug_sample = boot_state.extend boot_sample (debug_state.fields (\<lambda>_. replicate 16 0) (\<lambda>_. 0) 0)\<lparr>tcbs := \<lambda>_. sample_tcb\<lparr>tcb_sp := 0x10\<rparr>\<rparr>"

lemma debug_sample_simps [simp]: "tcbs debug_sample t = sample_tcb\<lparr>tcb_sp := 0x10\<rparr>" "uart_ready debug_sample"
proof -
  have "locks debug_sample = locks boot_sample" "dev debug_sample = dev boot_sample"
    by (simp_all add: debug_sample_def boot_state.extend_def debug_state.fields_def)
  then show "uart_ready debug_sample" using boot_sample_ok(2) by (simp add: uart_ready_def boot_ok_def uart_live_def)
qed (simp add: debug_sample_def)


end
