(* ===== verification/Worker.thy ===== *)
theory Worker
  imports Diag
begin

text \<open>
  The workers of the integration test (\<open>worker_entry\<close> of \<open>kernel/main.c\<close>), cut at the points where they may block: from the
  entry to the wait for the completion, from the wait to the report, and the passes of the last loop. \<open>DISABLE_REAL_DMA\<close> is off.
  The theorems follow one request through the components: a worker submits it, registers and blocks; the dispatch of its
  completion records the result and wakes it; it finds its own result, and says of the data what the device wrote.
\<close>

section \<open>Workers\<close>

definition TEST_LEN :: nat where "TEST_LEN = 128"
definition DMA_ACCEL_OK :: u32 where "DMA_ACCEL_OK = 0"

definition test_pattern :: "nat \<Rightarrow> u8 list" where
  "test_pattern i = map (\<lambda>j. of_nat (j + i * 17) XOR 0xA5) [0..<TEST_LEN]"

definition cpu_suffix :: "nat \<Rightarrow> string" where
  "cpu_suffix i = ['' runs on CPU0'' @ CRLF, '' runs on CPU1'' @ CRLF, '' runs on CPU2'' @ CRLF, '' runs on CPU3'' @ CRLF] ! (i mod 4)"

text \<open>From the entry to the wait for the completion. A task that is no worker reports and halts.\<close>

datatype 'k worker_start = Fatal 'k | Submitted nat u64 "'k outcome"

definition worker_begin :: "image \<Rightarrow> nat \<Rightarrow> 'z main_state_scheme \<Rightarrow> 'z main_state_scheme worker_start option" where
  "worker_begin im c k =
    (let wid = worker_id_of im (current c k) in
     if wid < 0 then do {
       k \<leftarrow> uart_puts c (''FATAL: worker_id_of(current) returned -1 in worker_entry!'' @ CRLF) k;
       k \<leftarrow> print_hexline c ''  current ptr='' (current c k) k;
       Some (Fatal k) }
     else do {
       let i = nat wid;
       let k = k\<lparr>src_buf := (src_buf k)(i := test_pattern i), dst_buf := (dst_buf k)(i := replicate TEST_LEN 0)\<rparr>;
       let k = sem_init (worker_sem im i) 0 k;
       k \<leftarrow> klog c ''D2b: worker '' (of_nat i) True (cpu_suffix (my_id c k)) k;
       (cmd_id, k) \<leftarrow> worker_submit c (src_phys im i) (dst_phys im i) (of_nat TEST_LEN) (worker_sem im i) k;
       k \<leftarrow> print_decline c ''P4 M7: worker submitted cmd_id='' cmd_id k;
       r \<leftarrow> sem_wait c (worker_sem im i) k;
       Some (Submitted i cmd_id r) })"

text \<open>\<open>dst_buf[i]\<close> as the CPU reads it: what the device wrote over the last stores of the CPU.\<close>

definition dst_seen :: "nat \<Rightarrow> 'z main_state_scheme \<Rightarrow> u8 list" where
  "dst_seen i k = (case dma_dst k (io_log k) i of Some b \<Rightarrow> b | None \<Rightarrow> dst_buf k i)"

text \<open>After the wait: find the result, check it and the data. With no entry for the command the index is -1: out of bounds.\<close>

definition worker_finish :: "nat \<Rightarrow> nat \<Rightarrow> u64 \<Rightarrow> 'z main_state_scheme \<Rightarrow> 'z main_state_scheme option" where
  "worker_finish c i cmd_id k = do {
     slot \<leftarrow> first_slot (\<lambda>p. pr_used p \<noteq> 0 \<and> pr_cmd_id p = cmd_id) k;
     let cm = pr_result (pending k ! slot);
     k \<leftarrow> (if cq_cmd_id cm \<noteq> cmd_id \<or> cq_status cm \<noteq> DMA_ACCEL_OK
           then uart_puts c (''P4 M7: !!! worker got wrong/bad completion !!!'' @ CRLF) k else Some k);
     let data_ok = (dst_seen i k = src_buf k i);
     k \<leftarrow> print_decline c (if data_ok then ''P4 M7: worker DATA OK, cmd_id='' else ''P4 M7: worker DATA MISMATCH, cmd_id='') cmd_id k;
     let k = k\<lparr>worker_loops_seen := (worker_loops_seen k)[i := 1]\<rparr>;
     print_decline c ''WORKER ewma='' (ucast (ewma_load (tcbs k (current c k)))) k }"

text \<open>One pass through the last loop: \<open>None\<close> in the inner result when every worker is done.\<close>

definition worker_poll :: "nat \<Rightarrow> 'z main_state_scheme \<Rightarrow> 'z main_state_scheme outcome option option" where
  "worker_poll c k =
    (if \<forall>i < NUM_WORKERS. worker_loops_seen k ! i \<noteq> 0 then Some None
     else do { k \<leftarrow> dispatch_available_completions c k; r \<leftarrow> yield c k; Some (Some r) })"

section \<open>From the entry to the wait\<close>

lemma did_worker [frame_simps]:
  "sems (did l k) = sems k" "pending (did l k) = pending k" "src_buf (did l k) = src_buf k" "sq_tail_local (did l k) = sq_tail_local k"
  "worker_loops_seen (did l k) = worker_loops_seen k" "current c (k\<lparr>worker_loops_seen := x\<rparr>) = current c k"
  by (simp_all add: did_def current_def this_cpu_def)

text \<open>What the request of worker \<open>i\<close> on CPU \<open>c\<close> needs: the CPU runs the task of the worker, a slot of the table is free, and no used one has
  the number of the command to come or the semaphore of the worker.\<close>

definition worker_ready :: "image \<Rightarrow> nat \<Rightarrow> nat \<Rightarrow> 'z main_state_scheme \<Rightarrow> bool" where
  "worker_ready im c i k \<longleftrightarrow> sync_ok k \<and> pending_ok k \<and> locks k Accel_lock = 0 \<and> c < MAX_CPUS \<and>
     worker_id_of im (current c k) = int i \<and> current c k \<noteq> NULL \<and> tcb_cpu (tcbs k (current c k)) < MAX_CPUS \<and>
     (\<exists>p \<in> set (pending k). pr_used p = 0) \<and>
     (\<forall>p \<in> set (pending k). pr_used p \<noteq> 0 \<longrightarrow> pr_cmd_id p \<noteq> ucast (sq_tail_local k + 1) \<and> pr_sem p \<noteq> worker_sem im i)"

text \<open>The state behind \<open>sem_init\<close>.\<close>

definition worker_prepared :: "image \<Rightarrow> nat \<Rightarrow> 'z main_state_scheme \<Rightarrow> 'z main_state_scheme" where
  "worker_prepared im i k =
     sem_init (worker_sem im i) 0 (k\<lparr>src_buf := (src_buf k)(i := test_pattern i), dst_buf := (dst_buf k)(i := replicate TEST_LEN 0)\<rparr>)"

lemma worker_prepared_frame:
  assumes "sync_ok k"
  shows "tcbs (worker_prepared im i k) = tcbs k" "locks (worker_prepared im i k) = locks k" "pending (worker_prepared im i k) = pending k"
    "current c (worker_prepared im i k) = current c k" "sq_tail_local (worker_prepared im i k) = sq_tail_local k"
    "sems (worker_prepared im i k) s = (if s = worker_sem im i then (sems k s)\<lparr>sem_count := 0, sem_waiter := NULL\<rparr> else sems k s)"
    "src_buf (worker_prepared im i k) i = test_pattern i"
  using assms by (simp_all add: worker_prepared_def sem_init_def Let_def current_def this_cpu_def sync_ok_def fun_upd_idem)

lemma worker_prepared_ok:
  assumes "worker_ready im c i k"
  shows "sync_ok (did l (worker_prepared im i k))" "pending_ok (did l (worker_prepared im i k))"
    "can_register (ucast (sq_tail_local k + 1)) (worker_sem im i) (did l (worker_prepared im i k))"
proof -
  let ?k = "did l (worker_prepared im i k)"
  have ok: "sync_ok k" "pending_ok k" using assms by (simp_all add: worker_ready_def)
  note f = worker_prepared_frame [OF ok(1)]
  have "sched_ok k" using ok by (simp add: sync_ok_def)
  then have "sched_ok ?k"
    by (rule sched_ok_cong) (simp_all add: f frame_simps, simp_all add: worker_prepared_def sem_init_def Let_def)
  then show "sync_ok ?k" using ok(1) by (simp add: sync_ok_def f frame_simps)
  show "pending_ok ?k" "can_register (ucast (sq_tail_local k + 1)) (worker_sem im i) ?k"
    using assms by (auto simp: worker_ready_def pending_ok_def can_register_def can_post_def f frame_simps INT_MAX_def)
qed

lemma worker_submit_frame:
  assumes "worker_submit c src dst len s k = Some (cmd_id, k')" and "locks k Accel_lock = 0"
  shows "tcbs k' = tcbs k" "current d k' = current d k" "src_buf k' = src_buf k"
  using assms
  by (auto simp: worker_submit_def spin_lock_irqsave_free submit_effect pending_register_def submitted_def lock_defs
      current_def this_cpu_def split: option.splits)

lemma more_main:
  fixes k :: "'z main_state_scheme"
  assumes "kernel.more k' = kernel.more k"
  shows "pending k' = pending k" "src_buf k' = src_buf k" "sems k' = sems k"
  using assms by (cases k; cases k'; simp)+

lemma uart_ready_sync: "sync_ok k \<Longrightarrow> uart_ready k"
  by (simp add: sync_ok_def sched_ok_def uart_ready_def all_free_def)

text \<open>A worker that is ready submits its command, is registered for it, and waits for its own semaphore.\<close>

definition worker_waits :: "image \<Rightarrow> nat \<Rightarrow> u64 \<Rightarrow> u64 \<Rightarrow> 'z main_state_scheme \<Rightarrow> bool" where
  "worker_waits im i w cmd_id k \<longleftrightarrow> sync_ok k \<and> pending_ok k \<and> locks k Accel_lock = 0 \<and> w \<noteq> NULL \<and> \<not> ready k w \<and>
     sem_count (sems k (worker_sem im i)) = 0 \<and> sem_waiter (sems k (worker_sem im i)) = w \<and>
     (\<exists>p \<in> set (pending k). waits_for cmd_id p \<and> pr_sem p = worker_sem im i) \<and> src_buf k i = test_pattern i"

lemma pending_ok_wait:
  assumes "pending_ok k" and "pending k' = pending k" "sems k' = (sems k)(s := (sems k s)\<lparr>sem_waiter := w\<rparr>)"
    and "\<And>t. tcb_cpu (tcbs k' t) = tcb_cpu (tcbs k t)" and "w \<noteq> NULL" "tcb_cpu (tcbs k w) < MAX_CPUS"
  shows "pending_ok k'"
  using assms by (auto simp: pending_ok_def can_post_def)

lemma worker_begin_waits:
  assumes rdy: "worker_ready im c i k"
  shows "\<exists>r. worker_begin im c k = Some (Submitted i (ucast (sq_tail_local k + 1)) r) \<and> (\<nexists>k'. r = Returned k') \<and>
     worker_waits im i (current c k) (ucast (sq_tail_local k + 1)) (state_of r)"
proof -
  let ?id = "ucast (sq_tail_local k + 1) :: u64" and ?s = "worker_sem im i" and ?k0 = "worker_prepared im i k"
  have w: "sync_ok k" "locks k Accel_lock = 0" "c < MAX_CPUS" "worker_id_of im (current c k) = int i" "current c k \<noteq> NULL"
    "tcb_cpu (tcbs k (current c k)) < MAX_CPUS" using rdy by (simp_all add: worker_ready_def)
  note f = worker_prepared_frame [OF w(1)]
  have "uart_ready ?k0" using worker_prepared_ok(1) [OF rdy, of "[]"] by (simp add: uart_ready_sync)
  then obtain l where l: "klog c ''D2b: worker '' (of_nat i) True (cpu_suffix (my_id c ?k0)) ?k0 = Some (did l ?k0)"
    using klog_returns [of ?k0 c] unfolding uart_ready_def did_def by metis
  let ?k1 = "did l ?k0"
  note ok1 = worker_prepared_ok [OF rdy, of l]
  have a1: "locks ?k1 Accel_lock = 0" "sq_tail_local ?k1 = sq_tail_local k" using w(2) by (simp_all add: f frame_simps)
  obtain k2 where k2: "worker_submit c (src_phys im i) (dst_phys im i) (of_nat TEST_LEN) ?s ?k1 = Some (?id, k2)" "sync_ok k2" "pending_ok k2"
    "\<exists>p \<in> set (pending k2). waits_for ?id p \<and> pr_sem p = ?s" "locks k2 = locks ?k1" "sems k2 = sems ?k1"
    using worker_submit_result [OF ok1(1,2) a1(1), unfolded a1(2), OF ok1(3)] by blast
  note f2 = worker_submit_frame [OF k2(1) a1(1)]
  obtain l' where l': "print_decline c ''P4 M7: worker submitted cmd_id='' ?id k2 = Some (did l' k2)"
    using print_decline_returns [of k2 "''P4 M7: worker submitted cmd_id=''" c ?id] uart_ready_sync [OF k2(2)]
    unfolding uart_ready_def did_def by auto
  let ?k3 = "did l' k2"
  have sk: "sched_ok k2" using k2(2) by (simp add: sync_ok_def)
  have "sched_ok ?k3" by (rule sched_ok_cong [OF sk]) (simp_all add: frame_simps)
  then have ok3: "sync_ok ?k3" using k2(2) by (simp add: sync_ok_def frame_simps)
  have s3: "sems ?k3 ?s = (sems k ?s)\<lparr>sem_count := 0, sem_waiter := NULL\<rparr>" "current c ?k3 = current c k" "pending ?k3 = pending k2" "src_buf ?k3 = src_buf k2"
    using k2(6) f2(2) by (simp_all add: f frame_simps)
  from sem_wait_blocks [OF ok3 w(3), of ?s] s3(1) obtain r where r: "sem_wait c ?s ?k3 = Some r" "sync_ok (state_of r)" "\<nexists>k'. r = Returned k'"
    "kernel.more (state_of r) = kernel.more (upd_sem ?s (\<lambda>x. x\<lparr>sem_waiter := current c ?k3\<rparr>) ?k3)" "locks (state_of r) = locks ?k3"
    "\<And>t. tcb_state (tcbs (state_of r) t) = (if t = current c ?k3 then 1 else tcb_state (tcbs ?k3 t))"
    "\<And>t. tcb_cpu (tcbs (state_of r) t) = tcb_cpu (tcbs ?k3 t)" by auto
  note m = more_main [OF r(4)]
  have "pending_ok ?k3" by (rule pending_ok_cong [OF k2(3)]) (simp_all add: frame_simps)
  then have "pending_ok (state_of r)"
    by (rule pending_ok_wait [where s = ?s and w = "current c k"]) (use m s3(2) r(7) w(5,6) f2 f in \<open>simp_all add: frame_simps\<close>)
  then have "worker_waits im i (current c k) ?id (state_of r)"
    using r(2,5,6) m s3 k2(4,5) w(2,5) f f2(3) by (simp add: worker_waits_def frame_simps)
  moreover have "worker_begin im c k = Some (Submitted i ?id r)"
    using l k2(1) l' r(1) w(4) by (simp add: worker_begin_def worker_prepared_def Let_def)
  ultimately show ?thesis using r(3) by blast
qed

section \<open>From the wait to the report\<close>

definition has_result :: "u64 \<Rightarrow> dma_accel_completion \<Rightarrow> 'z main_state_scheme \<Rightarrow> bool" where
  "has_result cmd_id cm k \<longleftrightarrow> (\<exists>p \<in> set (pending k). pr_used p \<noteq> 0 \<and> pr_cmd_id p = cmd_id \<and> pr_result p = cm)"

text \<open>Whichever CPU dispatches the completions that wait: the first with the number of the worker becomes its result, and wakes it.\<close>

lemma dispatch_wakes:
  assumes w: "worker_waits im i w cmd_id k" and rest: "cq_rest t ring k"
    and cm: "find (\<lambda>x. cq_cmd_id x = cmd_id) (cq_slots ring (cq_head_local k) (min NUM_WORKERS (cq_waiting t k))) = Some cm"
  shows "\<exists>k'. dispatch_available_completions d k = Some k' \<and> ready k' w \<and> has_result cmd_id cm k' \<and> pending_ok k'"
proof -
  let ?cms = "cq_slots ring (cq_head_local k) (min NUM_WORKERS (cq_waiting t k))"
  from w obtain p where p: "p \<in> set (pending k)" "waits_for cmd_id p" "pr_sem p = worker_sem im i" and
    ok: "sync_ok k" "pending_ok k" "locks k Accel_lock = 0" and s: "sem_waiter (sems k (worker_sem im i)) = w" "w \<noteq> NULL"
    by (auto simp: worker_waits_def)
  from dispatch_result [OF ok rest, of d] obtain k' where
    k': "dispatch_available_completions d k = Some k'" "pending_ok k'" "dispatched ?cms k k'" by blast
  note D = dispatchedD [OF k'(3)]
  have "waits_for (cq_cmd_id x) p \<longleftrightarrow> cq_cmd_id x = cmd_id" for x :: dma_accel_completion using p(2) by (auto simp: waits_for_def)
  then have del: "deliver ?cms p = p\<lparr>pr_result := cm, pr_done := 1\<rparr>" using cm by (simp add: deliver_def)
  have "cm \<in> set ?cms" "cq_cmd_id cm = cmd_id" using cm by (auto simp: find_Some_iff in_set_conv_nth)
  then have "served ?cms k (worker_sem im i)" using p by (auto simp: served_def)
  then have "ready k' w" using D(3) [of w] s by auto
  moreover have "deliver ?cms p \<in> set (pending k')" using p(1) by (simp add: D(1))
  then have "has_result cmd_id cm k'" unfolding has_result_def del using p(2) by (intro bexI) (auto simp: waits_for_def)
  ultimately show ?thesis using k' by blast
qed

text \<open>The worker finds the entry with its number, and there is no other.\<close>

lemma own_slot:
  assumes "pending_ok k" and "has_result cmd_id cm k"
  obtains j where "first_slot (\<lambda>p. pr_used p \<noteq> 0 \<and> pr_cmd_id p = cmd_id) k = Some j" "pr_result (pending k ! j) = cm"
proof -
  from assms(2) obtain p where p: "p \<in> set (pending k)" "pr_used p \<noteq> 0" "pr_cmd_id p = cmd_id" "pr_result p = cm" by (auto simp: has_result_def)
  have len: "length (pending k) = NUM_WORKERS" using assms(1) by (simp add: pending_ok_def)
  from p len first_slot_None [of "\<lambda>p. pr_used p \<noteq> 0 \<and> pr_cmd_id p = cmd_id" k]
  obtain j where j: "first_slot (\<lambda>p. pr_used p \<noteq> 0 \<and> pr_cmd_id p = cmd_id) k = Some j" by (cases "first_slot (\<lambda>p. pr_used p \<noteq> 0 \<and> pr_cmd_id p = cmd_id) k") auto
  have "pending k ! j = p" using first_slot_Some [OF j] len p by (intro used_unique [OF assms(1)]) auto
  with j p(4) that show ?thesis by blast
qed

text \<open>What the report says of the completion and of the data.\<close>

definition completion_text :: "u64 \<Rightarrow> dma_accel_completion \<Rightarrow> string" where
  "completion_text cmd_id cm =
    (if cq_cmd_id cm = cmd_id \<and> cq_status cm = DMA_ACCEL_OK then [] else ''P4 M7: !!! worker got wrong/bad completion !!!'' @ CRLF)"

definition data_text :: "bool \<Rightarrow> u64 \<Rightarrow> string" where
  "data_text good cmd_id = dec_text (if good then ''P4 M7: worker DATA OK, cmd_id='' else ''P4 M7: worker DATA MISMATCH, cmd_id='') cmd_id"

lemma decline_did:
  assumes "uart_ready k" and "NUL \<notin> set p"
  obtains l' where "print_decline c p v (did l k) = Some (did (l @ l') k)" "uart_sent l' = map of_char (dec_text p v)"
  using decline.emit_sends [of k "(p, v)" l c] assms by (auto simp: sends_def)

text \<open>A pass of the last loop while a worker is not done: what the interrupt may have missed is dispatched before the CPU is given away.\<close>

lemma worker_poll_pass:
  assumes "sync_ok k" "pending_ok k" "locks k Accel_lock = 0" "cq_rest t ring k" and c: "c < MAX_CPUS"
    and "j < NUM_WORKERS" "worker_loops_seen k ! j = 0"
  shows "\<exists>k' r. worker_poll c k = Some (Some r) \<and> sched_ok (state_of r) \<and> yield c k' = Some r \<and>
     dispatched (cq_slots ring (cq_head_local k) (min NUM_WORKERS (cq_waiting t k))) k k'"
proof -
  obtain k' where k': "dispatch_available_completions c k = Some k'"
    "dispatched (cq_slots ring (cq_head_local k) (min NUM_WORKERS (cq_waiting t k))) k k'"
    using dispatch_result [OF assms(1-4), of c] by blast
  have ok: "sched_ok k'" using sync_ok_dispatched [OF assms(1)] k' by (auto simp: sync_ok_def)
  obtain r where r: "yield c k' = Some r" using yield_result [OF sched_ok_this [OF ok c]] by blast
  have "worker_poll c k = Some (Some r)" using assms(6,7) k'(1) r by (auto simp: worker_poll_def)
  then show ?thesis using k'(2) r yield_ok [OF ok c r] by blast
qed

section \<open>Properties\<close>


text \<open>C11: the verdict of a worker. A worker whose result is in the table finds it there, whatever slots the requests have taken; it complains of the
  completion exactly if its number or its status is not what it should be, then says DATA OK exactly if what it reads from its
  destination buffer at that point is what it put into its source buffer, and DATA MISMATCH otherwise, marks itself done, and changes
  nothing else but the history of accesses.\<close>

theorem worker_verdict:
  assumes k: "uart_ready k" "pending_ok k" "has_result cmd_id cm k"
  shows "\<exists>l l'. worker_finish c i cmd_id k = Some ((did (l @ l') k)\<lparr>worker_loops_seen := (worker_loops_seen k)[i := 1]\<rparr>) \<and>
     uart_sent l = map of_char (completion_text cmd_id cm) \<and>
     uart_sent l' = map of_char (data_text (dst_seen i (did l k) = src_buf k i) cmd_id @
        dec_text ''WORKER ewma='' (ucast (ewma_load (tcbs k (current c k)))))"
proof -
  obtain j where j: "first_slot (\<lambda>p. pr_used p \<noteq> 0 \<and> pr_cmd_id p = cmd_id) k = Some j" "pr_result (pending k ! j) = cm"
    using own_slot [OF k(2,3)] .
  let ?bad = "''P4 M7: !!! worker got wrong/bad completion !!!'' @ CRLF"
  have "\<exists>l. (if cq_cmd_id cm \<noteq> cmd_id \<or> cq_status cm \<noteq> DMA_ACCEL_OK then uart_puts c ?bad k else Some k) = Some (did l k) \<and>
      uart_sent l = map of_char (completion_text cmd_id cm)"
    using uart_puts_returns [of k c ?bad] k(1) by (auto simp: completion_text_def uart_ready_def did_def intro: exI [of _ "[]"])
  then obtain l where l: "(if cq_cmd_id cm \<noteq> cmd_id \<or> cq_status cm \<noteq> DMA_ACCEL_OK then uart_puts c ?bad k else Some k) = Some (did l k)"
    "uart_sent l = map of_char (completion_text cmd_id cm)" by blast
  let ?p = "if dst_seen i (did l k) = src_buf k i then ''P4 M7: worker DATA OK, cmd_id='' else ''P4 M7: worker DATA MISMATCH, cmd_id=''"
  have "NUL \<notin> set ?p" by simp
  then obtain l1 where l1: "print_decline c ?p cmd_id (did l k) = Some (did (l @ l1) k)"
    "uart_sent l1 = map of_char (data_text (dst_seen i (did l k) = src_buf k i) cmd_id)"
    using decline_did [OF k(1), of ?p c cmd_id l] unfolding data_text_def by blast
  let ?k1 = "(did (l @ l1) k)\<lparr>worker_loops_seen := (worker_loops_seen k)[i := 1]\<rparr>"
  let ?v = "ucast (ewma_load (tcbs k (current c k))) :: u64"
  have "uart_ready ?k1" using k(1) by (simp add: uart_ready_def uart_live_def did_def)
  then obtain l2 where l2: "print_decline c ''WORKER ewma='' ?v ?k1 = Some (did l2 ?k1)" "uart_sent l2 = map of_char (dec_text ''WORKER ewma='' ?v)"
    using decline_did [of ?k1 "''WORKER ewma=''" c ?v "[]"] by auto
  have "worker_finish c i cmd_id k = Some (did l2 ?k1)"
    using j l(1) l1(1) l2(1)
    by (simp add: worker_finish_def Let_def frame_simps)
  then show ?thesis using l(2) l1(2) l2(2) by (intro exI [of _ l] exI [of _ "l1 @ l2"]) (simp add: did_def)
qed

section \<open>Witnesses\<close>


text \<open>Command 2 of the first slot has come back with status 5.\<close>

definition bad_result :: main_state where
  "bad_result = main_sample\<lparr>pending := map (deliver [\<lparr>cq_cmd_id = 2, cq_status = 5, cq_reserved = 0\<rparr>]) (pending main_sample)\<rparr>"

theorem worker_verdict_witness:
  "\<exists>l l'. worker_finish 1 0 2 bad_result = Some ((did (l @ l') bad_result)\<lparr>worker_loops_seen := [1, 0, 0]\<rparr>) \<and>
     uart_sent l = map of_char (''P4 M7: !!! worker got wrong/bad completion !!!'' @ CRLF)"
proof -
  let ?cm = "\<lparr>cq_cmd_id = 2, cq_status = 5, cq_reserved = 0\<rparr>"
  have "uart_ready bad_result"
    using uart_ready_sync [OF main_sample_ok(1)] by (simp add: bad_result_def uart_ready_def uart_live_def)
  moreover have "pending_ok bad_result" "has_result 2 ?cm bad_result"
    by (auto simp: bad_result_def pending_ok_def has_result_def deliver_def waits_for_def NUM_WORKERS_def less_Suc_eq numeral_3_eq_3 numeral_2_eq_2)
  moreover have "worker_loops_seen bad_result = [0, 0, 0]" by (simp add: bad_result_def main_sample_defs)
  ultimately show ?thesis using worker_verdict [of bad_result 2 ?cm 1 0] by (auto simp: completion_text_def DMA_ACCEL_OK_def)
qed

end
