(* ===== verification/Pci.thy ===== *)
theory Pci
  imports Kernel_State
begin

text \<open>
  PCI configuration access and the search for the accelerator (\<open>kernel/pci.c\<close>). The devices behind the
  configuration space are a parameter (\<open>dev\<close>); what a theorem needs of them (identification registers
  are read-only, a BAR reads back its size mask) is a named hypothesis of it.
\<close>

section \<open>Configuration space\<close>

definition PCIE_ECAM_BASE :: u64 where "PCIE_ECAM_BASE = 0x4010000000"
definition PCIE_MMIO32_BASE :: u64 where "PCIE_MMIO32_BASE = 0x10000000"

definition PCI_VENDOR_ID :: u32 where "PCI_VENDOR_ID = 0x00"
definition PCI_DEVICE_ID :: u32 where "PCI_DEVICE_ID = 0x02"
definition PCI_COMMAND :: u32 where "PCI_COMMAND = 0x04"
definition PCI_BAR0 :: u32 where "PCI_BAR0 = 0x10"
definition PCI_INTERRUPT_PIN :: u32 where "PCI_INTERRUPT_PIN = 0x3D"

definition PCI_COMMAND_MEMORY :: u16 where "PCI_COMMAND_MEMORY = push_bit 1 1"
definition PCI_COMMAND_BUS_MASTER :: u16 where "PCI_COMMAND_BUS_MASTER = push_bit 2 1"

lemmas pci_consts = PCI_VENDOR_ID_def PCI_DEVICE_ID_def PCI_COMMAND_def PCI_BAR0_def PCI_INTERRUPT_PIN_def

definition ecam_addr :: "u32 \<Rightarrow> u32 \<Rightarrow> u32 \<Rightarrow> u32 \<Rightarrow> u64" where
  "ecam_addr bus slot func reg =
     PCIE_ECAM_BASE OR push_bit 20 (ucast bus) OR push_bit 15 (ucast slot) OR push_bit 12 (ucast func) OR ucast reg"

definition pci_cfg_read32 :: "u32 \<Rightarrow> u32 \<Rightarrow> u32 \<Rightarrow> u32 \<Rightarrow> 'z kernel_scheme \<Rightarrow> u32 \<times> 'z kernel_scheme" where
  "pci_cfg_read32 bus slot func reg k = read32 (ecam_addr bus slot func reg) k"

definition pci_cfg_read16 :: "u32 \<Rightarrow> u32 \<Rightarrow> u32 \<Rightarrow> u32 \<Rightarrow> 'z kernel_scheme \<Rightarrow> u16 \<times> 'z kernel_scheme" where
  "pci_cfg_read16 bus slot func reg k = read16 (ecam_addr bus slot func reg) k"

definition pci_cfg_read8 :: "u32 \<Rightarrow> u32 \<Rightarrow> u32 \<Rightarrow> u32 \<Rightarrow> 'z kernel_scheme \<Rightarrow> u8 \<times> 'z kernel_scheme" where
  "pci_cfg_read8 bus slot func reg k = read8 (ecam_addr bus slot func reg) k"

definition pci_cfg_write32 :: "u32 \<Rightarrow> u32 \<Rightarrow> u32 \<Rightarrow> u32 \<Rightarrow> u32 \<Rightarrow> 'z kernel_scheme \<Rightarrow> 'z kernel_scheme" where
  "pci_cfg_write32 bus slot func reg val k = io_write (Wr32 (ecam_addr bus slot func reg) val) k"

definition pci_cfg_write16 :: "u32 \<Rightarrow> u32 \<Rightarrow> u32 \<Rightarrow> u32 \<Rightarrow> u16 \<Rightarrow> 'z kernel_scheme \<Rightarrow> 'z kernel_scheme" where
  "pci_cfg_write16 bus slot func reg val k = io_write (Wr16 (ecam_addr bus slot func reg) val) k"

lemmas pci_cfg_defs = pci_cfg_read32_def pci_cfg_read16_def pci_cfg_read8_def pci_cfg_write32_def
  pci_cfg_write16_def read32_def read16_def read8_def io_write_def

section \<open>The search\<close>

record pci_dev =
  pd_bus :: u32
  pd_dev :: u32
  pd_func :: u32
  bar0_phys :: u64
  bar0_size :: u32
  bar0_readback :: u32
  gic_spi :: u32
  found :: int

definition pci_bar0_size :: "u32 \<Rightarrow> u32 \<Rightarrow> u32 \<Rightarrow> 'z kernel_scheme \<Rightarrow> u32 \<times> 'z kernel_scheme" where
  "pci_bar0_size bus slot func k =
    (let (orig, k) = pci_cfg_read32 bus slot func PCI_BAR0 k;
         k = pci_cfg_write32 bus slot func PCI_BAR0 0xFFFFFFFF k;
         (m, k) = pci_cfg_read32 bus slot func PCI_BAR0 k;
         k = pci_cfg_write32 bus slot func PCI_BAR0 orig k;
         m = m AND NOT 0xF
     in (if m = 0 then 0 else NOT m + 1, k))"

text \<open>The body of the loop once the device has matched.\<close>

definition pci_setup :: "u32 \<Rightarrow> pci_dev \<Rightarrow> 'z kernel_scheme \<Rightarrow> pci_dev \<times> 'z kernel_scheme" where
  "pci_setup slot out k =
    (let func = 0;
         out = out\<lparr>pd_bus := 0, pd_dev := slot, pd_func := func, found := 1\<rparr>;
         (cmd0, k) = pci_cfg_read16 0 slot func PCI_COMMAND k;
         k = pci_cfg_write16 0 slot func PCI_COMMAND (cmd0 AND NOT PCI_COMMAND_MEMORY) k;
         (size, k) = pci_bar0_size 0 slot func k;
         out = out\<lparr>bar0_size := size\<rparr>;
         assigned = PCIE_MMIO32_BASE;
         k = pci_cfg_write32 0 slot func PCI_BAR0 (ucast assigned) k;
         out = out\<lparr>bar0_phys := assigned\<rparr>;
         (rb, k) = pci_cfg_read32 0 slot func PCI_BAR0 k;
         out = out\<lparr>bar0_readback := rb\<rparr>;
         (cmd, k) = pci_cfg_read16 0 slot func PCI_COMMAND k;
         cmd = cmd OR (PCI_COMMAND_MEMORY OR PCI_COMMAND_BUS_MASTER);
         k = pci_cfg_write16 0 slot func PCI_COMMAND cmd k;
         (pin, k) = pci_cfg_read8 0 slot func PCI_INTERRUPT_PIN k;
         out = (if 1 \<le> pin \<and> pin \<le> 4 then out\<lparr>gic_spi := 3 + ((slot + ucast pin - 1) mod 4)\<rparr>
                else out\<lparr>gic_spi := 0xFFFFFFFF\<rparr>)
     in (out, k))"

function pci_scan :: "nat \<Rightarrow> pci_dev \<Rightarrow> 'z kernel_scheme \<Rightarrow> pci_dev \<times> 'z kernel_scheme" where
  "pci_scan slot out k =
    (if slot < 32 then
       (let (vendor, k) = pci_cfg_read16 0 (of_nat slot) 0 PCI_VENDOR_ID k in
        if vendor = 0xFFFF then pci_scan (slot + 1) out k
        else
          (let (device, k) = pci_cfg_read16 0 (of_nat slot) 0 PCI_DEVICE_ID k in
           if vendor \<noteq> 0x1234 \<or> device \<noteq> 0xda00 then pci_scan (slot + 1) out k
           else pci_setup (of_nat slot) out k))
     else (out, k))"
  by pat_completeness auto
termination
  by (relation "measure (\<lambda>(slot, out, k). 32 - slot)") auto

declare pci_scan.simps [simp del]

text \<open>\<open>out\<close> starts as whatever is on the stack.\<close>

definition pci_find_dma_accel :: "pci_dev \<Rightarrow> 'z kernel_scheme \<Rightarrow> pci_dev \<times> 'z kernel_scheme" where
  "pci_find_dma_accel out k = pci_scan 0 (out\<lparr>found := 0\<rparr>) k"

section \<open>Addresses\<close>

text \<open>The address of a register holds its coordinates in disjoint fields.\<close>

lemma bit_below:
  assumes "(x :: u32) < 2 ^ n" and "n < 32" and "bit x i"
  shows "i < n"
proof -
  have "take_bit n x = x" using assms(1,2) by (simp add: take_bit_eq_mod unat_arith_simps)
  with assms(3) show ?thesis by (metis bit_take_bit_iff)
qed

lemma ecam_base_bits: "i < 28 \<Longrightarrow> \<not> bit PCIE_ECAM_BASE i"
proof -
  assume i: "i < 28"
  have "take_bit 28 PCIE_ECAM_BASE = 0" by (simp add: PCIE_ECAM_BASE_def)
  then show ?thesis using i by (metis bit_0_eq bit_take_bit_iff bot_apply bot_bool_def)
qed

lemma ecam_fields:
  assumes "bus < 2 ^ 8" "slot < 2 ^ 5" "func < 2 ^ 3" "reg < 2 ^ 12"
  shows "take_bit 12 (ecam_addr bus slot func reg) = ucast reg"
    "take_bit 3 (drop_bit 12 (ecam_addr bus slot func reg)) = ucast func"
    "take_bit 5 (drop_bit 15 (ecam_addr bus slot func reg)) = ucast slot"
    "take_bit 8 (drop_bit 20 (ecam_addr bus slot func reg)) = ucast bus"
proof -
  note b = bit_below [OF assms(1)] bit_below [OF assms(2)] bit_below [OF assms(3)] bit_below [OF assms(4)]
  have f: "i < 8" if "bit bus i" for i using b(1) that by simp
  have g: "i < 5" if "bit slot i" for i using b(2) that by simp
  have h: "i < 3" if "bit func i" for i using b(3) that by simp
  have r: "i < 12" if "bit reg i" for i using b(4) that by simp
  show "take_bit 12 (ecam_addr bus slot func reg) = ucast reg"
    by (rule bit_word_eqI) (auto simp: ecam_addr_def bit_simps ecam_base_bits dest: r)
  show "take_bit 3 (drop_bit 12 (ecam_addr bus slot func reg)) = ucast func"
    by (rule bit_word_eqI) (auto simp: ecam_addr_def bit_simps ecam_base_bits dest: r h)
  show "take_bit 5 (drop_bit 15 (ecam_addr bus slot func reg)) = ucast slot"
    by (rule bit_word_eqI) (auto simp: ecam_addr_def bit_simps ecam_base_bits dest: r h g)
  show "take_bit 8 (drop_bit 20 (ecam_addr bus slot func reg)) = ucast bus"
    by (rule bit_word_eqI) (auto simp: ecam_addr_def bit_simps ecam_base_bits dest: r h g f)
qed

lemma ecam_window:
  assumes "bus < 2 ^ 8" "slot < 2 ^ 5" "func < 2 ^ 3" "reg < 2 ^ 12"
  shows "drop_bit 28 (ecam_addr bus slot func reg) = drop_bit 28 PCIE_ECAM_BASE"
proof (rule bit_word_eqI)
  fix i :: nat
  have "\<not> bit bus j" "\<not> bit slot (j + 5)" "\<not> bit func (j + 8)" "\<not> bit reg (j + 20)" if "8 \<le> j" for j
    using bit_below [OF assms(1), of j] bit_below [OF assms(2), of "j + 5"] bit_below [OF assms(3), of "j + 8"]
      bit_below [OF assms(4), of "j + 20"] that by auto
  from this [of "i + 8"] show "bit (drop_bit 28 (ecam_addr bus slot func reg)) i = bit (drop_bit 28 PCIE_ECAM_BASE) i"
    by (auto simp: ecam_addr_def bit_simps add_ac)
qed

section \<open>Sizing and searching\<close>

fun is_read :: "io \<Rightarrow> bool" where
  "is_read (Rd8 a) = True"
| "is_read (Rd16 a) = True"
| "is_read (Rd32 a) = True"
| "is_read _ = False"

text \<open>The writes of a history, in order.\<close>

definition writes :: "io list \<Rightarrow> io list" where
  "writes l = filter (\<lambda>x. \<not> is_read x) l"

lemma writes_simps [simp]: "writes [] = []" "writes (l @ l') = writes l @ writes l'"
  "writes (x # l) = (if is_read x then writes l else x # writes l)"
  by (simp_all add: writes_def)

lemma bar_mask:
  fixes flags :: u32
  assumes "4 \<le> n" "flags < 16"
  shows "(NOT (2 ^ n - 1) OR flags) AND NOT 0xF = NOT (2 ^ n - 1)"
proof (rule bit_word_eqI)
  fix i :: nat
  assume i: "i < LENGTH(32)"
  have f: "j < 4" if "bit flags j" for j using bit_below [of flags 4 j] assms(2) that by simp
  have m: "bit (2 ^ n - 1 :: u32) i \<longleftrightarrow> i < n" using i by (simp add: mask_eq_exp_minus_1 [symmetric] bit_mask_iff)
  have e: "0xF = (mask 4 :: u32)" by (simp add: mask_eq_exp_minus_1)
  show "bit ((NOT (2 ^ n - 1) OR flags) AND NOT 0xF) i = bit (NOT (2 ^ n - 1) :: u32) i"
    using i assms(1) f unfolding e by (auto simp: bit_and_iff bit_or_iff bit_not_iff bit_mask_iff m)
qed

lemma pci_bar0_size_log:
  "snd (pci_bar0_size bus slot func k) =
     k\<lparr>io_log := io_log k @ [Rd32 (ecam_addr bus slot func PCI_BAR0), Wr32 (ecam_addr bus slot func PCI_BAR0) 0xFFFFFFFF,
       Rd32 (ecam_addr bus slot func PCI_BAR0),
       Wr32 (ecam_addr bus slot func PCI_BAR0) (ucast (dev k (io_log k) (ecam_addr bus slot func PCI_BAR0)))]\<rparr>"
  by (simp add: pci_bar0_size_def pci_cfg_defs Let_def split_beta)

lemma pci_bar0_size_fst:
  "fst (pci_bar0_size bus slot func k) =
    (let m = ucast (dev k (io_log k @ [Rd32 (ecam_addr bus slot func PCI_BAR0), Wr32 (ecam_addr bus slot func PCI_BAR0) 0xFFFFFFFF])
           (ecam_addr bus slot func PCI_BAR0)) AND NOT 0xF
     in if m = 0 then 0 else NOT m + 1)"
  by (simp add: pci_bar0_size_def pci_cfg_defs Let_def split_beta)

definition pci_match :: "(u32 \<Rightarrow> u16) \<Rightarrow> (u32 \<Rightarrow> u16) \<Rightarrow> nat \<Rightarrow> bool" where
  "pci_match vendor device s \<longleftrightarrow> vendor (of_nat s) = 0x1234 \<and> device (of_nat s) = 0xda00"

text \<open>The identification registers hold \<open>vendor\<close> and \<open>device\<close>, whatever was accessed before.\<close>

definition pci_ids :: "(u32 \<Rightarrow> u16) \<Rightarrow> (u32 \<Rightarrow> u16) \<Rightarrow> 'z kernel_scheme \<Rightarrow> bool" where
  "pci_ids vendor device k \<longleftrightarrow> (\<forall>l. \<forall>s < 32.
     ucast (dev k l (ecam_addr 0 (of_nat s) 0 PCI_VENDOR_ID)) = vendor (of_nat s) \<and>
     ucast (dev k l (ecam_addr 0 (of_nat s) 0 PCI_DEVICE_ID)) = device (of_nat s))"

lemma pci_ids_log [simp]: "pci_ids v d (did l k) = pci_ids v d k"
  by (simp add: pci_ids_def did_def)

lemma pci_scan_step:
  assumes "pci_ids vendor device k" and "slot < 32"
  shows "\<exists>l. writes l = [] \<and> pci_scan slot out k =
     (if pci_match vendor device slot then pci_setup (of_nat slot) out (did l k)
      else pci_scan (slot + 1) out (did l k))"
proof -
  let ?v = "Rd16 (ecam_addr 0 (of_nat slot) 0 PCI_VENDOR_ID)"
  let ?d = "Rd16 (ecam_addr 0 (of_nat slot) 0 PCI_DEVICE_ID)"
  have ids: "ucast (dev k l (ecam_addr 0 (of_nat slot) 0 PCI_VENDOR_ID)) = vendor (of_nat slot)"
    "ucast (dev k l (ecam_addr 0 (of_nat slot) 0 PCI_DEVICE_ID)) = device (of_nat slot)" for l
    using assms by (simp_all add: pci_ids_def)
  show ?thesis
    by (rule exI [of _ "if vendor (of_nat slot) = 0xFFFF then [?v] else [?v, ?d]"], subst pci_scan.simps)
       (simp add: assms(2) pci_cfg_defs ids pci_match_def did_def)
qed

lemma pci_scan_search:
  assumes "pci_ids vendor device k" and "slot \<le> 32"
  shows "\<exists>l. writes l = [] \<and> pci_scan slot out k =
     (case find (pci_match vendor device) [slot..<32] of
        None \<Rightarrow> (out, did l k)
      | Some s \<Rightarrow> pci_setup (of_nat s) out (did l k))"
  using assms(2,1)
proof (induction slot arbitrary: k rule: inc_induct)
  case base
  show ?case by (intro exI [of _ "[]"]) (simp add: pci_scan.simps)
next
  case (step slot)
  then have up: "[slot..<32] = slot # [Suc slot..<32]" by (simp add: upt_conv_Cons)
  from pci_scan_step [OF step.prems step.hyps(2), of out] obtain l where l: "writes l = []"
    "pci_scan slot out k = (if pci_match vendor device slot then pci_setup (of_nat slot) out (did l k)
      else pci_scan (Suc slot) out (did l k))" by auto
  from step.IH [of "did l k"] step.prems obtain l' where "writes l' = []"
    "pci_scan (Suc slot) out (did l k) =
       (case find (pci_match vendor device) [Suc slot..<32] of
          None \<Rightarrow> (out, did l' (did l k))
        | Some s \<Rightarrow> pci_setup (of_nat s) out (did l' (did l k)))" by auto
  with l show ?case unfolding up did_did
    by (intro exI [of _ "if pci_match vendor device slot then l else l @ l'"]) simp
qed

text \<open>What the set-up of a matching device does: the fields of the result, and its writes. Memory decoding is
  off before BAR0 is touched; it is switched on, with bus mastering, by the last write.\<close>

definition pci_set_up :: "u32 \<Rightarrow> pci_dev \<Rightarrow> io list \<Rightarrow> bool" where
  "pci_set_up slot d l \<longleftrightarrow>
     found d = 1 \<and> pd_bus d = 0 \<and> pd_dev d = slot \<and> pd_func d = 0 \<and> bar0_phys d = PCIE_MMIO32_BASE \<and>
     (3 \<le> gic_spi d \<and> gic_spi d \<le> 6 \<or> gic_spi d = 0xFFFFFFFF) \<and>
     (\<exists>cmd0 cmd orig. writes l =
       [Wr16 (ecam_addr 0 slot 0 PCI_COMMAND) (cmd0 AND NOT PCI_COMMAND_MEMORY),
        Wr32 (ecam_addr 0 slot 0 PCI_BAR0) 0xFFFFFFFF, Wr32 (ecam_addr 0 slot 0 PCI_BAR0) orig,
        Wr32 (ecam_addr 0 slot 0 PCI_BAR0) 0x10000000,
        Wr16 (ecam_addr 0 slot 0 PCI_COMMAND) (cmd OR (PCI_COMMAND_MEMORY OR PCI_COMMAND_BUS_MASTER))])"

lemma spi_range: "3 \<le> 3 + (x :: u32) mod 4 \<and> 3 + x mod 4 \<le> 6"
proof -
  have "unat (x mod 4) < 4" by (simp add: unat_mod)
  then show ?thesis by (simp add: word_le_nat_alt unat_word_ariths)
qed

lemma pci_setup_spec: "\<exists>l d. pci_setup slot out k = (d, did l k) \<and> pci_set_up slot d l"
proof -
  have "\<exists>l. snd (pci_setup slot out k) = did l k \<and> (\<exists>cmd0 cmd orig. writes l =
       [Wr16 (ecam_addr 0 slot 0 PCI_COMMAND) (cmd0 AND NOT PCI_COMMAND_MEMORY),
        Wr32 (ecam_addr 0 slot 0 PCI_BAR0) 0xFFFFFFFF, Wr32 (ecam_addr 0 slot 0 PCI_BAR0) orig,
        Wr32 (ecam_addr 0 slot 0 PCI_BAR0) 0x10000000,
        Wr16 (ecam_addr 0 slot 0 PCI_COMMAND) (cmd OR (PCI_COMMAND_MEMORY OR PCI_COMMAND_BUS_MASTER))])"
    by (simp add: pci_setup_def pci_cfg_defs pci_bar0_size_log did_def Let_def split_beta PCIE_MMIO32_BASE_def)
       (rule exI, rule conjI, rule refl, auto)
  moreover have "\<exists>P x. gic_spi (fst (pci_setup slot out k)) = (if P then 3 + x mod 4 else 0xFFFFFFFF)"
    unfolding pci_setup_def Let_def split_beta fst_conv by (auto split: if_splits)
  then have "3 \<le> gic_spi (fst (pci_setup slot out k)) \<and> gic_spi (fst (pci_setup slot out k)) \<le> 6 \<or>
      gic_spi (fst (pci_setup slot out k)) = 0xFFFFFFFF" using spi_range by (metis (full_types))
  moreover have "found (fst (pci_setup slot out k)) = 1 \<and> pd_bus (fst (pci_setup slot out k)) = 0 \<and>
      pd_dev (fst (pci_setup slot out k)) = slot \<and> pd_func (fst (pci_setup slot out k)) = 0 \<and>
      bar0_phys (fst (pci_setup slot out k)) = PCIE_MMIO32_BASE"
    by (simp add: pci_setup_def Let_def split_beta)
  ultimately show ?thesis unfolding pci_set_up_def by (cases "pci_setup slot out k") auto
qed

lemma pci_find_result:
  assumes "pci_ids vendor device k"
  shows "\<exists>l d. pci_find_dma_accel out k = (d, did l k) \<and>
    (case find (pci_match vendor device) [0..<32] of
       None \<Rightarrow> d = out\<lparr>found := 0\<rparr> \<and> writes l = []
     | Some s \<Rightarrow> pci_set_up (of_nat s) d l)"
proof -
  obtain l where l: "writes l = []" "pci_find_dma_accel out k =
      (case find (pci_match vendor device) [0..<32] of
         None \<Rightarrow> (out\<lparr>found := 0\<rparr>, did l k)
       | Some s \<Rightarrow> pci_setup (of_nat s) (out\<lparr>found := 0\<rparr>) (did l k))"
    using pci_scan_search [OF assms, of 0 "out\<lparr>found := 0\<rparr>"] by (auto simp: pci_find_dma_accel_def)
  show ?thesis
  proof (cases "find (pci_match vendor device) [0..<32]")
    case None
    with l show ?thesis by auto
  next
    case (Some s)
    obtain l' d where "pci_setup (of_nat s) (out\<lparr>found := 0\<rparr>) (did l k) = (d, did (l @ l') k)"
      and "pci_set_up (of_nat s) d l'"
      using pci_setup_spec [of "of_nat s" "out\<lparr>found := 0\<rparr>" "did l k"] by auto
    moreover from this have "pci_set_up (of_nat s) d (l @ l')" using l(1) by (simp add: pci_set_up_def)
    ultimately show ?thesis using l(2) Some by auto
  qed
qed

section \<open>Properties\<close>

text \<open>Configuration addresses are exact. For coordinates within their widths the address of a register
  lies in the 256 MiB window of the host bridge and every coordinate can be read back from its own
  bits, so that two different registers never share an address.\<close>

lemma ecam_round_trip:
  assumes "bus < 2 ^ 8" "slot < 2 ^ 5" "func < 2 ^ 3" "reg < 2 ^ 12"
  shows "drop_bit 28 (ecam_addr bus slot func reg) = drop_bit 28 PCIE_ECAM_BASE \<and>
    take_bit 8 (drop_bit 20 (ecam_addr bus slot func reg)) = ucast bus \<and>
    take_bit 5 (drop_bit 15 (ecam_addr bus slot func reg)) = ucast slot \<and>
    take_bit 3 (drop_bit 12 (ecam_addr bus slot func reg)) = ucast func \<and>
    take_bit 12 (ecam_addr bus slot func reg) = ucast reg"
  using ecam_fields [OF assms] ecam_window [OF assms] by blast

text \<open>The BAR sizing trick is right and leaves no trace. If the register, after all ones were written, reads
  back as the size mask of a region of \<open>2 ^ n\<close> bytes with any flags, \<open>pci_bar0_size\<close> returns \<open>2 ^ n\<close> (which
  is 0 for a register that is not implemented), and its last access writes the old value back.\<close>

lemma pci_bar0_size_right:
  fixes flags :: u32
  assumes "4 \<le> n" "flags < 16"
    and "ucast (dev k (io_log k @ [Rd32 (ecam_addr bus slot func PCI_BAR0), Wr32 (ecam_addr bus slot func PCI_BAR0) 0xFFFFFFFF])
           (ecam_addr bus slot func PCI_BAR0)) = NOT (2 ^ n - 1) OR flags"
  shows "fst (pci_bar0_size bus slot func k) = 2 ^ n \<and>
    (\<exists>l. snd (pci_bar0_size bus slot func k) = did l k \<and>
       last l = Wr32 (ecam_addr bus slot func PCI_BAR0) (ucast (dev k (io_log k) (ecam_addr bus slot func PCI_BAR0))))"
proof -
  have "fst (pci_bar0_size bus slot func k) = (if NOT (2 ^ n - 1) = (0 :: u32) then 0 else NOT (NOT (2 ^ n - 1)) + 1)"
    unfolding pci_bar0_size_fst assms(3) bar_mask [OF assms(1,2)] Let_def ..
  also have "\<dots> = 2 ^ n"
  proof (cases "NOT (2 ^ n - 1) = (0 :: u32)")
    case True
    then have "NOT (NOT (2 ^ n - 1)) = (NOT 0 :: u32)" by (rule arg_cong)
    then have "2 ^ n - 1 = (- 1 :: u32)" by simp
    then have "(2 ^ n - 1) + 1 = (- 1 :: u32) + 1" by (rule arg_cong)
    with True show ?thesis by simp
  qed simp
  finally show ?thesis unfolding pci_bar0_size_log did_def by (intro conjI exI) (assumption, rule refl, simp)
qed

text \<open>C35: the search agrees with its specification. With fixed identification registers, \<open>pci_find_dma_accel\<close> finds
  a device exactly when one of the 32 slots holds vendor 0x1234, device 0xda00, and then the first such
  slot. If there is none it writes nothing and only clears \<open>found\<close>; otherwise memory decoding is off
  before BAR0 is touched, BAR0 ends as the assigned base, decoding and bus mastering are switched on
  last, and the interrupt is one of the four lines of the bridge or the sentinel.\<close>

theorem pci_find_agrees:
  assumes "pci_ids vendor device k"
  shows "\<exists>l d. pci_find_dma_accel out k = (d, did l k) \<and>
    (case find (pci_match vendor device) [0..<32] of
       None \<Rightarrow> d = out\<lparr>found := 0\<rparr> \<and> writes l = []
     | Some s \<Rightarrow> pci_set_up (of_nat s) d l)"
  using assms by (rule pci_find_result)

section \<open>Witnesses\<close>

text \<open>A host bridge with the accelerator in slot 2, whose BAR0 is 4 KiB with no flags.\<close>

definition accel_bus :: "io list \<Rightarrow> u64 \<Rightarrow> u64" where
  "accel_bus l a =
     (if a = ecam_addr 0 2 0 PCI_VENDOR_ID then 0x1234
      else if a = ecam_addr 0 2 0 PCI_DEVICE_ID then 0xda00
      else if a = ecam_addr 0 2 0 PCI_BAR0 then 0xFFFFF000
      else if a = ecam_addr 0 2 0 PCI_INTERRUPT_PIN then 1
      else 0xFFFF)"

definition bus_kernel :: kernel where
  "bus_kernel = sample_kernel\<lparr>dev := accel_bus\<rparr>"

lemma accel_bus_regs:
  "accel_bus l (ecam_addr 0 2 0 PCI_BAR0) = 0xFFFFF000"
  by (simp add: accel_bus_def ecam_addr_def PCIE_ECAM_BASE_def pci_consts)

lemma accel_bus_slots:
  assumes "s < 32"
  shows "accel_bus l (ecam_addr 0 (of_nat s) 0 PCI_VENDOR_ID) = (if s = 2 then 0x1234 else 0xFFFF) \<and>
    accel_bus l (ecam_addr 0 (of_nat s) 0 PCI_DEVICE_ID) = (if s = 2 then 0xda00 else 0xFFFF)"
proof -
  have "\<forall>s \<in> set [0..<32]. accel_bus l (ecam_addr 0 (of_nat s) 0 PCI_VENDOR_ID) = (if s = 2 then 0x1234 else 0xFFFF) \<and>
    accel_bus l (ecam_addr 0 (of_nat s) 0 PCI_DEVICE_ID) = (if s = 2 then 0xda00 else 0xFFFF)"
    by (simp add: accel_bus_def ecam_addr_def PCIE_ECAM_BASE_def pci_consts upt_rec)
  with assms show ?thesis by simp
qed

theorem pci_find_agrees_witness:
  "\<forall>out. \<exists>l d. pci_find_dma_accel out bus_kernel = (d, did l bus_kernel) \<and> pci_set_up 2 d l"
proof -
  let ?v = "\<lambda>s :: u32. if s = 2 then 0x1234 else 0xFFFF :: u16"
  let ?d = "\<lambda>s :: u32. if s = 2 then 0xda00 else 0xFFFF :: u16"
  have two: "(of_nat s :: u32) = 2 \<longleftrightarrow> s = 2" if "s < 32" for s :: nat
    using that of_nat_inverse [of s "2 :: u32"] by auto
  have "pci_ids ?v ?d bus_kernel"
    using accel_bus_slots by (auto simp: pci_ids_def bus_kernel_def two)
  moreover have "find (pci_match ?v ?d) [0..<32] = Some 2" by (simp add: pci_match_def upt_rec)
  ultimately show ?thesis using pci_find_agrees [of ?v ?d bus_kernel] by simp
qed

end
