(* ===== verification/Boot.thy ===== *)
theory Boot
  imports Worker Pci
begin

text \<open>
  The start of the system (\<open>kernel/main.c\<close>): \<open>busy_task_entry\<close>, and \<open>kernel_main\<close> from its entry to the
  switch to the first task, or to the loop it halts in. \<open>probe\<close> says whether the build defines \<open>GIC_PROBE\<close>, \<open>dma_cpu\<close>
  is the value of \<open>DMA_IRQ_CPU\<close> if it is defined.
\<close>

section \<open>The busy task\<close>

text \<open>One round; \<open>counter\<close> is the local variable.\<close>

definition busy_round :: "image \<Rightarrow> nat \<Rightarrow> u64 \<Rightarrow> 'z boot_state_scheme \<Rightarrow> (u64 \<times> 'z boot_state_scheme) option" where
  "busy_round im c counter k =
    (let counter = counter + 1;
         sel = (\<lambda>t k. sched_debug_select_count_for (tcb_cpu (tcbs k t)) t k) in
     if counter AND 0xFFFFF = 0 then do {
       k \<leftarrow> print_decline c ''BUSY TASK ewma='' (ucast (ewma_load (tcbs k (busy_task im)))) k;
       k \<leftarrow> smp_report_irq_counts c k;
       k \<leftarrow> dma_irq_report c k;
       k \<leftarrow> print_decline c ''SELECT busy='' (sel (busy_task im) k) k;
       k \<leftarrow> print_decline c ''SELECT w0='' (sel (taskWorker im 0) k) k;
       k \<leftarrow> print_decline c ''SELECT w1='' (sel (taskWorker im 1) k) k;
       k \<leftarrow> print_decline c ''SELECT w2='' (sel (taskWorker im 2) k) k;
       Some (counter, k) }
     else Some (counter, k))"

section \<open>The start of the system\<close>

definition set_vbar :: "image \<Rightarrow> nat \<Rightarrow> 'z boot_state_scheme \<Rightarrow> 'z boot_state_scheme" where
  "set_vbar im c k = k\<lparr>vbar := (vbar k)(c := vectors im)\<rparr>"

fun init_workers :: "image \<Rightarrow> nat list \<Rightarrow> 'z kernel_scheme \<Rightarrow> 'z kernel_scheme" where
  "init_workers im [] k = k"
| "init_workers im (i # is) k = init_workers im is
     (task_init (tramp im) (taskWorker im i) (worker_entry im) (set_name (taskWorker im i) ''worker'' k))"

text \<open>Worker \<open>i\<close> goes to CPU \<open>i % smp_online\<close>.\<close>

fun place_workers :: "image \<Rightarrow> nat \<Rightarrow> nat list \<Rightarrow> 'z kernel_scheme \<Rightarrow> 'z kernel_scheme option" where
  "place_workers im c [] k = Some k"
| "place_workers im c (i # is) k = do {
     k \<leftarrow> sched_register_on c (i mod smp_online k) (taskWorker im i) k;
     place_workers im c is k }"

fun probe_targets :: "nat \<Rightarrow> u8 list \<Rightarrow> 'z kernel_scheme \<Rightarrow> 'z kernel_scheme option" where
  "probe_targets c [] k = Some k"
| "probe_targets c (m # ms) k = do {
     k \<leftarrow> print_hexline c ''PROBE mask='' (ucast m) k;
     let (rb, k) = gic_probe_target 200 m k;
     k \<leftarrow> print_hexline c ''PROBE readback='' (ucast rb) k;
     probe_targets c ms k }"

text \<open>Routing of the accelerator's interrupt to a chosen CPU, or to CPU 0 when that one did not come up.\<close>

definition route_dma_irq :: "nat \<Rightarrow> nat \<Rightarrow> 'z kernel_scheme \<Rightarrow> 'z kernel_scheme option" where
  "route_dma_irq c n k =
    (let dma_tgt = (if smp_online k > n then n else 0);
         k = gic_enable_irq_target DMA_ACCEL_IRQ_ID (push_bit dma_tgt 1) k
     in print_decline c ''DMA IRQ target cpu='' (of_nat dma_tgt) k)"

text \<open>\<open>d0\<close> is what the stack holds where \<open>pci_find_dma_accel\<close> builds its result.\<close>

definition kernel_main :: "bool \<Rightarrow> nat option \<Rightarrow> (nat \<Rightarrow> nat \<Rightarrow> 'z boot_state_scheme \<Rightarrow> 'z boot_state_scheme) \<Rightarrow> image \<Rightarrow> nat \<Rightarrow> pci_dev \<Rightarrow>
    'z boot_state_scheme \<Rightarrow> 'z boot_state_scheme boot_end option" where
  "kernel_main probe dma_cpu env im c d0 k = do {
     let k = percpu_init c 0 k;
     let k = set_vbar im c k;
     k \<leftarrow> uart_puts c (''P4 M7: full integration test boot OK'' @ CRLF) k;
     let (d, k) = pci_find_dma_accel d0 k;
     if found d = 0 then do {
       k \<leftarrow> uart_puts c (''P4 M7: dma-accel NOT FOUND'' @ CRLF) k;
       Some (Halted k) }
     else do {
       let k = accel_init (bar0_phys d) k;
       let k = accel_setup_queues (sq_addr im) (cq_addr im) k;
       let k = k\<lparr>tick_freq := cntfrq_el0 im\<rparr>;
       let k = init_workers im [0..<NUM_WORKERS] k;
       let k = set_name (busy_task im) ''busy'' k;
       let k = task_init (tramp im) (busy_task im) (busy_task_entry im) k;
       let k = set_current c (taskWorker im 0) k;
       let k = gic_init k;
       let k = gic_enable_irq TIMER_IRQ_ID k;
       let k = (if dma_cpu = None then gic_enable_irq DMA_ACCEL_IRQ_ID k else k);
       let k = timer_rearm (tick_freq k div 2000) k;
       k \<leftarrow> print_hexline c ''CPU0: MPIDR_EL1='' (mpidr_el1 im c) k;
       k \<leftarrow> (if probe then probe_targets c [0x01, 0x02, 0x04, 0x08, 0x03, 0x0F] k else Some k);
       k \<leftarrow> smp_boot_secondaries env im c k;
       k \<leftarrow> (case dma_cpu of Some n \<Rightarrow> route_dma_irq c n k | None \<Rightarrow> Some k);
       k \<leftarrow> place_workers im c [0..<NUM_WORKERS] k;
       k \<leftarrow> sched_register c (busy_task im) k;
       Some (Running (switch_to c (dummy_sp im) (tcb_sp (tcbs k (taskWorker im 0))) k)) } }"

definition secondary_entry_c :: "u64 \<Rightarrow> nat \<Rightarrow> 'z main_state_scheme \<Rightarrow> 'z main_state_scheme boot_end option" where
  "secondary_entry_c current_el c k = do {
     let el = drop_bit 2 current_el AND 3;
     k \<leftarrow> print_decline c ''CPU1: CurrentEL='' el k;
     k \<leftarrow> print_hexline c ''CPU1: DAIF on entry='' (daif (regs k c)) k;
     k \<leftarrow> uart_puts c (''CPU1 alive'' @ CRLF) k;
     Some (Halted k) }"

section \<open>Placement\<close>

text \<open>Workers that may be placed: real blocks, all different, on no queue, and room for all of them on every queue.\<close>

definition placeable :: "image \<Rightarrow> nat list \<Rightarrow> 'z kernel_scheme \<Rightarrow> bool" where
  "placeable im is k \<longleftrightarrow> sched_inv k \<and> (\<forall>j < MAX_CPUS. locks k (Rq_lock j) = 0) \<and> 0 < smp_online k \<and> smp_online k \<le> MAX_CPUS \<and>
     distinct (map (taskWorker im) is) \<and> NULL \<notin> set (map (taskWorker im) is) \<and>
     (\<forall>i \<in> set is. \<forall>j < MAX_CPUS. taskWorker im i \<notin> set (rq_tasks (runqueues k j))) \<and>
     (\<forall>j < MAX_CPUS. length (rq_tasks (runqueues k j)) + length is \<le> MAX_TASKS)"

lemma placeable_addable:
  assumes "placeable im (i # is) k"
  shows "addable (i mod smp_online k) (taskWorker im i) k" "i mod smp_online k < MAX_CPUS"
proof -
  have "i mod smp_online k < smp_online k" "smp_online k \<le> MAX_CPUS" using assms by (simp_all add: placeable_def)
  then show lt: "i mod smp_online k < MAX_CPUS" by simp
  then have "length (rq_tasks (runqueues k (i mod smp_online k))) + length (i # is) \<le> MAX_TASKS"
    using assms unfolding placeable_def by blast
  then show "addable (i mod smp_online k) (taskWorker im i) k" using assms lt by (auto simp: placeable_def addable_def)
qed

lemma placeable_next:
  assumes p: "placeable im (i # is) k" and a: "adds (i mod smp_online k) (taskWorker im i) k k'"
  shows "placeable im is k'"
proof -
  note D = addsD [OF a]
  have q: "rq_tasks (runqueues k' j) = rq_tasks (runqueues k j) @ (if j = i mod smp_online k then [taskWorker im i] else [])" for j
    using D(2) D(3) [of j] by simp
  have "taskWorker im n \<notin> set (rq_tasks (runqueues k' j))" if "n \<in> set is" "j < MAX_CPUS" for n j
    using p that by (auto simp: q placeable_def) (metis image_eqI)
  moreover have "length (rq_tasks (runqueues k' j)) + length is \<le> MAX_TASKS" if "j < MAX_CPUS" for j
    using p that by (auto simp: q placeable_def)
  ultimately show ?thesis using p D(1,4,9) by (simp add: placeable_def)
qed

lemma place_result:
  assumes "placeable im is k"
  shows "\<exists>k'. place_workers im c is k = Some k' \<and> sched_inv k' \<and> locks k' = locks k \<and> smp_online k' = smp_online k \<and>
     (\<forall>j. rq_tasks (runqueues k' j) = rq_tasks (runqueues k j) @ map (taskWorker im) (filter (\<lambda>i. i mod smp_online k = j) is))"
  using assms
proof (induction "is" arbitrary: k)
  case Nil
  then show ?case by (simp add: placeable_def)
next
  case (Cons i "is")
  obtain k1 where k1: "sched_register_on c (i mod smp_online k) (taskWorker im i) k = Some k1"
    "adds (i mod smp_online k) (taskWorker im i) k k1" using register_adds [OF placeable_addable(1) [OF Cons.prems]] by blast
  note D = addsD [OF k1(2)]
  obtain k' where k': "place_workers im c is k1 = Some k'" "sched_inv k'" "locks k' = locks k1" "smp_online k' = smp_online k1"
    "\<forall>j. rq_tasks (runqueues k' j) = rq_tasks (runqueues k1 j) @ map (taskWorker im) (filter (\<lambda>i. i mod smp_online k1 = j) is)"
    using Cons.IH [OF placeable_next [OF Cons.prems k1(2)]] by blast
  have "rq_tasks (runqueues k' j) = rq_tasks (runqueues k j) @ map (taskWorker im) (filter (\<lambda>i. i mod smp_online k = j) (i # is))" for j
    using k'(5) D(2) D(3) [of j] D(9) by (cases "j = i mod smp_online k") auto
  then show ?case using k1(1) k'(1-4) D(4,9) by auto
qed

section \<open>Properties\<close>

lemma no_writes_sent: "writes l = [] \<Longrightarrow> uart_sent l = []"
proof (induction l)
  case (Cons x l)
  then show ?case by (cases x) auto
qed simp


section \<open>Witnesses\<close>


end
