(* ===== verification/System.thy ===== *)
theory System
  imports Boot
begin

text \<open>
  The start of the whole system: \<open>kernel_main\<close> on CPU 0 together with \<open>secondary_main\<close> on the CPUs it starts. The
  environment of the boot loop is no longer a parameter: it is the code of the secondaries. A CPU that comes up does so, as
  one step, during one of the polls CPU 0 makes for it; which ones do, and at which poll, is the function \<open>up\<close>.
\<close>

section \<open>The secondaries as environment\<close>

definition secondaries :: "image \<Rightarrow> (nat \<Rightarrow> nat option) \<Rightarrow> nat \<Rightarrow> nat \<Rightarrow> 'z boot_state_scheme \<Rightarrow> 'z boot_state_scheme" where
  "secondaries im up cpu n k =
    (if up cpu = Some n then (case secondary_main im cpu cpu k of Some (Running k') \<Rightarrow> k' | _ \<Rightarrow> k) else k)"

text \<open>A CPU that comes up does so before CPU 0 gives it up.\<close>

definition prompt :: "(nat \<Rightarrow> nat option) \<Rightarrow> bool" where
  "prompt up \<longleftrightarrow> (\<forall>i n. up i = Some n \<longrightarrow> n < WAIT_SPINS)"

lemma promptD: "prompt up \<Longrightarrow> up i = Some n \<Longrightarrow> n < WAIT_SPINS"
  by (simp add: prompt_def)

section \<open>Layout of the image\<close>

definition image_tasks :: "image \<Rightarrow> u64 list" where
  "image_tasks im = map (taskWorker im) [0..<NUM_WORKERS] @ busy_task im # concat (map (secondary_set im) [1..<MAX_CPUS])"

text \<open>Blocks of \<open>sizeof(tcb_t)\<close> bytes that do not overlap.\<close>

definition apart :: "u64 \<Rightarrow> u64 \<Rightarrow> bool" where
  "apart t u \<longleftrightarrow> unat t + 0x1030 \<le> unat u \<or> unat u + 0x1030 \<le> unat t"

definition layout :: "image \<Rightarrow> bool" where
  "layout im \<longleftrightarrow> list_all (\<lambda>t. t \<noteq> NULL \<and> unat t + 0x1030 \<le> 2 ^ 64) (image_tasks im) \<and> sorted_wrt apart (image_tasks im) \<and>
     dummy_sp im \<notin> set (image_tasks im)"

definition stack_set :: "u64 \<Rightarrow> u64 set" where
  "stack_set t = stack_addr t ` {..<STACK_WORDS}"

lemma stack_addr_unat:
  assumes "unat t + 0x1030 \<le> 2 ^ 64" "i < STACK_WORDS"
  shows "unat (stack_addr t i) = unat t + 8 + 8 * i"
proof -
  have "stack_addr t i = t + of_nat (8 + 8 * i)" by (simp add: stack_addr_def)
  then show ?thesis using assms by (simp only: unat_word_ariths unat_of_nat) (simp add: STACK_WORDS_def)
qed

lemma stack_set_disjoint:
  assumes "apart t u" "unat t + 0x1030 \<le> 2 ^ 64" "unat u + 0x1030 \<le> 2 ^ 64"
  shows "stack_set t \<inter> stack_set u = {}"
proof -
  have "stack_addr t i \<noteq> stack_addr u j" if "i < STACK_WORDS" "j < STACK_WORDS" for i j
  proof
    assume "stack_addr t i = stack_addr u j"
    then have "unat t + 8 + 8 * i = unat u + 8 + 8 * j"
      using stack_addr_unat [OF assms(2) that(1)] stack_addr_unat [OF assms(3) that(2)] by simp
    then show False using assms(1) that by (auto simp: apart_def STACK_WORDS_def)
  qed
  then show ?thesis by (auto simp: stack_set_def)
qed

lemma layoutD:
  assumes "layout im"
  shows "t \<in> set (image_tasks im) \<Longrightarrow> t \<noteq> NULL" "distinct (image_tasks im)" "dummy_sp im \<notin> set (image_tasks im)"
    "t \<in> set (image_tasks im) \<Longrightarrow> u \<in> set (image_tasks im) \<Longrightarrow> t \<noteq> u \<Longrightarrow> stack_set t \<inter> stack_set u = {}"
proof -
  have a: "list_all (\<lambda>t. t \<noteq> NULL \<and> unat t + 0x1030 \<le> 2 ^ 64) (image_tasks im)" and s: "sorted_wrt apart (image_tasks im)"
    using assms by (simp_all add: layout_def)
  show "t \<in> set (image_tasks im) \<Longrightarrow> t \<noteq> NULL" "dummy_sp im \<notin> set (image_tasks im)"
    using a assms by (auto simp: layout_def list_all_iff)
  have ne: "apart t u \<Longrightarrow> t \<noteq> u" for t u by (auto simp: apart_def)
  show "distinct (image_tasks im)" using s by (auto simp: distinct_conv_nth sorted_wrt_iff_nth_less dest!: ne) (metis linorder_neqE_nat ne s sorted_wrt_iff_nth_less)
  have sym: "apart t u \<longleftrightarrow> apart u t" for t u by (auto simp: apart_def)
  assume tu: "t \<in> set (image_tasks im)" "u \<in> set (image_tasks im)" "t \<noteq> u"
  then obtain i j where "i < length (image_tasks im)" "j < length (image_tasks im)" "t = image_tasks im ! i" "u = image_tasks im ! j" "i \<noteq> j"
    by (metis in_set_conv_nth)
  then have "apart t u" using s sym by (metis linorder_neqE_nat sorted_wrt_iff_nth_less)
  then show "stack_set t \<inter> stack_set u = {}" using a tu by (intro stack_set_disjoint) (auto simp: list_all_iff)
qed

section \<open>What starting a CPU spares\<close>

text \<open>Task \<open>w\<close> with its stack, CPU 0, the devices and the firmware are left alone.\<close>

definition spares :: "u64 \<Rightarrow> 'z boot_state_scheme \<Rightarrow> 'z boot_state_scheme \<Rightarrow> bool" where
  "spares w k k' \<longleftrightarrow> tcbs k' w = tcbs k w \<and> (\<forall>a \<in> stack_set w. mem k' a = mem k a) \<and> regs k' 0 = regs k 0 \<and>
     cpu_locals k' 0 = cpu_locals k 0 \<and> dev k' = dev k \<and> hv k' = hv k"

lemma spares_refl [simp]: "spares w k k"
  by (simp add: spares_def)

lemma spares_trans: "spares w k k1 \<Longrightarrow> spares w k1 k2 \<Longrightarrow> spares w k k2"
  by (simp add: spares_def)

lemma register_spares:
  assumes "sched_register_on c i t k = Some k'" "t \<noteq> w" "c \<noteq> 0"
  shows "spares w k k'"
  using assms by (auto simp: sched_register_on_def rq_at_def lock_defs rq_append_closed spares_def Let_def split: if_splits)

lemma task_init_mem_outside:
  assumes "a \<notin> stack_set t"
  shows "mem (task_init tr t e k) a = mem k a"
proof -
  have "stack_addr t i \<in> stack_set t" if "i < 512" for i using that by (auto simp: stack_set_def STACK_WORDS_def)
  then have ne: "a \<noteq> stack_addr t i" if "i < 512" for i using assms that by blast
  have n: "a \<noteq> t + 8 + 8 * of_nat i" if "i < 512" for i using ne [OF that] by (simp add: stack_addr_def)
  have "a \<noteq> t + 8" "a \<noteq> t + 4096" "a \<noteq> t + 3984" "a \<noteq> t + 3992" "a \<noteq> t + 4000" "a \<noteq> t + 4008" "a \<noteq> t + 4016" "a \<noteq> t + 4024"
    "a \<noteq> t + 4032" "a \<noteq> t + 4040" "a \<noteq> t + 4048" "a \<noteq> t + 4056" "a \<noteq> t + 4064" "a \<noteq> t + 4072" "a \<noteq> t + 4080" "a \<noteq> t + 4088"
    using n [of 0] n [of 511] n [of 497] n [of 498] n [of 499] n [of 500] n [of 501] n [of 502] n [of 503] n [of 504] n [of 505] n [of 506]
      n [of 507] n [of 508] n [of 509] n [of 510] by (simp_all add: add.assoc)
  then show ?thesis by (simp add: task_init_mem zero_words_frame add.assoc)
qed

lemma set_up_spares:
  assumes "t \<noteq> w" "stack_set t \<inter> stack_set w = {}"
  shows "spares w k (task_init tr t e (set_name t s k))" "spares w k (upd_tcb t f k)"
proof -
  have "mem (task_init tr t e (set_name t s k)) a = mem k a" if "a \<in> stack_set w" for a
    using task_init_mem_outside [of a t tr e "set_name t s k"] assms(2) that by auto
  then show "spares w k (task_init tr t e (set_name t s k))"
    using assms(1) by (simp add: spares_def frame_simps) (simp add: task_init_def Let_def store64_def)
qed (use assms in \<open>simp add: spares_def\<close>)

lemma test_start_spares:
  assumes "test_start im c i j k = Some k'" "test_tcb im i j \<noteq> w" "stack_set (test_tcb im i j) \<inter> stack_set w = {}" "c \<noteq> 0"
  shows "spares w k k'"
  using spares_trans [OF set_up_spares(1) [OF assms(2,3)] register_spares [OF _ assms(2,4)]] assms(1)
  by (simp add: test_start_def Let_def)

lemma pp_start_spares:
  assumes "pp_start im c i t s e k = Some k'" "t \<noteq> w" "stack_set t \<inter> stack_set w = {}" "c \<noteq> 0"
  shows "spares w k k'"
  using spares_trans [OF set_up_spares(1) [OF assms(2,3)] spares_trans [OF set_up_spares(2) [OF assms(2,3)] register_spares [OF _ assms(2,4)]]] assms(1)
  by (simp add: pp_start_def Let_def)

lemma secondary_tasks_spares:
  assumes "secondary_tasks im c i k = Some k'" and t: "tpidr (regs k c) \<noteq> 0" "c \<noteq> 0"
    and w: "\<And>t. t \<in> set (secondary_set im i) \<Longrightarrow> t \<noteq> w \<and> stack_set t \<inter> stack_set w = {}"
  shows "spares w k k'"
proof -
  let ?k0 = "set_current c (idle_tcb im i) (set_state (idle_tcb im i) 0 (set_name (idle_tcb im i) ''idle'' k))"
  have m: "idle_tcb im i \<in> set (secondary_set im i)" "test_tcb im i 0 \<in> set (secondary_set im i)" "test_tcb im i 1 \<in> set (secondary_set im i)"
    "i = 1 \<Longrightarrow> pp_tcb im 0 \<in> set (secondary_set im i)" "i = 2 \<Longrightarrow> pp_tcb im 1 \<in> set (secondary_set im i)" by (auto simp: secondary_set_def)
  have s0: "spares w k ?k0" using w [OF m(1)] t(1) by (auto simp: spares_def set_current_def)
  from assms(1) obtain k1 k2 k3 where k: "sched_register_on c i (idle_tcb im i) ?k0 = Some k1" "test_start im c i 0 k1 = Some k2"
    "test_start im c i 1 k2 = Some k3" and last: "(if i = 1 then pp_start im c i (pp_tcb im 0) ''ping'' (pp_ping_task im) k3
       else if i = 2 then pp_start im c i (pp_tcb im 1) ''pong'' (pp_pong_task im) k3 else Some k3) = Some k'"
    unfolding secondary_tasks_def Let_def Option.bind_eq_Some_conv by blast
  have "spares w k k3" 
    using spares_trans [OF s0 spares_trans [OF register_spares [OF k(1) _ t(2)]
      spares_trans [OF test_start_spares [OF k(2) _ _ t(2)] test_start_spares [OF k(3) _ _ t(2)]]]] w m(1-3) by blast
  moreover have pp: "spares w k3 k'" if "pp_start im c i t s e k3 = Some k'" "t \<in> set (secondary_set im i)" for t s e
    using pp_start_spares [OF that(1) _ _ t(2)] w [OF that(2)] by blast
  have "spares w k3 k'" using last m(4,5) pp by (metis option.inject spares_refl)
  ultimately show ?thesis by (rule spares_trans)
qed

lemma secondary_main_spares:
  assumes "secondary_main im i i k = Some (Running k')" "i \<noteq> 0"
    and "\<And>t. t \<in> set (secondary_set im i) \<Longrightarrow> t \<noteq> w \<and> stack_set t \<inter> stack_set w = {}"
  shows "spares w k k'"
proof -
  let ?k0 = "secondary_enter im i i (upd_regs i (\<lambda>r. r\<lparr>daif := daif r OR 0x3C0\<rparr>) k)"
  obtain k1 where k1: "secondary_tasks im i i ?k0 = Some k1" "k' = secondary_go im i k1"
    using assms(1) by (auto simp: secondary_main_def Let_def split: if_splits bind_splits)
  have "spares w k ?k0" "tpidr (regs ?k0 i) = i" using assms(2)
    by (simp_all add: spares_def secondary_enter_def percpu_init_def dsb_sev_def io_write_def Let_def)
  moreover have "spares w k1 k'" using assms(2) by (simp add: k1(2) spares_def secondary_go_def gic_defs io_write_def Let_def)
  moreover have "spares w ?k0 k1" by (rule secondary_tasks_spares [OF k1(1) _ assms(2,3)]) (use calculation(2) assms(2) in simp)
  ultimately show ?thesis using spares_trans by blast
qed

section \<open>The boot loop with the secondaries\<close>

definition worker0_ready :: "image \<Rightarrow> 'z kernel_scheme \<Rightarrow> bool" where
  "worker0_ready im k \<longleftrightarrow> tcb_sp (tcbs k (taskWorker im 0)) = taskWorker im 0 + 3984 \<and>
     tcb_entry (tcbs k (taskWorker im 0)) = worker_entry im \<and>
     frame_holds (mem k) (taskWorker im 0 + 3984) (first_regs (tramp im))"

text \<open>The state during bring-up when the CPUs in \<open>D\<close> have come up; \<open>sp\<close> is the stack pointer of CPU 0.\<close>

definition bring_up :: "image \<Rightarrow> nat set \<Rightarrow> u64 \<Rightarrow> 'z boot_state_scheme \<Rightarrow> bool" where
  "bring_up im D sp k \<longleftrightarrow> boot_ok k \<and> (\<forall>l. hv k l = 0) \<and> sched_inv k \<and> (\<forall>i < MAX_CPUS. locks k (Rq_lock i) = 0) \<and>
     tpidr (regs k 0) = 0 \<and> sp_reg (regs k 0) = sp \<and> cpu_id (cpu_locals k 0) = 0 \<and> curr (cpu_locals k 0) = taskWorker im 0 \<and>
     rq_tasks (runqueues k 0) = [] \<and>
     (\<forall>i. 0 < i \<longrightarrow> i < MAX_CPUS \<longrightarrow> rq_tasks (runqueues k i) = (if i \<in> D then secondary_set im i else []) \<and> (cpu_alive k i \<longleftrightarrow> i \<in> D)) \<and>
     worker0_ready im k"

lemma bring_up_cong:
  assumes "bring_up im D sp k" "locks k' = locks k" "dev k' = dev k" "hv k' = hv k" "runqueues k' = runqueues k" "tcbs k' = tcbs k"
    "regs k' = regs k" "cpu_locals k' = cpu_locals k" "mem k' = mem k" "\<And>i. 0 < i \<Longrightarrow> cpu_alive k' i = cpu_alive k i"
  shows "bring_up im D sp k'"
  using assms sched_inv_cong [of k k'] by (simp add: bring_up_def boot_ok_def uart_live_def worker0_ready_def)

lemma bring_up_log [simp]: "bring_up im D sp (k\<lparr>io_log := l\<rparr>) = bring_up im D sp k"
  by (auto elim!: bring_up_cong)

lemma frame_in_stack: "set (frame_addrs (t + 3984)) \<subseteq> stack_set t"
proof
  fix a assume "a \<in> set (frame_addrs (t + 3984))"
  then obtain i where "i < 14" "a = t + 3984 + 8 * of_nat i" by (auto simp: frame_addrs_def)
  then have "a = stack_addr t (497 + i)" "497 + i < STACK_WORDS" by (simp_all add: stack_addr_def STACK_WORDS_def)
  then show "a \<in> stack_set t" by (auto simp: stack_set_def)
qed

lemma worker0_spared:
  assumes "worker0_ready im k" "spares (taskWorker im 0) k k'"
  shows "worker0_ready im k'"
proof -
  have "\<forall>a \<in> set (frame_addrs (taskWorker im 0 + 3984)). mem k' a = mem k a"
    using assms(2) frame_in_stack by (auto simp: spares_def)
  from frame_holds_cong [OF this] show ?thesis using assms by (simp add: worker0_ready_def spares_def)
qed

lemma image_tasksI:
  "i < NUM_WORKERS \<Longrightarrow> taskWorker im i \<in> set (image_tasks im)" "busy_task im \<in> set (image_tasks im)"
  "0 < i \<Longrightarrow> i < MAX_CPUS \<Longrightarrow> t \<in> set (secondary_set im i) \<Longrightarrow> t \<in> set (image_tasks im)"
  by (auto simp: image_tasks_def)

lemma layout_sets:
  assumes "layout im" "0 < i" "i < MAX_CPUS"
  shows "distinct (secondary_set im i)" "NULL \<notin> set (secondary_set im i)"
    "j < NUM_WORKERS \<Longrightarrow> t \<in> set (secondary_set im i) \<Longrightarrow> t \<noteq> taskWorker im j"
    "t \<in> set (secondary_set im i) \<Longrightarrow> t \<noteq> busy_task im"
    "0 < j \<Longrightarrow> j < MAX_CPUS \<Longrightarrow> j \<noteq> i \<Longrightarrow> set (secondary_set im i) \<inter> set (secondary_set im j) = {}"
proof -
  have d: "distinct (image_tasks im)" by (rule layoutD(2) [OF assms(1)])
  then have c: "distinct (concat (map (secondary_set im) [1..<MAX_CPUS]))" by (simp add: image_tasks_def)
  have e: "[1..<MAX_CPUS] = [1, 2, 3]" by (simp add: MAX_CPUS_def upt_rec)
  have "i \<in> {1, 2, 3}" using assms(2,3) by (auto simp: MAX_CPUS_def)
  then show "distinct (secondary_set im i)" using c unfolding e by auto
  show "NULL \<notin> set (secondary_set im i)" using layoutD(1) [OF assms(1)] image_tasksI(3) [OF assms(2,3)] by blast
  show "t \<noteq> taskWorker im j" if "j < NUM_WORKERS" "t \<in> set (secondary_set im i)"
  proof -
    have "taskWorker im ` {0..<NUM_WORKERS} \<inter> (\<Union>a \<in> {Suc 0..<MAX_CPUS}. set (secondary_set im a)) = {}"
      using d by (simp add: image_tasks_def)
    moreover have "i \<in> {Suc 0..<MAX_CPUS}" "taskWorker im j \<in> taskWorker im ` {0..<NUM_WORKERS}" using assms(2,3) that(1) by auto
    ultimately show ?thesis using that(2) by blast
  qed
  show "t \<noteq> busy_task im" if "t \<in> set (secondary_set im i)" using d that assms(2,3) by (auto simp: image_tasks_def)
  show "set (secondary_set im i) \<inter> set (secondary_set im j) = {}" if j: "0 < j" "j < MAX_CPUS" "j \<noteq> i"
  proof -
    have "j \<in> {1, 2, 3}" using j by (auto simp: MAX_CPUS_def)
    then show ?thesis using c \<open>i \<in> {1, 2, 3}\<close> j(3) unfolding e by auto
  qed
qed

lemma secondary_joins:
  assumes im: "layout im" and b: "bring_up im D sp k" and i: "0 < i" "i < MAX_CPUS" "i \<notin> D"
  shows "\<exists>k'. secondary_main im i i k = Some (Running k') \<and> bring_up im (insert i D) sp k'"
proof -
  note L = layout_sets [OF im i(1,2)]
  have q: "rq_tasks (runqueues k j) = (if 0 < j \<and> j \<in> D then secondary_set im j else [])" if "j < MAX_CPUS" for j
    using b that by (cases "j = 0") (auto simp: bring_up_def)
  have "t \<notin> set (rq_tasks (runqueues k j))" if "t \<in> set (secondary_set im i)" "j < MAX_CPUS" for t j
    using L(5) [of j] that i(3) by (cases "j = i") (auto simp: q)
  then have "can_boot im i k" using b i L(1,2) by (simp add: can_boot_def q) (simp add: bring_up_def)
  from secondary_main_result [OF this] obtain k' where k': "secondary_main im i i k = Some (Running k')" "sched_inv k'"
    "rq_tasks (runqueues k' i) = secondary_set im i" "\<forall>j. j \<noteq> i \<longrightarrow> runqueues k' j = runqueues k j"
    "cpu_alive k' = (cpu_alive k)(i := True)" "locks k' = locks k" by blast
  have "t \<noteq> taskWorker im 0 \<and> stack_set t \<inter> stack_set (taskWorker im 0) = {}" if "t \<in> set (secondary_set im i)" for t
    using L(3) [of 0 t] layoutD(4) [OF im image_tasksI(3) [OF i(1,2) that] image_tasksI(1) [of 0]] that by (auto simp: NUM_WORKERS_def)
  from secondary_main_spares [OF k'(1) _ this] have sp: "spares (taskWorker im 0) k k'" using i(1) by simp
  have "bring_up im (insert i D) sp k'" unfolding bring_up_def
  proof (intro conjI allI impI)
    show "boot_ok k'" "hv k' l = 0" for l using b sp k'(6) by (simp_all add: bring_up_def boot_ok_def spares_def uart_live_def)
    show "worker0_ready im k'" using worker0_spared [OF _ sp] b by (simp add: bring_up_def)
  qed (use b sp k' i in \<open>auto simp: bring_up_def spares_def\<close>)
  then show ?thesis using k'(1) by blast
qed

lemma wait_absent: "up cpu = None \<Longrightarrow> smp_wait (secondaries im up) cpu m k = k"
proof (induction "secondaries im up :: nat \<Rightarrow> nat \<Rightarrow> 'a boot_state_scheme \<Rightarrow> 'a boot_state_scheme" cpu m k rule: smp_wait.induct)
  case (1 cpu m k)
  then show ?case by (subst smp_wait.simps) (simp add: secondaries_def Let_def)
qed

lemma wait_joins:
  assumes im: "layout im" and i: "0 < i" "i < MAX_CPUS" "i \<notin> D" and up: "up i = Some n" "n < WAIT_SPINS"
    and "bring_up im D sp k" "m \<le> n"
  shows "bring_up im (insert i D) sp (smp_wait (secondaries im up) i m k)"
  using assms(7,8)
proof (induction "n - m" arbitrary: m k)
  case 0
  obtain k' where k': "secondary_main im i i k = Some (Running k')" "bring_up im (insert i D) sp k'"
    using secondary_joins [OF im 0(2) i] by blast
  have "secondaries im up i m k = k'" using 0 up(1) k'(1) by (simp add: secondaries_def)
  moreover have "cpu_alive k' i" using k'(2) i by (simp add: bring_up_def)
  ultimately show ?case using k'(2) by (subst smp_wait.simps) (simp add: Let_def)
next
  case (Suc x)
  have "secondaries im up i m k = k" using Suc(2) up(1) by (simp add: secondaries_def)
  moreover have "\<not> cpu_alive k i" using Suc(3) i by (simp add: bring_up_def)
  moreover have "m + 1 < WAIT_SPINS" using Suc(2) up(2) by simp
  ultimately have "smp_wait (secondaries im up) i m k = smp_wait (secondaries im up) i (m + 1) k"
    by (subst smp_wait.simps) (simp add: Let_def)
  then show ?case using Suc(1) [of "m + 1" k] Suc(2,3) by simp
qed

lemma one_joins:
  assumes im: "layout im" and i: "0 < i" "i < MAX_CPUS" "i \<notin> D" and up: "prompt up"
    and b: "bring_up im D sp k"
  shows "\<exists>k'. smp_boot_one (secondaries im up) im c i k = Some (up i \<noteq> None, k') \<and>
     bring_up im (if up i \<noteq> None then insert i D else D) sp k'"
proof -
  let ?env = "secondaries im up :: nat \<Rightarrow> nat \<Rightarrow> 'a boot_state_scheme \<Rightarrow> 'a boot_state_scheme" and ?D = "if up i \<noteq> None then insert i D else D"
  let ?k = "\<lambda>l. ?env i WAIT_SPINS (smp_wait ?env i 0 (k\<lparr>io_log := l\<rparr>))"
  have ok: "boot_ok k" and h: "hv k l = 0" for l using b by (simp_all add: bring_up_def)
  have id: "?env i WAIT_SPINS k = k" for k using up by (auto simp: secondaries_def prompt_def)
  have b1: "bring_up im ?D sp (?k l)" for l
  proof (cases "up i")
    case None
    then show ?thesis using b by (simp add: id wait_absent)
  next
    case (Some n)
    then show ?thesis using wait_joins [where up = up, OF im i Some promptD [OF up Some], of sp "k\<lparr>io_log := l\<rparr>" 0] b by (simp add: id)
  qed
  have ok1: "boot_ok (?k l)" and al: "cpu_alive (?k l) i \<longleftrightarrow> up i \<noteq> None" for l
    using b1 [of l] i by (auto simp: bring_up_def split: if_splits)
  show ?thesis
  proof (rule smp_boot_one_cases [where env = ?env and cpu = i and c = c and im = im, OF ok ok1])
    show "hv k l0 \<noteq> 0 \<Longrightarrow> ?thesis" for l0 using h by simp
    show "smp_boot_one ?env im c i k = (let k = ?k l in Some (cpu_alive k i, k\<lparr>io_log := l'\<rparr>)) \<Longrightarrow> ?thesis" for l l'
      using b1 [of l] al [of l] by (simp add: Let_def)
  qed
qed

lemma loop_joins:
  assumes im: "layout im" and up: "prompt up"
    and "distinct cpus" "\<And>i. i \<in> set cpus \<Longrightarrow> 0 < i \<and> i < MAX_CPUS \<and> i \<notin> D" and "bring_up im D sp k"
  shows "\<exists>k'. smp_boot_loop (secondaries im up) im c cpus n k = Some (n + card {i \<in> set cpus. up i \<noteq> None}, k') \<and>
     bring_up im (D \<union> {i \<in> set cpus. up i \<noteq> None}) sp k'"
  using assms(3-)
proof (induction cpus arbitrary: n k D)
  case Nil
  then show ?case by simp
next
  case (Cons i cpus)
  let ?D = "if up i \<noteq> None then insert i D else D" and ?S = "{i \<in> set cpus. up i \<noteq> None}"
  obtain k1 where k1: "smp_boot_one (secondaries im up) im c i k = Some (up i \<noteq> None, k1)" "bring_up im ?D sp k1"
    using one_joins [where up = up and i = i and c = c, OF im _ _ _ up Cons.prems(3)] Cons.prems(2) [of i] by auto
  have "0 < j \<and> j < MAX_CPUS \<and> j \<notin> ?D" if "j \<in> set cpus" for j using Cons.prems(1) Cons.prems(2) [of j] that by auto
  then obtain k' where k': "smp_boot_loop (secondaries im up) im c cpus (if up i \<noteq> None then n + 1 else n) k1 =
      Some ((if up i \<noteq> None then n + 1 else n) + card ?S, k')" "bring_up im (?D \<union> ?S) sp k'"
    using Cons.IH [of ?D k1 "if up i \<noteq> None then n + 1 else n"] Cons.prems(1) k1(2) by auto
  have S: "{j \<in> set (i # cpus). up j \<noteq> None} = (if up i \<noteq> None then insert i ?S else ?S)" by auto
  have "i \<notin> ?S" using Cons.prems(1) by auto
  then have ci: "card (insert i ?S) = Suc (card ?S)" by (rule card_insert_disjoint [rotated]) simp
  have "card {j \<in> set (i # cpus). up j \<noteq> None} = (if up i \<noteq> None then 1 else 0) + card ?S" unfolding S
    by (cases "up i \<noteq> None") (simp_all only: if_P if_not_P not_False_eq_True ci add_0 plus_1_eq_Suc)
  moreover have "?D \<union> ?S = D \<union> {j \<in> set (i # cpus). up j \<noteq> None}" unfolding S by auto
  ultimately show ?case using k1(1) k' by auto
qed

lemma smp_boots:
  assumes im: "layout im" and up: "prompt up" and b: "bring_up im {} sp k"
  defines "U \<equiv> {i \<in> {1..<MAX_CPUS}. up i \<noteq> None}"
  shows "\<exists>k'. smp_boot_secondaries (secondaries im up) im c k = Some k' \<and> bring_up im U sp k' \<and> smp_online k' = 1 + card U"
proof -
  let ?k = "k\<lparr>boot_vbar := vbar k c, cpu_mpidr := (cpu_mpidr k)(0 := mpidr_el1 im c), cpu_alive := (cpu_alive k)(0 := True)\<rparr>"
  have "bring_up im {} sp ?k" by (rule bring_up_cong [OF b]) simp_all
  from loop_joins [where up = up and cpus = "[1..<MAX_CPUS]" and c = c and n = 1, OF im up _ _ this] obtain k1 where
    k1: "smp_boot_loop (secondaries im up) im c [1..<MAX_CPUS] 1 ?k = Some (1 + card U, k1)" "bring_up im U sp k1"
    unfolding U_def by auto
  have "boot_ok k1" using k1(2) by (simp add: bring_up_def)
  then obtain l where "klog c ''CPUs online: '' (of_nat (1 + card U)) True CRLF k1 = Some (k1\<lparr>io_log := l\<rparr>)" using boot_klog by blast
  then have "smp_boot_secondaries (secondaries im up) im c k = Some (k1\<lparr>io_log := l, smp_online := 1 + card U\<rparr>)"
    using k1(1) by (simp add: smp_boot_secondaries_def Let_def)
  moreover have "bring_up im U sp (k1\<lparr>io_log := l, smp_online := 1 + card U\<rparr>)" by (rule bring_up_cong [OF k1(2)]) simp_all
  ultimately show ?thesis by simp
qed

section \<open>CPU 0 up to the boot loop\<close>

text \<open>The state the image starts in: queues empty, locks free, the UART live, no CPU announced, PSCI granting every request.\<close>

definition start_ok :: "'z boot_state_scheme \<Rightarrow> bool" where
  "start_ok k \<longleftrightarrow> boot_ok k \<and> (\<forall>l. hv k l = 0) \<and> sched_inv k \<and>
     (\<forall>i < MAX_CPUS. locks k (Rq_lock i) = 0 \<and> rq_tasks (runqueues k i) = []) \<and> (\<forall>i. \<not> cpu_alive k i)"

text \<open>Everything \<open>kernel_main\<close> does to the tasks before it starts the other CPUs.\<close>

definition tasks_set_up :: "image \<Rightarrow> 'z boot_state_scheme \<Rightarrow> 'z boot_state_scheme" where
  "tasks_set_up im k = set_current 0 (taskWorker im 0)
     (task_init (tramp im) (busy_task im) (busy_task_entry im) (set_name (busy_task im) ''busy'' (init_workers im [0..<NUM_WORKERS] k)))"

lemma init_workers_frame:
  "runqueues (init_workers im is k) = runqueues k" "locks (init_workers im is k) = locks k" "regs (init_workers im is k) = regs k"
  "cpu_locals (init_workers im is k) = cpu_locals k" "dev (init_workers im is k) = dev k"
  "kernel.more (init_workers im is k) = kernel.more k" "tcb_cpu (tcbs (init_workers im is k) t) = tcb_cpu (tcbs k t)"
  "smp_online (init_workers im is k) = smp_online k"
  by (induction im "is" k rule: init_workers.induct) (simp_all add: frame_simps)

lemma worker0_set_up:
  assumes "layout im"
  shows "worker0_ready im (tasks_set_up im k)"
proof -
  let ?w = "taskWorker im" and ?b = "busy_task im"
  have W: "[0..<NUM_WORKERS] = [0, 1, 2]" by (simp add: NUM_WORKERS_def upt_rec)
  let ?k1 = "task_init (tramp im) (?w 0) (worker_entry im) (set_name (?w 0) ''worker'' k)"
  let ?k2 = "task_init (tramp im) (?w 1) (worker_entry im) (set_name (?w 1) ''worker'' ?k1)"
  let ?k3 = "task_init (tramp im) (?w 2) (worker_entry im) (set_name (?w 2) ''worker'' ?k2)"
  let ?k4 = "task_init (tramp im) ?b (busy_task_entry im) (set_name ?b ''busy'' ?k3)"
  have "tcb_entry (tcbs ?k1 (?w 0)) = worker_entry im" by (simp add: task_init_def Let_def store64_def)
  then have "worker0_ready im ?k1" by (simp add: worker0_ready_def task_init_frame_holds)
  moreover have s: "spares (?w 0) k (task_init (tramp im) t e (set_name t s k))"
    if "t \<in> set (image_tasks im)" "t \<noteq> ?w 0" for t e s and k :: "'a boot_state_scheme"
    using that layoutD(4) [OF assms that(1) image_tasksI(1) [of 0] that(2)] by (intro set_up_spares) (simp_all add: NUM_WORKERS_def)
  have "distinct [?w 0, ?w 1, ?w 2, ?b]" using layoutD(2) [OF assms] unfolding image_tasks_def W by auto
  then have "spares (?w 0) ?k1 ?k2" "spares (?w 0) ?k2 ?k3" "spares (?w 0) ?k3 ?k4"
    using image_tasksI(1) [of 1 im] image_tasksI(1) [of 2 im] image_tasksI(2) [of im] by (intro s; auto simp: NUM_WORKERS_def)+
  ultimately have "worker0_ready im ?k4" using worker0_spared spares_trans by blast
  then show ?thesis unfolding tasks_set_up_def W by (simp add: worker0_ready_def set_current_def)
qed

lemma set_up_brings_up:
  assumes im: "layout im" and k: "start_ok k0" and same: "locks k = locks k0" "dev k = dev k0" "hv k = hv k0" "runqueues k = runqueues k0"
    "tcbs k = tcbs k0" "cpu_alive k = cpu_alive k0" and p: "tpidr (regs k 0) = 0" "cpu_id (cpu_locals k 0) = 0"
  shows "bring_up im {} (sp_reg (regs k 0)) (tasks_set_up im k)"
proof -
  let ?k = "tasks_set_up im k"
  have more: "kernel.more ?k = kernel.more k" by (simp add: tasks_set_up_def set_current_def frame_simps init_workers_frame)
  then have al: "cpu_alive ?k = cpu_alive k" using boot_fields(1) more_boot by blast
  have hv: "hv ?k = hv k" using more_boot [OF more] by (cases k; cases ?k; simp)
  have f: "runqueues ?k = runqueues k" "locks ?k = locks k" "dev ?k = dev k" "regs ?k = regs k"
    by (simp_all add: tasks_set_up_def set_current_def frame_simps init_workers_frame)
  have c: "cpu_id (cpu_locals ?k 0) = 0" "curr (cpu_locals ?k 0) = taskWorker im 0"
    using p by (simp_all add: tasks_set_up_def set_current_def frame_simps init_workers_frame)
  have "sched_inv k" using k same by (auto simp: start_ok_def intro: sched_inv_cong)
  then have "sched_inv ?k"
    by (rule sched_inv_cong) (simp_all add: tasks_set_up_def set_current_def frame_simps init_workers_frame)
  moreover have "boot_ok ?k" using k same f hv by (simp add: start_ok_def boot_ok_def uart_live_def)
  ultimately show ?thesis using k same p f al hv c worker0_set_up [OF im, of k] by (simp add: bring_up_def start_ok_def MAX_CPUS_def)
qed

section \<open>From the boot loop to the first task\<close>

text \<open>Registering a task changes the queues and the home CPU of the task.\<close>

definition only_queues :: "'z kernel_scheme \<Rightarrow> 'z kernel_scheme \<Rightarrow> bool" where
  "only_queues k k' \<longleftrightarrow> regs k' = regs k \<and> cpu_locals k' = cpu_locals k \<and> mem k' = mem k \<and>
     (\<forall>t. tcb_sp (tcbs k' t) = tcb_sp (tcbs k t) \<and> tcb_entry (tcbs k' t) = tcb_entry (tcbs k t))"

lemma register_only_queues: "sched_register_on c i t k = Some k' \<Longrightarrow> only_queues k k'"
  by (auto simp: only_queues_def sched_register_on_def rq_at_def lock_defs rq_append_closed Let_def fun_upd_idem split: if_splits)

lemma place_only_queues: "place_workers im c is k = Some k' \<Longrightarrow> only_queues k k'"
proof (induction "is" arbitrary: k)
  case Nil
  then show ?case by (simp add: only_queues_def)
next
  case (Cons i "is")
  then obtain k1 where k1: "sched_register_on c (i mod smp_online k) (taskWorker im i) k = Some k1" "place_workers im c is k1 = Some k'"
    by (auto split: bind_splits)
  then show ?case using register_only_queues [OF k1(1)] Cons.IH [OF k1(2)] by (simp add: only_queues_def)
qed

lemma worker0_only_queues: "worker0_ready im k \<Longrightarrow> only_queues k k' \<Longrightarrow> worker0_ready im k'"
  by (simp add: worker0_ready_def only_queues_def)

text \<open>The queues when all tasks are placed.\<close>

definition placed_queue :: "image \<Rightarrow> nat set \<Rightarrow> nat \<Rightarrow> u64 list" where
  "placed_queue im U i = (if i \<in> U then secondary_set im i else []) @
     map (taskWorker im) (filter (\<lambda>w. w mod (1 + card U) = i) [0..<NUM_WORKERS]) @ (if i = 0 then [busy_task im] else [])"

lemma placement:
  assumes im: "layout im" and U: "U \<subseteq> {1..<MAX_CPUS}" and b: "bring_up im U sp k" and on: "smp_online k = 1 + card U"
  shows "\<exists>k1 k'. place_workers im 0 [0..<NUM_WORKERS] k = Some k1 \<and> sched_register 0 (busy_task im) k1 = Some k' \<and>
     sched_inv k' \<and> only_queues k k' \<and> smp_online k' = 1 + card U \<and> (\<forall>i < MAX_CPUS. rq_tasks (runqueues k' i) = placed_queue im U i)"
proof -
  have q: "rq_tasks (runqueues k i) = (if i \<in> U then secondary_set im i else [])" if "i < MAX_CPUS" for i
    using b U that by (cases "i = 0") (auto simp: bring_up_def)
  have ss: "length (secondary_set im i) \<le> 4" for i by (simp add: secondary_set_def)
  have d: "distinct (image_tasks im)" by (rule layoutD(2) [OF im])
  have sec: "\<forall>t \<in> set (rq_tasks (runqueues k i)). t \<noteq> busy_task im \<and> (\<forall>w < NUM_WORKERS. t \<noteq> taskWorker im w)" if "i < MAX_CPUS" for i
  proof (cases "i \<in> U")
    case True
    then have "0 < i" using U by auto
    from layout_sets(3,4) [OF im this that] True show ?thesis unfolding q [OF that] by auto
  qed (simp add: q that)
  have "card U \<le> card {1..<MAX_CPUS}" by (rule card_mono [OF _ U]) simp
  then have "1 + card U \<le> MAX_CPUS" by (simp add: MAX_CPUS_def)
  moreover have "distinct (map (taskWorker im) [0..<NUM_WORKERS])" using d by (simp add: image_tasks_def)
  moreover have "NULL \<notin> set (map (taskWorker im) [0..<NUM_WORKERS])" using layoutD(1) [OF im image_tasksI(1)] by force
  moreover have "length (rq_tasks (runqueues k i)) + 3 \<le> MAX_TASKS" if "i < MAX_CPUS" for i
    using ss [of i] by (simp add: q that MAX_TASKS_def)
  moreover have "taskWorker im w \<notin> set (rq_tasks (runqueues k i))" if "w < NUM_WORKERS" "i < MAX_CPUS" for w i
    using sec [OF that(2)] that(1) by blast
  ultimately have "placeable im [0..<NUM_WORKERS] k" using b unfolding placeable_def on bring_up_def by (simp add: NUM_WORKERS_def)
  from place_result [OF this, of 0] obtain k1 where k1: "place_workers im 0 [0..<NUM_WORKERS] k = Some k1" "sched_inv k1" "locks k1 = locks k"
    "smp_online k1 = smp_online k" and q1: "\<And>i. rq_tasks (runqueues k1 i) = rq_tasks (runqueues k i) @
       map (taskWorker im) (filter (\<lambda>w. w mod smp_online k = i) [0..<NUM_WORKERS])" by blast
  note o1 = place_only_queues [OF k1(1)]
  have id: "my_id 0 k1 = 0" using o1 b by (simp add: only_queues_def bring_up_def this_cpu_def)
  have busy: "busy_task im \<noteq> taskWorker im w" if "w < NUM_WORKERS" for w using d that by (auto simp: image_tasks_def)
  have "length (filter (\<lambda>w. w mod smp_online k = 0) [0..<NUM_WORKERS]) \<le> 3"
    using length_filter_le [of _ "[0..<NUM_WORKERS]"] by (simp add: NUM_WORKERS_def)
  moreover have "busy_task im \<notin> set (rq_tasks (runqueues k1 i))" if "i < MAX_CPUS" for i using sec [OF that] busy by (auto simp: q1)
  moreover have "busy_task im \<noteq> NULL" by (rule layoutD(1) [OF im image_tasksI(2)])
  ultimately have "addable 0 (busy_task im) k1"
    using k1(2,3) b q [of 0] q1 [of 0] U by (auto simp: addable_def bring_up_def MAX_CPUS_def MAX_TASKS_def)
  from register_adds [OF this, of 0] obtain k' where k': "sched_register_on 0 0 (busy_task im) k1 = Some k'" "adds 0 (busy_task im) k1 k'" by blast
  note D = addsD [OF k'(2)]
  have "rq_tasks (runqueues k' i) = placed_queue im U i" if "i < MAX_CPUS" for i
    using D(2) D(3) [of i] q [OF that] q1 [of i] on U by (cases "i = 0") (auto simp: placed_queue_def)
  moreover have "only_queues k k'" using o1 register_only_queues [OF k'(1)] by (simp add: only_queues_def)
  ultimately show ?thesis using k1(1,4) k'(1) D(1,9) on id by (auto simp: sched_register_def)
qed

lemma printed:
  assumes "boot_ok k" "NUL \<notin> set p"
  shows "\<exists>l. uart_puts c s k = Some (did l k)" "\<exists>l. print_hexline c p v k = Some (did l k)"
  using puts.emit_sends [where k = k and x = s and l = "[]" and c = c]
    hexline.emit_sends [where k = k and x = "(p, v)" and l = "[]" and c = c] assms
  by (auto simp: sends_def boot_ok_def uart_ready_def)

text \<open>The switch at the end of \<open>kernel_main\<close>, from the boot stack into the first worker.\<close>

lemma first_switch:
  assumes im: "layout im" and w: "worker0_ready im k" and inv: "sched_inv k" and c: "tpidr (regs k 0) = 0" "curr (cpu_locals k 0) = taskWorker im 0"
    and stack: "set (frame_addrs (sp_reg (regs k 0) - 112)) \<inter> stack_set (taskWorker im 0) = {}"
  defines "k' \<equiv> switch_to 0 (dummy_sp im) (tcb_sp (tcbs k (taskWorker im 0))) k"
  shows "sched_inv k'" "current 0 k' = taskWorker im 0" "pc_reg (regs k' 0) = tramp im"
    "pc_reg (regs (task_trampoline 0 k') 0) = worker_entry im" "\<not> irq_masked 0 (task_trampoline 0 k')"
proof -
  let ?w = "taskWorker im 0"
  have fr: "frame_holds (mem k) (tcb_sp (tcbs k ?w)) (first_regs (tramp im))" using w by (simp add: worker0_ready_def)
  have dj: "set (frame_addrs (sp_reg (regs k 0) - 112)) \<inter> set (frame_addrs (tcb_sp (tcbs k ?w))) = {}"
    using stack frame_in_stack [of ?w] w by (auto simp: worker0_ready_def)
  note R = switch_to_restores [OF fr dj, where p = "dummy_sp im"]
  have "dummy_sp im \<noteq> ?w" using layoutD(3) [OF im] image_tasksI(1) [of 0 im] by (auto simp: NUM_WORKERS_def)
  then have en: "tcb_entry (tcbs k' ?w) = worker_entry im" using w by (simp add: k'_def switch_to_tcbs worker0_ready_def)
  show cur: "current 0 k' = ?w" using c by (simp add: k'_def current_def this_cpu_def frame_simps)
  show "sched_inv k'" unfolding k'_def by (rule sched_inv_cong [OF inv]) (simp_all add: frame_simps)
  show "pc_reg (regs (task_trampoline 0 k') 0) = worker_entry im" "\<not> irq_masked 0 (task_trampoline 0 k')"
    using en cur by (simp_all add: task_trampoline_def Let_def irq_masked_def DAIF_I_def bit_and_iff bit_not_iff current_def this_cpu_def)
  show "pc_reg (regs k' 0) = tramp im" using R(4) by (simp add: k'_def first_regs_def)
qed

lemma system_result:
  assumes im: "layout im" and up: "prompt up" and k: "start_ok k"
    and pci: "pci_ids vendor device k" "find (pci_match vendor device) [0..<32] \<noteq> None"
    and stack: "set (frame_addrs (sp_reg (regs k 0) - 112)) \<inter> stack_set (taskWorker im 0) = {}"
  defines "U \<equiv> {i \<in> {1..<MAX_CPUS}. up i \<noteq> None}"
  shows "\<exists>k'. kernel_main False None (secondaries im up) im 0 d0 k = Some (Running k') \<and> sched_inv k' \<and> smp_online k' = 1 + card U \<and>
     (\<forall>i < MAX_CPUS. rq_tasks (runqueues k' i) = placed_queue im U i) \<and> current 0 k' = taskWorker im 0 \<and>
     pc_reg (regs k' 0) = tramp im \<and> pc_reg (regs (task_trampoline 0 k') 0) = worker_entry im \<and> \<not> irq_masked 0 (task_trampoline 0 k')"
proof -
  let ?sp = "sp_reg (regs k 0)" and ?w = "taskWorker im 0"
  let ?k1 = "set_vbar im 0 (percpu_init 0 0 k)"
  have ok1: "boot_ok ?k1" using k by (simp add: start_ok_def boot_ok_def uart_live_def set_vbar_def percpu_init_def)
  obtain l1 where l1: "uart_puts 0 (''P4 M7: full integration test boot OK'' @ CRLF) ?k1 = Some (did l1 ?k1)" using printed(1) [OF ok1, of "[]"] by auto
  have "pci_ids vendor device (did l1 ?k1)" using pci(1) by (simp add: pci_ids_def did_def set_vbar_def percpu_init_def)
  from pci_find_result [OF this, of d0] pci(2) obtain l2 d where d: "pci_find_dma_accel d0 (did l1 ?k1) = (d, did (l1 @ l2) ?k1)" "found d \<noteq> 0"
    by (auto simp: pci_set_up_def)
  let ?k2 = "(accel_setup_queues (sq_addr im) (cq_addr im) (accel_init (bar0_phys d) (did (l1 @ l2) ?k1)))\<lparr>tick_freq := cntfrq_el0 im\<rparr>"
  have f2: "locks ?k2 = locks k" "dev ?k2 = dev k" "hv ?k2 = hv k" "runqueues ?k2 = runqueues k" "tcbs ?k2 = tcbs k"
    "cpu_alive ?k2 = cpu_alive k" "tpidr (regs ?k2 0) = 0" "cpu_id (cpu_locals ?k2 0) = 0" "sp_reg (regs ?k2 0) = ?sp"
    by (simp_all add: accel_setup_queues_def accel_init_def reg_write_def io_write_def did_def set_vbar_def percpu_init_def Let_def)
  let ?k3 = "tasks_set_up im ?k2"
  have b3: "bring_up im {} ?sp ?k3" using set_up_brings_up [OF im k f2(1-8)] f2(9) by simp
  let ?k4 = "timer_rearm (tick_freq (gic_enable_irq DMA_ACCEL_IRQ_ID (gic_enable_irq TIMER_IRQ_ID (gic_init ?k3))) div 2000)
      (gic_enable_irq DMA_ACCEL_IRQ_ID (gic_enable_irq TIMER_IRQ_ID (gic_init ?k3)))"
  have b4: "bring_up im {} ?sp ?k4" by (rule bring_up_cong [OF b3]) (simp_all add: timer_rearm_def gic_defs io_write_def)
  then have "boot_ok ?k4" by (simp add: bring_up_def)
  then obtain l4 where l4: "print_hexline 0 ''CPU0: MPIDR_EL1='' (mpidr_el1 im 0) ?k4 = Some (did l4 ?k4)"
    using printed(2) [of ?k4 "''CPU0: MPIDR_EL1=''"] by auto
  have "bring_up im {} ?sp (did l4 ?k4)" using b4 by (simp add: did_def)
  from smp_boots [OF im up this, of 0, folded U_def] obtain k5 where k5: "smp_boot_secondaries (secondaries im up) im 0 (did l4 ?k4) = Some k5"
    "bring_up im U ?sp k5" "smp_online k5 = 1 + card U" by blast
  have "U \<subseteq> {1..<MAX_CPUS}" by (auto simp: U_def)
  from placement [OF im this k5(2,3)] obtain k6 k7 where k6: "place_workers im 0 [0..<NUM_WORKERS] k5 = Some k6"
    and k7: "sched_register 0 (busy_task im) k6 = Some k7" "sched_inv k7" "only_queues k5 k7" "smp_online k7 = 1 + card U"
      "\<forall>i < MAX_CPUS. rq_tasks (runqueues k7 i) = placed_queue im U i" by blast
  let ?k' = "switch_to 0 (dummy_sp im) (tcb_sp (tcbs k7 ?w)) k7"
  have run: "kernel_main False None (secondaries im up) im 0 d0 k = Some (Running ?k')"
    unfolding kernel_main_def Let_def l1 bind.bind_lunit d(1) prod.case
    using d(2) l4 k5(1) k6 k7(1) by (simp add: tasks_set_up_def)
  have w: "worker0_ready im k7" using worker0_only_queues [OF _ k7(3)] k5(2) by (simp add: bring_up_def)
  have c7: "sp_reg (regs k7 0) = ?sp" "tpidr (regs k7 0) = 0" "curr (cpu_locals k7 0) = ?w"
    using k7(3) k5(2) by (simp_all add: only_queues_def bring_up_def)
  have "set (frame_addrs (sp_reg (regs k7 0) - 112)) \<inter> stack_set ?w = {}" using stack by (simp add: c7)
  note F = first_switch [OF im w k7(2) c7(2,3) this]
  show ?thesis using run F k7(4,5) by (auto simp: frame_simps)
qed

section \<open>A sample start\<close>

definition start_bus :: "io list \<Rightarrow> u64 \<Rightarrow> u64" where
  "start_bus l a = (if a = UART_FR then 0 else accel_bus l a)"

definition start_sample :: boot_state where
  "start_sample = boot_sample\<lparr>runqueues := \<lambda>_. sample_rq, dev := start_bus\<rparr>"

lemma start_sample_ok: "start_ok start_sample"
proof -
  have "locks start_sample = locks boot_sample" by (simp add: start_sample_def)
  then have "\<forall>i < MAX_CPUS. locks start_sample (Rq_lock i) = 0" "locks start_sample Uart_lock = 0"
    using boot_sample_ok(1) by (simp_all add: sched_ok_def all_free_def)
  moreover have "cpu_alive start_sample i = False" "hv start_sample l = 0" for i l by (simp_all add: start_sample_def boot_sample_defs)
  moreover have "runqueues start_sample i = sample_rq" "dev start_sample = start_bus" for i by (simp_all add: start_sample_def)
  moreover have "rq_ok sample_rq" "rq_tasks sample_rq = []" by (simp_all add: rq_ok_def wf_rq_def rq_tasks_def sample_rq_def header_consts)
  ultimately show ?thesis by (simp add: start_ok_def boot_ok_def uart_live_def start_bus_def sched_inv_def)
qed

lemma start_sample_pci: "pci_ids (\<lambda>s. if s = 2 then 0x1234 else 0xFFFF) (\<lambda>s. if s = 2 then 0xda00 else 0xFFFF) start_sample"
proof -
  have "ecam_addr 0 (of_nat s) 0 r \<noteq> UART_FR" if "s < 32" "r \<in> {PCI_VENDOR_ID, PCI_DEVICE_ID}" for s r
  proof -
    have "\<forall>s \<in> set [0..<32]. ecam_addr 0 (of_nat s) 0 PCI_VENDOR_ID \<noteq> UART_FR \<and> ecam_addr 0 (of_nat s) 0 PCI_DEVICE_ID \<noteq> UART_FR"
      by code_simp
    then show ?thesis using that by auto
  qed
  moreover have "(of_nat s = (2 :: u32)) = (s = 2)" if "s < 32" for s :: nat
    using that of_nat_inverse [of s "2 :: u32"] by auto
  ultimately show ?thesis using accel_bus_slots by (auto simp: pci_ids_def start_sample_def start_bus_def)
qed

lemma sample_layout: "layout sample_image"
proof -
  have t: "image_tasks sample_image = [0x50050000, 0x50052000, 0x50054000, 0x50060000,
      0x50002000, 0x50014000, 0x50016000, 0x50030000, 0x50004000, 0x50018000, 0x5001A000, 0x50032000, 0x50006000, 0x5001C000, 0x5001E000]"
    by (simp add: image_tasks_def secondary_set_def sample_image_def NUM_WORKERS_def MAX_CPUS_def upt_rec)
  show ?thesis unfolding layout_def t by (simp add: apart_def sample_image_def)
qed

lemma sample_stack: "set (frame_addrs (0x40060000 - 112)) \<inter> stack_set (taskWorker sample_image 0) = {}"
proof -
  have lo: "0x50050000 \<le> unat a" if "a \<in> stack_set 0x50050000" for a
    using that stack_addr_unat [of "0x50050000"] by (auto simp: stack_set_def)
  have "\<forall>a \<in> set (frame_addrs (0x40060000 - 112)). unat a < 0x50050000" by (simp add: frame_addrs_expand)
  then show ?thesis using lo by (fastforce simp: sample_image_def)
qed

end
