(* ===== verification/Vectors.thy ===== *)
theory Vectors
  imports Diag
begin

text \<open>
  Exception entry and exit (\<open>kernel/vectors.S\<close>) over the registers of a CPU and the stack memory: the vector
  table, \<open>irq_el1h\<close> around \<open>irq_handler\<close>, and \<open>sync_el1h\<close> up to the report. The theorems: an interrupted
  task gets every general register, the stack pointer, the program counter, the flags and the interrupt mask back, also
  when the handler switched to another task and it is resumed later on another CPU; and the report of a synchronous exception
  is about the state at the exception.

  The stack frames of the C functions are not in the model: \<open>switch_to\<close> is called with the stack pointer
  \<open>irq_handler\<close> was called with. What a C function leaves in the registers it may change is arbitrary.
\<close>

section \<open>Instructions\<close>

datatype sysreg = ELR_EL1 | SPSR_EL1 | ESR_EL1

datatype insn =
    Sub_sp u64               \<comment> \<open>\<open>sub sp, sp, #i\<close>\<close>
  | Add_sp u64               \<comment> \<open>\<open>add sp, sp, #i\<close>\<close>
  | Stp nat nat u64          \<comment> \<open>\<open>stp xa, xb, [sp, #i]\<close>\<close>
  | Str nat u64
  | Ldp nat nat u64
  | Ldr nat u64
  | Mrs nat sysreg
  | Msr sysreg nat
  | Add_x_sp nat u64         \<comment> \<open>\<open>add xa, sp, #i\<close>; \<open>mov xa, sp\<close> is the case 0\<close>

fun get_sys :: "sysreg \<Rightarrow> cpu_regs \<Rightarrow> u64" where
  "get_sys ELR_EL1 r = elr r"
| "get_sys SPSR_EL1 r = spsr r"
| "get_sys ESR_EL1 r = esr r"

fun set_sys :: "sysreg \<Rightarrow> u64 \<Rightarrow> cpu_regs \<Rightarrow> cpu_regs" where
  "set_sys ELR_EL1 v r = r\<lparr>elr := v\<rparr>"
| "set_sys SPSR_EL1 v r = r\<lparr>spsr := v\<rparr>"
| "set_sys ESR_EL1 v r = r\<lparr>esr := v\<rparr>"

fun exec1 :: "nat \<Rightarrow> insn \<Rightarrow> 'z kernel_scheme \<Rightarrow> 'z kernel_scheme" where
  "exec1 c (Sub_sp i) k = set_sp c (sp_reg (regs k c) - i) k"
| "exec1 c (Add_sp i) k = set_sp c (sp_reg (regs k c) + i) k"
| "exec1 c (Stp a b i) k =
    (let s = sp_reg (regs k c) + i in store64 (s + 8) (get_x c b k) (store64 s (get_x c a k) k))"
| "exec1 c (Str a i) k = store64 (sp_reg (regs k c) + i) (get_x c a k) k"
| "exec1 c (Ldp a b i) k =
    (let s = sp_reg (regs k c) + i in set_x c b (mem k (s + 8)) (set_x c a (mem k s) k))"
| "exec1 c (Ldr a i) k = set_x c a (mem k (sp_reg (regs k c) + i)) k"
| "exec1 c (Mrs a s) k = set_x c a (get_sys s (regs k c)) k"
| "exec1 c (Msr s a) k = upd_regs c (set_sys s (get_x c a k)) k"
| "exec1 c (Add_x_sp a i) k = set_x c a (sp_reg (regs k c) + i) k"

fun exec :: "nat \<Rightarrow> insn list \<Rightarrow> 'z kernel_scheme \<Rightarrow> 'z kernel_scheme" where
  "exec c [] k = k"
| "exec c (i # is) k = exec c is (exec1 c i k)"

section \<open>The vector table\<close>

datatype handler = Sync_el1h | Irq_el1h | Hang_vec

text \<open>Sixteen slots of 128 bytes.\<close>

definition vector_table :: "handler list" where
  "vector_table = [
     Hang_vec, Hang_vec, Hang_vec, Hang_vec,
     Sync_el1h, Irq_el1h, Hang_vec, Hang_vec,
     Hang_vec, Hang_vec, Hang_vec, Hang_vec,
     Hang_vec, Hang_vec, Hang_vec, Hang_vec]"

text \<open>Where the architecture takes an exception to: from the current level with \<open>SP_EL0\<close> or \<open>SP_EL1\<close>, or from
  a lower level in 64 or 32 bits; synchronous, IRQ, FIQ, SError.\<close>

datatype exc_from = Current_sp0 | Current_spx | Lower_64 | Lower_32
datatype exc_kind = Synchronous | Irq | Fiq | Serror

fun from_offset :: "exc_from \<Rightarrow> nat" where
  "from_offset Current_sp0 = 0" | "from_offset Current_spx = 0x200" | "from_offset Lower_64 = 0x400" | "from_offset Lower_32 = 0x600"

fun kind_offset :: "exc_kind \<Rightarrow> nat" where
  "kind_offset Synchronous = 0" | "kind_offset Irq = 0x80" | "kind_offset Fiq = 0x100" | "kind_offset Serror = 0x180"

definition vector_for :: "exc_from \<Rightarrow> exc_kind \<Rightarrow> handler" where
  "vector_for f e = vector_table ! ((from_offset f + kind_offset e) div 0x80)"

text \<open>The kernel runs at EL1 on its own stack pointer: its synchronous exceptions and its interrupts have handlers, everything
  else hangs.\<close>

lemma vector_for_spec:
  "vector_for f e = (if f = Current_spx \<and> e = Synchronous then Sync_el1h else if f = Current_spx \<and> e = Irq then Irq_el1h else Hang_vec)"
  by (cases f; cases e) (simp_all add: vector_for_def vector_table_def)

section \<open>Entry and return\<close>

definition DAIF_ALL :: u64 where "DAIF_ALL = 0x3C0"
definition NZCV_ALL :: u64 where "NZCV_ALL = 0xF0000000"

text \<open>What the CPU does when it takes an exception at EL1h (mode bits 5) and when it executes \<open>eret\<close>. \<open>syn\<close> is the syndrome it
  writes for a synchronous exception.\<close>

definition take_exception :: "nat \<Rightarrow> u64 \<Rightarrow> 'z kernel_scheme \<Rightarrow> 'z kernel_scheme" where
  "take_exception c syn k = upd_regs c (\<lambda>r. r\<lparr>elr := pc_reg r, spsr := nzcv r OR daif r OR 5, esr := syn, daif := DAIF_ALL\<rparr>) k"

definition eret :: "nat \<Rightarrow> 'z kernel_scheme \<Rightarrow> 'z kernel_scheme" where
  "eret c k = upd_regs c (\<lambda>r. r\<lparr>pc_reg := elr r, daif := spsr r AND DAIF_ALL, nzcv := spsr r AND NZCV_ALL\<rparr>) k"

definition save_pairs :: "insn list" where
  "save_pairs = [Sub_sp 272,
     Stp 0 1 0, Stp 2 3 16, Stp 4 5 32, Stp 6 7 48, Stp 8 9 64, Stp 10 11 80, Stp 12 13 96, Stp 14 15 112,
     Stp 16 17 128, Stp 18 19 144, Stp 20 21 160, Stp 22 23 176, Stp 24 25 192, Stp 26 27 208, Stp 28 29 224]"

definition irq_el1h_save :: "insn list" where
  "irq_el1h_save = save_pairs @ [Mrs 0 ELR_EL1, Mrs 1 SPSR_EL1, Stp 30 0 240, Str 1 256]"

definition irq_el1h_restore :: "insn list" where
  "irq_el1h_restore = [Ldp 30 0 240, Ldr 1 256, Msr ELR_EL1 0, Msr SPSR_EL1 1,
     Ldp 0 1 0, Ldp 2 3 16, Ldp 4 5 32, Ldp 6 7 48, Ldp 8 9 64, Ldp 10 11 80, Ldp 12 13 96, Ldp 14 15 112,
     Ldp 16 17 128, Ldp 18 19 144, Ldp 20 21 160, Ldp 22 23 176, Ldp 24 25 192, Ldp 26 27 208, Ldp 28 29 224, Add_sp 272]"

definition sync_el1h_save :: "insn list" where
  "sync_el1h_save = save_pairs @ [Str 30 240, Mrs 0 ESR_EL1, Mrs 1 ELR_EL1, Stp 0 1 248, Add_x_sp 2 272, Str 2 264, Add_x_sp 0 0]"

text \<open>A C function may leave anything in x0 to x18, x30 and the flags: the values of \<open>j\<close>.\<close>

definition c_return :: "nat \<Rightarrow> cpu_regs \<Rightarrow> 'z kernel_scheme \<Rightarrow> 'z kernel_scheme" where
  "c_return c j k = upd_regs c (\<lambda>r. r\<lparr>xreg := (\<lambda>n. if n \<le> 18 \<or> n = 30 then xreg j n else xreg r n), nzcv := nzcv j\<rparr>) k"

text \<open>The two halves of \<open>irq_el1h\<close>: up to \<open>bl irq_handler\<close>, and from its return on.\<close>

definition irq_enter :: "nat \<Rightarrow> u64 \<Rightarrow> 'z kernel_scheme \<Rightarrow> 'z kernel_scheme" where
  "irq_enter c syn k = exec c irq_el1h_save (take_exception c syn k)"

definition irq_leave :: "nat \<Rightarrow> cpu_regs \<Rightarrow> 'z kernel_scheme \<Rightarrow> 'z kernel_scheme" where
  "irq_leave c j k = eret c (exec c irq_el1h_restore (c_return c j k))"

text \<open>\<open>sync_el1h\<close>: the block of 34 words at \<open>sp\<close> is the argument of the handler, which does not return.\<close>

definition sync_el1h :: "image \<Rightarrow> nat \<Rightarrow> 'z main_state_scheme \<Rightarrow> 'z main_state_scheme boot_end option" where
  "sync_el1h im c k =
    (let k = exec c sync_el1h_save k
     in sync_exception_handler_full im c (map (\<lambda>i. mem k (get_x c 0 k + 8 * of_nat i)) [0..<34]) k)"

section \<open>Words in memory\<close>

fun store_words :: "u64 \<Rightarrow> u64 list \<Rightarrow> (u64 \<Rightarrow> u64) \<Rightarrow> (u64 \<Rightarrow> u64)" where
  "store_words a [] m = m"
| "store_words a (w # ws) m = store_words (a + 8) ws (m(a := w))"

definition addrs :: "u64 \<Rightarrow> nat \<Rightarrow> u64 list" where
  "addrs a n = map (\<lambda>i. a + 8 * of_nat i) [0..<n]"

lemma addrs_Suc: "addrs a (Suc n) = a # addrs (a + 8) n"
  by (simp add: addrs_def upt_conv_Cons map_Suc_upt [symmetric] algebra_simps del: upt_Suc)

lemma addrs_notin: "n < 2 ^ 60 \<Longrightarrow> a \<notin> set (addrs (a + 8) n)"
proof
  assume n: "n < 2 ^ 60" and "a \<in> set (addrs (a + 8) n)"
  then obtain i where i: "i < n" "a = a + 8 + 8 * of_nat i" by (auto simp: addrs_def)
  then have "(of_nat (8 + 8 * i) :: u64) = of_nat 0" by (simp add: add.assoc)
  from of_nat_u64_inj [OF _ _ this] show False using i n by simp
qed

lemma store_words_other: "x \<notin> set (addrs a (length ws)) \<Longrightarrow> store_words a ws m x = m x"
  by (induction a ws m rule: store_words.induct) (auto simp: addrs_Suc)

lemma store_words_map: "length ws < 2 ^ 60 \<Longrightarrow> map (store_words a ws m) (addrs a (length ws)) = ws"
proof (induction a ws m rule: store_words.induct)
  case (2 a w ws m)
  then have "store_words (a + 8) ws (m(a := w)) a = w"
    using addrs_notin [of "length ws" a] by (simp add: store_words_other)
  moreover have "map (store_words (a + 8) ws (m(a := w))) (addrs (a + 8) (length ws)) = ws" using 2 by (simp del: fun_upd_apply)
  ultimately show ?case by (simp add: addrs_Suc del: fun_upd_apply)
qed (simp add: addrs_def)

text \<open>Blocks of words at a distance do not overlap.\<close>

lemma addrs_disjoint:
  assumes "8 * n + d < 2 ^ 60" "8 * m \<le> d"
  shows "set (addrs (a - of_nat d) m) \<inter> set (addrs a n) = {}"
proof -
  have False if "i < m" "j < n" "a - of_nat d + 8 * of_nat i = a + 8 * of_nat j" for i j
  proof -
    from that(3) have "(of_nat (8 * i) :: u64) = of_nat (8 * j + d)" by (simp add: algebra_simps)
    moreover have "8 * i < 2 ^ 64" "8 * j + d < 2 ^ 64" using that assms by simp_all
    ultimately have "8 * i = 8 * j + d" using of_nat_u64_inj by blast
    then show False using that(1) assms(2) by linarith
  qed
  then show ?thesis by (fastforce simp: addrs_def)
qed

lemma frame_addrs_addrs: "frame_addrs a = addrs a 14"
  by (simp add: frame_addrs_def addrs_def)

section \<open>The frame of an interrupt\<close>

definition irq_frame :: "cpu_regs \<Rightarrow> u64 list" where
  "irq_frame r = map (xreg r) [0..<31] @ [elr r, spsr r]"

lemmas exec_defs = exec.simps exec1.simps insn_defs get_sys.simps set_sys.simps save_pairs_def append.simps

lemma upt_31: "[0..<31] = [0, 1, 2, 3, 4, 5, 6, 7, 8, 9, 10, 11, 12, 13, 14, 15, 16, 17, 18, 19, 20, 21, 22, 23, 24, 25, 26, 27,
     28, 29, 30 :: nat]"
  by code_simp

lemma irq_save_effect:
  assumes "sp_reg (regs k c) = b + 272"
  shows "mem (exec c irq_el1h_save k) = store_words b (irq_frame (regs k c)) (mem k)"
    and "regs (exec c irq_el1h_save k) =
       (regs k)(c := (regs k c)\<lparr>sp_reg := b, xreg := (xreg (regs k c))(0 := elr (regs k c), 1 := spsr (regs k c))\<rparr>)"
  using assms by (simp_all add: irq_el1h_save_def exec_defs irq_frame_def upt_31 add.assoc)

lemma upt_33: "[0..<33] = [0, 1, 2, 3, 4, 5, 6, 7, 8, 9, 10, 11, 12, 13, 14, 15, 16, 17, 18, 19, 20, 21, 22, 23, 24, 25, 26, 27,
     28, 29, 30, 31, 32 :: nat]"
  by code_simp

lemma le_30_cases:
  "n \<le> 30 \<longleftrightarrow> n \<in> {0, 1, 2, 3, 4, 5, 6, 7, 8, 9, 10, 11, 12, 13, 14, 15, 16, 17, 18, 19, 20, 21, 22, 23, 24, 25, 26, 27, 28, 29, 30 :: nat}"
proof -
  have "n \<le> 30 \<longleftrightarrow> n \<in> set [0..<31]" by auto
  then show ?thesis unfolding upt_31 by simp
qed

lemma irq_restore_effect:
  assumes sp: "sp_reg (regs k c) = b" and fr: "map (mem k) (addrs b 33) = irq_frame r"
  shows "\<forall>n\<le>30. xreg (regs (exec c irq_el1h_restore k) c) n = xreg r n"
    and "elr (regs (exec c irq_el1h_restore k) c) = elr r" "spsr (regs (exec c irq_el1h_restore k) c) = spsr r"
    and "sp_reg (regs (exec c irq_el1h_restore k) c) = b + 272"
    and "tpidr (regs (exec c irq_el1h_restore k) c) = tpidr (regs k c)"
proof -
  note m = fr [unfolded irq_frame_def addrs_def upt_31 upt_33, simplified]
  let ?r = "regs (exec c irq_el1h_restore k) c"
  have r: "?r = (regs k c)\<lparr>sp_reg := b + 272, elr := elr r, spsr := spsr r, xreg := xreg ?r\<rparr>"
    using sp m by (simp add: irq_el1h_restore_def exec_defs add.assoc)
  show "elr ?r = elr r" "spsr ?r = spsr r" "sp_reg ?r = b + 272" "tpidr ?r = tpidr (regs k c)"
    by (subst r; simp)+
  show "\<forall>n\<le>30. xreg ?r n = xreg r n"
    unfolding le_30_cases ball_simps(7) using sp m
    by (simp add: irq_el1h_restore_def exec_defs add.assoc)
qed

lemma restore_frame [frame_simps]:
  "mem (exec c irq_el1h_restore k) = mem k" "tcbs (exec c irq_el1h_restore k) = tcbs k"
  "d \<noteq> c \<Longrightarrow> regs (exec c irq_el1h_restore k) d = regs k d" "cpu_locals (exec c irq_el1h_restore k) = cpu_locals k"
  "runqueues (exec c irq_el1h_restore k) = runqueues k" "locks (exec c irq_el1h_restore k) = locks k"
  "io_log (exec c irq_el1h_restore k) = io_log k"
  by (simp_all add: irq_el1h_restore_def exec_defs)

section \<open>Interrupted contexts\<close>

text \<open>What a task can see of the CPU: the general registers, the stack pointer, the program counter, the interrupt mask and the flags.\<close>

definition same_context :: "cpu_regs \<Rightarrow> cpu_regs \<Rightarrow> bool" where
  "same_context r r' \<longleftrightarrow> (\<forall>n\<le>30. xreg r' n = xreg r n) \<and> sp_reg r' = sp_reg r \<and> pc_reg r' = pc_reg r \<and>
     daif r' = daif r \<and> nzcv r' = nzcv r"

text \<open>The mask and the flags have no bits outside their fields.\<close>

definition pstate_ok :: "cpu_regs \<Rightarrow> bool" where
  "pstate_ok r \<longleftrightarrow> daif r AND DAIF_ALL = daif r \<and> nzcv r AND NZCV_ALL = nzcv r"

lemma spsr_fields:
  assumes "pstate_ok r"
  shows "(nzcv r OR daif r OR 5) AND DAIF_ALL = daif r" "(nzcv r OR daif r OR 5) AND NZCV_ALL = nzcv r"
proof -
  have D: "daif r AND DAIF_ALL = daif r" and N: "nzcv r AND NZCV_ALL = nzcv r" using assms by (simp_all add: pstate_ok_def)
  have DN: "DAIF_ALL AND NZCV_ALL = 0" and z: "5 AND DAIF_ALL = 0" "5 AND NZCV_ALL = 0" by (simp_all add: DAIF_ALL_def NZCV_ALL_def)
  have "nzcv r AND DAIF_ALL = nzcv r AND (DAIF_ALL AND NZCV_ALL)" by (subst N [symmetric]) (simp only: and.assoc and.commute [of NZCV_ALL DAIF_ALL])
  then have "nzcv r AND DAIF_ALL = 0" unfolding DN by simp
  then show "(nzcv r OR daif r OR 5) AND DAIF_ALL = daif r" using D z by (simp add: bit.conj_disj_distrib2)
  have "daif r AND NZCV_ALL = daif r AND (DAIF_ALL AND NZCV_ALL)" by (subst D [symmetric]) (simp only: and.assoc)
  then have "daif r AND NZCV_ALL = 0" unfolding DN by simp
  then show "(nzcv r OR daif r OR 5) AND NZCV_ALL = nzcv r" using N z by (simp add: bit.conj_disj_distrib2)
qed

lemma irq_enter_mem:
  "map (mem (irq_enter c syn k)) (addrs (sp_reg (regs k c) - 272) 33) = irq_frame (regs (take_exception c syn k) c)"
proof -
  let ?k = "take_exception c syn k" and ?b = "sp_reg (regs k c) - 272"
  have "sp_reg (regs ?k c) = ?b + 272" by (simp add: take_exception_def)
  from irq_save_effect(1) [OF this] have "mem (irq_enter c syn k) = store_words ?b (irq_frame (regs ?k c)) (mem ?k)"
    by (simp add: irq_enter_def)
  moreover have "length (irq_frame (regs ?k c)) = 33" by (simp add: irq_frame_def)
  ultimately show ?thesis using store_words_map [of "irq_frame (regs ?k c)" ?b "mem ?k"] by simp
qed

lemma irq_enter_regs:
  "sp_reg (regs (irq_enter c syn k) c) = sp_reg (regs k c) - 272" "daif (regs (irq_enter c syn k) c) = DAIF_ALL"
  "tpidr (regs (irq_enter c syn k) d) = tpidr (regs k d)"
proof -
  have "sp_reg (regs (take_exception c syn k) c) = (sp_reg (regs k c) - 272) + 272" by (simp add: take_exception_def)
  from irq_save_effect(2) [OF this]
  show "sp_reg (regs (irq_enter c syn k) c) = sp_reg (regs k c) - 272" "daif (regs (irq_enter c syn k) c) = DAIF_ALL"
    "tpidr (regs (irq_enter c syn k) d) = tpidr (regs k d)"
    by (simp_all add: irq_enter_def take_exception_def)
qed

lemma irq_enter_frame [frame_simps]:
  "tcbs (irq_enter c syn k) = tcbs k" "cpu_locals (irq_enter c syn k) = cpu_locals k" "runqueues (irq_enter c syn k) = runqueues k"
  "locks (irq_enter c syn k) = locks k" "dev (irq_enter c syn k) = dev k" "io_log (irq_enter c syn k) = io_log k"
  "active_policy (irq_enter c syn k) = active_policy k" "kernel.more (irq_enter c syn k) = kernel.more k"
  "d \<noteq> c \<Longrightarrow> regs (irq_enter c syn k) d = regs k d"
  by (simp_all add: irq_enter_def take_exception_def irq_el1h_save_def exec_defs)

lemma irq_enter_current [frame_simps]: "current d (irq_enter c syn k) = current d k"
  by (simp add: current_def this_cpu_def frame_simps irq_enter_regs)

text \<open>The return half gives the context back, on any CPU, when the stack pointer is at an intact frame.\<close>

lemma irq_leave_context:
  assumes ps: "pstate_ok (regs k c)" and sp: "sp_reg (regs k2 d) = sp_reg (regs k c) - 272"
    and fr: "map (mem k2) (addrs (sp_reg (regs k c) - 272) 33) = irq_frame (regs (take_exception c syn k) c)"
  shows "same_context (regs k c) (regs (irq_leave d j k2) d)"
proof -
  let ?k = "c_return d j k2"
  have "sp_reg (regs ?k d) = sp_reg (regs k c) - 272" "map (mem ?k) (addrs (sp_reg (regs k c) - 272) 33) = irq_frame (regs (take_exception c syn k) c)"
    using sp fr by (simp_all add: c_return_def)
  note r = irq_restore_effect [OF this]
  have "xreg (regs (take_exception c syn k) c) = xreg (regs k c)" "elr (regs (take_exception c syn k) c) = pc_reg (regs k c)"
    "spsr (regs (take_exception c syn k) c) = nzcv (regs k c) OR daif (regs k c) OR 5" by (simp_all add: take_exception_def)
  then show ?thesis using r spsr_fields [OF ps] by (simp add: same_context_def irq_leave_def eret_def)
qed

text \<open>The words an interrupted and switched-away task has on its stack: the frame of \<open>irq_el1h\<close> and below it that of \<open>switch_to\<close>.\<close>

definition preempt_words :: "u64 \<Rightarrow> u64 set" where
  "preempt_words sp = set (frame_addrs (sp - 384)) \<union> set (addrs (sp - 272) 33)"

lemma switch_keeps_irq_frame:
  assumes "sp_reg (regs k c) = b"
  shows "map (mem (switch_to c p ns k)) (addrs b 33) = map (mem k) (addrs b 33)"
proof -
  have "set (frame_addrs (b - 112)) \<inter> set (addrs b 33) = {}"
    using addrs_disjoint [of 33 112 14 b] by (simp add: frame_addrs_addrs)
  moreover have "sp_reg (regs k c) = (b - 112) + 112" using assms by simp
  ultimately show ?thesis using switch_save_spec(3) [of k c "b - 112"] unfolding switch_to_mem by (intro map_cong) auto
qed

text \<open>A context that was interrupted and switched away from is on its stack, and comes back when some CPU switches to it.\<close>

lemma preempted_resumes:
  assumes ps: "pstate_ok (regs k c)"
    and k1: "k1 = switch_to c p ns k0" "regs k0 = regs (irq_enter c syn k)" "mem k0 = mem (irq_enter c syn k)"
    and kept: "\<forall>x \<in> preempt_words (sp_reg (regs k c)). mem k2 x = mem k1 x"
    and apart: "set (frame_addrs (sp_reg (regs k2 d) - 112)) \<inter> preempt_words (sp_reg (regs k c)) = {}"
  shows "same_context (regs k c) (regs (irq_leave d j (switch_to d q (sp_reg (regs k c) - 384) k2)) d)"
proof -
  let ?b = "sp_reg (regs k c) - 272" and ?s = "sp_reg (regs k c) - 384"
  have b: "?b - 112 = ?s" by (simp add: algebra_simps)
  have sp0: "sp_reg (regs k0 c) = ?b" using k1(2) by (simp add: irq_enter_regs)
  have "frame_holds (mem k1) ?s (regs k0 c)" using switch_to_saves [of c p ns k0] sp0 k1(1) b by simp
  moreover have "\<forall>x \<in> set (frame_addrs ?s). mem k2 x = mem k1 x" using kept by (simp add: preempt_words_def)
  ultimately have "frame_holds (mem k2) ?s (regs k0 c)" using frame_holds_cong by blast
  moreover have "set (frame_addrs (sp_reg (regs k2 d) - 112)) \<inter> set (frame_addrs ?s) = {}" using apart by (auto simp: preempt_words_def)
  ultimately have "sp_reg (regs (switch_to d q ?s k2) d) = ?s + 112" by (rule switch_to_restores(3))
  then have sp: "sp_reg (regs (switch_to d q ?s k2) d) = ?b" using b by (simp add: algebra_simps)
  have "mem (switch_to d q ?s k2) x = mem k2 x" if "x \<in> set (addrs ?b 33)" for x
    unfolding switch_to_mem using that apart
    by (intro switch_save_spec(3) [of k2 d "sp_reg (regs k2 d) - 112"]) (auto simp: preempt_words_def)
  then have "map (mem (switch_to d q ?s k2)) (addrs ?b 33) = map (mem k2) (addrs ?b 33)" by simp
  also have "\<dots> = map (mem k1) (addrs ?b 33)" using kept by (simp add: preempt_words_def)
  also have "\<dots> = map (mem (irq_enter c syn k)) (addrs ?b 33)" using switch_keeps_irq_frame [OF sp0] k1(1,3) by simp
  finally show ?thesis using irq_leave_context [OF ps sp] irq_enter_mem by metis
qed

text \<open>Both ways a timer interrupt ends.\<close>

lemma handled_timer:
  assumes ps: "pstate_ok (regs k c)" and g: "goes_on c (irq_enter c syn k) t k1"
  shows "t = current c k \<Longrightarrow> same_context (regs k c) (regs (irq_leave c j k1) c)"
    and "t \<noteq> current c k \<Longrightarrow> tcb_sp (tcbs k2 (current c k)) = tcb_sp (tcbs k1 (current c k)) \<Longrightarrow>
       \<forall>x \<in> preempt_words (sp_reg (regs k c)). mem k2 x = mem k1 x \<Longrightarrow>
       set (frame_addrs (sp_reg (regs k2 d) - 112)) \<inter> preempt_words (sp_reg (regs k c)) = {} \<Longrightarrow>
       same_context (regs k c) (regs (irq_leave d j (switch_to d q (tcb_sp (tcbs k2 (current c k))) k2)) d)"
proof -
  let ?k = "irq_enter c syn k"
  show "same_context (regs k c) (regs (irq_leave c j k1) c)" if "t = current c k"
  proof -
    have "regs k1 = regs ?k" "mem k1 = mem ?k" using g that by (simp_all add: goes_on_def frame_simps)
    then show ?thesis using irq_enter_mem [of c syn k] by (intro irq_leave_context [OF ps, where syn = syn]) (simp_all add: irq_enter_regs)
  qed
  show "same_context (regs k c) (regs (irq_leave d j (switch_to d q (tcb_sp (tcbs k2 (current c k))) k2)) d)"
    if "t \<noteq> current c k" "tcb_sp (tcbs k2 (current c k)) = tcb_sp (tcbs k1 (current c k))"
      "\<forall>x \<in> preempt_words (sp_reg (regs k c)). mem k2 x = mem k1 x"
      "set (frame_addrs (sp_reg (regs k2 d) - 112)) \<inter> preempt_words (sp_reg (regs k c)) = {}"
  proof -
    have ne: "(t = current c ?k) = False" using that(1) by (simp add: frame_simps)
    obtain k0 where "k1 = switch_to c (current c ?k) (tcb_sp (tcbs ?k t)) k0" and k0: "regs k0 = regs ?k" "mem k0 = mem ?k"
      using g unfolding goes_on_def ne if_False by blast
    then have k1: "k1 = switch_to c (current c k) (tcb_sp (tcbs ?k t)) k0" by (simp only: irq_enter_current)
    have "tcb_sp (tcbs k1 (current c k)) = sp_reg (regs k c) - 384" using k0(1) unfolding k1 by (simp add: switch_to_tcbs irq_enter_regs)
    then show ?thesis using preempted_resumes [OF ps k1 k0 that(3,4)] that(2) by simp
  qed
qed

section \<open>Synchronous exceptions\<close>

lemma upt_34: "[0..<34] = [0..<31] @ [31, 32, 33 :: nat]"
  by code_simp

lemma sync_save_effect:
  assumes "sp_reg (regs k c) = b + 272"
  shows "mem (exec c sync_el1h_save k) =
       store_words b (map (xreg (regs k c)) [0..<31] @ [esr (regs k c), elr (regs k c), sp_reg (regs k c)]) (mem k)"
    and "xreg (regs (exec c sync_el1h_save k) c) 0 = b"
    and "tpidr (regs (exec c sync_el1h_save k) d) = tpidr (regs k d)"
  using assms by (simp_all add: sync_el1h_save_def exec_defs upt_31 add.assoc)

lemma sync_save_frame [frame_simps]:
  "cpu_locals (exec c sync_el1h_save k) = cpu_locals k" "locks (exec c sync_el1h_save k) = locks k"
  "dev (exec c sync_el1h_save k) = dev k" "io_log (exec c sync_el1h_save k) = io_log k"
  "kernel.more (exec c sync_el1h_save k) = kernel.more k"
  by (simp_all add: sync_el1h_save_def exec_defs)

text \<open>The block the handler gets.\<close>

definition exception_block :: "u64 \<Rightarrow> cpu_regs \<Rightarrow> u64 list" where
  "exception_block syn r = map (xreg r) [0..<31] @ [syn, pc_reg r, sp_reg r]"

lemma sync_block:
  fixes k :: "'z main_state_scheme" and c :: nat and syn :: u64
  defines "k1 \<equiv> exec c sync_el1h_save (take_exception c syn k)"
  shows "map (\<lambda>i. mem k1 (get_x c 0 k1 + 8 * of_nat i)) [0..<34] = exception_block syn (regs k c)"
proof -
  let ?k = "take_exception c syn k" and ?b = "sp_reg (regs k c) - 272"
  let ?ws = "exception_block syn (regs k c)"
  have sp: "sp_reg (regs ?k c) = ?b + 272" by (simp add: take_exception_def)
  have "mem k1 = store_words ?b ?ws (mem ?k)"
    using sync_save_effect(1) [OF sp] by (simp add: k1_def exception_block_def take_exception_def)
  moreover have "get_x c 0 k1 = ?b" using sync_save_effect(2) [OF sp] by (simp add: k1_def get_x_def)
  moreover have "length ?ws = 34" by (simp add: exception_block_def)
  ultimately show ?thesis using store_words_map [of ?ws ?b "mem ?k"] by (simp add: addrs_def comp_def)
qed

lemma sync_exception_state:
  fixes k :: "'z main_state_scheme" and c :: nat and syn :: u64
  defines "k1 \<equiv> exec c sync_el1h_save (take_exception c syn k)"
  assumes "uart_ready k"
  shows "uart_ready k1" "current c k1 = current c k" "pending k1 = pending k" "io_log k1 = io_log k"
proof -
  let ?k = "take_exception c syn k"
  have sp: "sp_reg (regs ?k c) = (sp_reg (regs k c) - 272) + 272" by (simp add: take_exception_def)
  have more: "kernel.more k1 = kernel.more k" by (simp add: k1_def frame_simps take_exception_def)
  show "io_log k1 = io_log k" by (simp add: k1_def frame_simps take_exception_def)
  show "uart_ready k1" using assms(2) by (simp add: uart_ready_def uart_live_def k1_def frame_simps take_exception_def)
  show "current c k1 = current c k"
    using sync_save_effect(3) [OF sp, of c] by (simp add: current_def this_cpu_def k1_def frame_simps take_exception_def)
  show "pending k1 = pending k" using more by (cases k1; cases k) auto
qed

section \<open>Properties\<close>

text \<open>C3: interrupts are transparent. A CPU running any code with a well-formed processor state takes an interrupt through \<open>irq_el1h\<close>; for the timer
  interrupt the handler always comes back or switches. If it is still with the same task when it comes back, as it is after every other interrupt, the return path
  gives every general register, the stack pointer, the
  program counter, the interrupt mask and the flags back, whatever the C code left in the registers. If it switched to another task, then
  the interrupted one can be resumed much later, on any CPU, from any state in which its saved stack pointer and the words it left on its
  stack are intact and do not overlap the frame that CPU pushes: that CPU then continues with exactly the interrupted context.\<close>

theorem preemption_transparent:
  fixes k :: "'z main_state_scheme"
  assumes "sched_ok k" and "c < MAX_CPUS" and "pstate_ok (regs k c)"
  shows "(fst (gic_ack k) = TIMER_IRQ_ID \<longrightarrow> (\<exists>k1. irq_handler False c (irq_enter c syn k) = Some k1)) \<and>
     (\<forall>k1. irq_handler False c (irq_enter c syn k) = Some k1 \<longrightarrow>
       (fst (gic_ack k) \<noteq> TIMER_IRQ_ID \<longrightarrow> current c k1 = current c k) \<and>
       (current c k1 = current c k \<longrightarrow> (\<forall>j. same_context (regs k c) (regs (irq_leave c j k1) c))) \<and>
       (current c k1 \<noteq> current c k \<longrightarrow>
         (\<forall>d q j. \<forall>k2 :: 'z main_state_scheme. tcb_sp (tcbs k2 (current c k)) = tcb_sp (tcbs k1 (current c k)) \<and>
            (\<forall>x \<in> preempt_words (sp_reg (regs k c)). mem k2 x = mem k1 x) \<and>
            set (frame_addrs (sp_reg (regs k2 d) - 112)) \<inter> preempt_words (sp_reg (regs k c)) = {} \<longrightarrow>
            same_context (regs k c) (regs (irq_leave d j (switch_to d q (tcb_sp (tcbs k2 (current c k))) k2)) d))))"
proof -
  let ?k = "irq_enter c syn k"
  have ok: "sched_ok ?k" by (rule sched_ok_cong [OF assms(1)]) (simp_all add: frame_simps irq_enter_regs)
  have ack: "fst (gic_ack ?k) = fst (gic_ack k)" by (simp add: gic_ack_def read32_def frame_simps)
  show ?thesis
  proof (cases "fst (gic_ack k) = TIMER_IRQ_ID")
    case True
    from irq_timer_result [OF ok assms(2) True [folded ack]] obtain t k1 where
      h: "irq_handler False c ?k = Some k1" and g: "goes_on c ?k t k1" by blast
    have cur: "current c k1 = t" using g by (simp add: goes_on_def)
    show ?thesis using handled_timer [OF assms(3) g] True unfolding cur [symmetric] by (simp only: h option.inject) blast
  next
    case False
    have "current c k1 = current c k \<and> same_context (regs k c) (regs (irq_leave c j k1) c)" if "irq_handler False c ?k = Some k1" for k1 j
    proof -
      have same: "same_cpus ?k k1" using other_irq_same [OF that] False ack by simp
      then have "current c k1 = current c ?k" by (simp add: same_cpus_def current_def this_cpu_def)
      moreover have "same_context (regs k c) (regs (irq_leave c j k1) c)"
        using same irq_enter_mem [of c syn k] by (intro irq_leave_context [OF assms(3), where syn = syn]) (simp_all add: same_cpus_def irq_enter_regs)
      ultimately show ?thesis by (simp add: frame_simps)
    qed
    then show ?thesis using False by blast
  qed
qed


section \<open>Witnesses\<close>

lemma irq_sample_regs: "sp_reg (regs (irq_sample i) c) = 0x40001800" "daif (regs (irq_sample i) c) = DAIF_I" "nzcv (regs (irq_sample i) c) = 0"
  by (simp_all add: irq_sample_def main_sample_defs) (simp_all add: accel_sample_defs, simp_all add: sync_sample_defs,
    simp_all add: lb_kernel_def sample_defs)

theorem preemption_transparent_witness:
  "\<exists>k1. irq_handler False 1 (irq_enter 1 0 (irq_sample 30)) = Some k1 \<and>
     (let k2 = upd_regs 2 (\<lambda>r. r\<lparr>sp_reg := 0x50000000\<rparr>) k1; t = current 1 (irq_sample 30) in
      if current 1 k1 = t then same_context (regs (irq_sample 30) 1) (regs (irq_leave 1 sample_regs k1) 1)
      else same_context (regs (irq_sample 30) 1) (regs (irq_leave 2 sample_regs (switch_to 2 0x7000 (tcb_sp (tcbs k2 t)) k2)) 2))"
proof -
  have ok: "sched_ok (irq_sample 30)" using irq_sample_ok(1) by (simp add: sync_ok_def)
  have irq: "fst (gic_ack (irq_sample 30)) = TIMER_IRQ_ID"
    by (simp add: gic_ack_def read32_def irq_sample_def TIMER_IRQ_ID_def GICC_IAR_def GICC_BASE_def)
  have cpu: "1 < MAX_CPUS" by (simp add: MAX_CPUS_def)
  have ps: "pstate_ok (regs (irq_sample 30) 1)" by (simp add: pstate_ok_def irq_sample_regs DAIF_I_def DAIF_ALL_def)
  have "set (frame_addrs (0x50000000 - 112)) \<inter> preempt_words 0x40001800 = {}"
    by (simp add: preempt_words_def frame_addrs_expand addrs_def upt_33)
  note apart = this
  let ?s = "irq_sample 30"
  from preemption_transparent [OF ok cpu ps, of 0] irq obtain k1 where
    k1: "irq_handler False 1 (irq_enter 1 0 ?s) = Some k1"
    and same: "current 1 k1 = current 1 ?s \<longrightarrow> (\<forall>j. same_context (regs ?s 1) (regs (irq_leave 1 j k1) 1))"
    and other: "current 1 k1 \<noteq> current 1 ?s \<longrightarrow> (\<forall>d q j. \<forall>k2 :: main_state. tcb_sp (tcbs k2 (current 1 ?s)) = tcb_sp (tcbs k1 (current 1 ?s)) \<and>
       (\<forall>x \<in> preempt_words (sp_reg (regs ?s 1)). mem k2 x = mem k1 x) \<and>
       set (frame_addrs (sp_reg (regs k2 d) - 112)) \<inter> preempt_words (sp_reg (regs ?s 1)) = {} \<longrightarrow>
       same_context (regs ?s 1) (regs (irq_leave d j (switch_to d q (tcb_sp (tcbs k2 (current 1 ?s))) k2)) d))" by blast
  let ?k2 = "upd_regs 2 (\<lambda>r. r\<lparr>sp_reg := 0x50000000\<rparr>) k1"
  have "same_context (regs ?s 1) (regs (irq_leave 2 sample_regs (switch_to 2 0x7000 (tcb_sp (tcbs ?k2 (current 1 ?s))) ?k2)) 2)"
    if "current 1 k1 \<noteq> current 1 ?s"
    using spec [OF spec [OF spec [OF spec [OF mp [OF other that], of 2], of "0x7000"], of sample_regs], of ?k2] apart by (simp add: irq_sample_regs)
  then show ?thesis using k1 same by (intro exI [of _ k1]) (simp add: Let_def)
qed


end
