(* ===== verification/Start.thy ===== *)
theory Start
  imports Vectors Boot
begin

text \<open>
  The entry points of the image (\<open>boot/boot.S\<close>): \<open>_start\<close>, which the boot CPU runs from reset to the call of \<open>kernel_main\<close>, and
  \<open>secondary_start\<close>, which PSCI starts the other CPUs at, to the call of \<open>secondary_main\<close>. The theorems: from EL1 or EL2 the boot CPU
  gets to \<open>kernel_main\<close> at EL1, on its stack, with the bss section cleared; a secondary gets to its idle loop on a stack
  of its own, of which it cannot leave the row of \<open>cpu_stacks\<close>.
\<close>

section \<open>State and symbols\<close>

record el_regs =
  el :: nat                 \<comment> \<open>the exception level, \<open>CurrentEL >> 2\<close>\<close>
  hcr_el2 :: u64
  sctlr_el1 :: u64
  spsr_el2 :: u64
  elr_el2 :: u64

record start_state = boot_state +
  els :: "nat \<Rightarrow> el_regs"

text \<open>Symbols of \<open>boot.S\<close> and of the linker script.\<close>

record link =
  stack_top :: u64
  bss_start :: u64
  bss_end :: u64
  cpu_stacks :: u64
  from_el1 :: u64
  secondary_from_el1 :: u64

abbreviation upd_el :: "nat \<Rightarrow> (el_regs \<Rightarrow> el_regs) \<Rightarrow> 'z start_state_scheme \<Rightarrow> 'z start_state_scheme" where
  "upd_el c f k \<equiv> k\<lparr>els := (els k)(c := f (els k c))\<rparr>"

text \<open>Where a CPU is at the end: at the first instruction of the C function, or in the \<open>wfe\<close> loop.\<close>

datatype 'k start_end = Entered 'k | Hung 'k

section \<open>Leaving EL2\<close>

definition eret_el2 :: "nat \<Rightarrow> 'z start_state_scheme \<Rightarrow> 'z start_state_scheme" where
  "eret_el2 c k =
    (let e = els k c;
         k = upd_regs c (\<lambda>r. r\<lparr>pc_reg := elr_el2 e, daif := spsr_el2 e AND DAIF_ALL, nzcv := spsr_el2 e AND NZCV_ALL\<rparr>) k
     in upd_el c (\<lambda>e. e\<lparr>el := unat (drop_bit 2 (spsr_el2 e AND 0xF))\<rparr>) k)"

text \<open>\<open>from_el2\<close> and \<open>secondary_from_el2\<close>, which differ in the label they return to.\<close>

definition from_el2 :: "u64 \<Rightarrow> nat \<Rightarrow> 'z start_state_scheme \<Rightarrow> 'z start_state_scheme" where
  "from_el2 label c k =
    (let k = set_x c 0 (push_bit 31 1) k;
         k = upd_el c (\<lambda>e. e\<lparr>hcr_el2 := get_x c 0 k\<rparr>) k;
         k = set_x c 0 0x00C50838 k;
         k = upd_el c (\<lambda>e. e\<lparr>sctlr_el1 := get_x c 0 k\<rparr>) k;
         k = set_x c 0 0x3c5 k;
         k = upd_el c (\<lambda>e. e\<lparr>spsr_el2 := get_x c 0 k\<rparr>) k;
         k = set_x c 0 label k;
         k = upd_el c (\<lambda>e. e\<lparr>elr_el2 := get_x c 0 k\<rparr>) k
     in eret_el2 c k)"

section \<open>The boot CPU\<close>

text \<open>The loop at \<open>clear_bss\<close>: \<open>b.ge\<close> compares as signed numbers.\<close>

partial_function (option) clear_bss :: "u64 \<Rightarrow> u64 \<Rightarrow> (u64 \<Rightarrow> u64) \<Rightarrow> (u64 \<Rightarrow> u64) option" where
  "clear_bss x0 x1 m = (if sint x0 \<ge> sint x1 then Some m else clear_bss (x0 + 8) x1 (m(x0 := 0)))"

definition start_el1 :: "link \<Rightarrow> nat \<Rightarrow> 'z start_state_scheme \<Rightarrow> 'z start_state_scheme start_end option" where
  "start_el1 lk c k = do {
     let k = set_x c 0 (stack_top lk) k;
     let k = set_sp c (get_x c 0 k) k;
     let k = set_x c 0 (bss_start lk) k;
     let k = set_x c 1 (bss_end lk) k;
     m \<leftarrow> clear_bss (get_x c 0 k) (get_x c 1 k) (mem k);
     let k = k\<lparr>mem := m\<rparr>;
     let k = set_x c 0 (get_x c 9 k) k;
     Some (Entered k) }"

definition start :: "link \<Rightarrow> nat \<Rightarrow> 'z start_state_scheme \<Rightarrow> 'z start_state_scheme start_end option" where
  "start lk c k =
    (let k = set_x c 0 (push_bit 2 (of_nat (el (els k c)))) k;
         k = set_x c 0 (drop_bit 2 (get_x c 0 k)) k in
     if get_x c 0 k = 2 then start_el1 lk c (from_el2 (from_el1 lk) c (set_x c 9 2 k))
     else if get_x c 0 k = 1 then start_el1 lk c (set_x c 9 1 k)
     else Some (Hung k))"

section \<open>The secondary CPUs\<close>

definition secondary_el1 :: "link \<Rightarrow> image \<Rightarrow> nat \<Rightarrow> 'z start_state_scheme \<Rightarrow> 'z start_state_scheme" where
  "secondary_el1 lk im c k =
    (let k = set_x c 0 (mpidr_el1 im c) k;
         k = set_x c 0 (get_x c 0 k AND 0xff) k;
         k = set_x c 1 (cpu_stacks lk) k;
         k = set_x c 2 (get_x c 0 k + 1) k;
         k = set_x c 1 (get_x c 1 k + push_bit 12 (get_x c 2 k)) k
     in set_sp c (get_x c 1 k) k)"

definition secondary_begin :: "link \<Rightarrow> image \<Rightarrow> nat \<Rightarrow> 'z start_state_scheme \<Rightarrow> 'z start_state_scheme" where
  "secondary_begin lk im c k =
    (let k = set_x c 0 (push_bit 2 (of_nat (el (els k c)))) k;
         k = set_x c 0 (drop_bit 2 (get_x c 0 k)) k in
     if get_x c 0 k = 2 then secondary_el1 lk im c (from_el2 (secondary_from_el1 lk) c k)
     else secondary_el1 lk im c k)"

text \<open>\<open>bl secondary_main\<close> with x0 as its argument.\<close>

definition secondary_run :: "link \<Rightarrow> image \<Rightarrow> nat \<Rightarrow> 'z start_state_scheme \<Rightarrow> 'z start_state_scheme boot_end option" where
  "secondary_run lk im c k = (let k = secondary_begin lk im c k in secondary_main im c (unat (get_x c 0 k)) k)"

section \<open>Clearing the bss section\<close>

text \<open>Addresses below \<open>2 ^ 63\<close>, with room for the last step of the loop, are what the signed comparison needs.\<close>

definition link_ok :: "link \<Rightarrow> bool" where
  "link_ok lk \<longleftrightarrow> bss_start lk \<le> bss_end lk \<and> unat (bss_end lk) + 8 \<le> 2 ^ 63"

definition bss_words :: "link \<Rightarrow> nat" where
  "bss_words lk = (unat (bss_end lk) - unat (bss_start lk) + 7) div 8"

lemma sint_below: "unat (a :: u64) < 2 ^ 63 \<Longrightarrow> sint a = uint a"
proof -
  assume "unat a < 2 ^ 63"
  then have "int (unat a) < int (2 ^ 63)" by (simp only: of_nat_less_iff)
  then have "uint a < 2 ^ 63" by simp
  moreover have "sint a = signed_take_bit 63 (uint a)" by (simp add: sint_uint)
  moreover have "- (2 ^ 63) \<le> uint a" by (rule order_trans [OF _ unsigned_greater_eq]) simp
  ultimately show ?thesis by (simp only: signed_take_bit_int_eq_self)
qed

lemma sint_le_below: "unat (a :: u64) < 2 ^ 63 \<Longrightarrow> unat (e :: u64) < 2 ^ 63 \<Longrightarrow> sint e \<le> sint a \<longleftrightarrow> unat e \<le> unat a"
  by (simp only: sint_below word_le_def [symmetric] word_le_nat_alt)

lemma unat_add_8: "unat (a :: u64) + 8 < 2 ^ 64 \<Longrightarrow> unat (a + 8) = unat a + 8"
  by (simp add: unat_word_ariths)

lemma clear_bss_result:
  assumes "unat a + 8 * n < 2 ^ 63" "unat e < 2 ^ 63" "unat e \<le> unat a + 8 * n" "n = 0 \<or> unat a + 8 * (n - 1) < unat e"
  shows "clear_bss a e m = Some (store_words a (replicate n 0) m)"
  using assms
proof (induction n arbitrary: a m)
  case 0
  then show ?case by (subst clear_bss.simps) (simp add: sint_le_below)
next
  case (Suc n)
  have a8: "unat (a + 8) = unat a + 8" using Suc.prems(1) by (intro unat_add_8) simp
  have "\<not> sint e \<le> sint a" using Suc.prems by (simp add: sint_le_below)
  moreover have "clear_bss (a + 8) e (m(a := 0)) = Some (store_words (a + 8) (replicate n 0) (m(a := 0)))"
    using Suc.prems by (intro Suc.IH) (auto simp: a8)
  ultimately show ?case by (subst clear_bss.simps) simp
qed

lemma clear_bss_link:
  assumes "link_ok lk"
  shows "clear_bss (bss_start lk) (bss_end lk) m = Some (store_words (bss_start lk) (replicate (bss_words lk) 0) m)"
proof (rule clear_bss_result)
  let ?a = "unat (bss_start lk)" and ?e = "unat (bss_end lk)"
  have ae: "?a \<le> ?e" "?e + 8 \<le> 2 ^ 63" using assms by (simp_all add: link_ok_def word_le_nat_alt)
  have d: "8 * bss_words lk + (?e - ?a + 7) mod 8 = ?e - ?a + 7" unfolding bss_words_def by (rule mult_div_mod_eq)
  have r: "(?e - ?a + 7) mod 8 < 8" by simp
  show "?a + 8 * bss_words lk < 2 ^ 63" "?e < 2 ^ 63" "?e \<le> ?a + 8 * bss_words lk" using ae d r by linarith+
  show "bss_words lk = 0 \<or> ?a + 8 * (bss_words lk - 1) < ?e" using ae d r by linarith
qed

lemma store_zeros:
  assumes "n < 2 ^ 60"
  shows "store_words a (replicate n 0) m x = (if x \<in> set (addrs a n) then 0 else m x)"
proof (cases "x \<in> set (addrs a n)")
  case True
  have "map (store_words a (replicate n 0) m) (addrs a n) = replicate n 0"
    using store_words_map [of "replicate n 0" a m] assms by simp
  moreover have "store_words a (replicate n 0) m x \<in> set (map (store_words a (replicate n 0) m) (addrs a n))" using True by simp
  ultimately have "store_words a (replicate n 0) m x \<in> set (replicate n 0)" by metis
  then show ?thesis using True by (simp split: if_splits)
next
  case False
  then show ?thesis using store_words_other [of x a "replicate n 0" m] by simp
qed

lemma bss_words_bound: "link_ok lk \<Longrightarrow> bss_words lk < 2 ^ 60"
proof -
  assume "link_ok lk"
  then have "unat (bss_end lk) + 8 \<le> 8 * 2 ^ 60" by (simp add: link_ok_def)
  then have "unat (bss_end lk) - unat (bss_start lk) + 7 < 8 * 2 ^ 60" by linarith
  then show ?thesis unfolding bss_words_def by (rule less_mult_imp_div_less [of _ "2 ^ 60" 8, simplified mult.commute])
qed

section \<open>Leaving EL2\<close>

lemma from_el2_effect:
  "els (from_el2 l c k) c = (els k c)\<lparr>el := 1, hcr_el2 := 0x80000000, sctlr_el1 := 0x00C50838, spsr_el2 := 0x3c5, elr_el2 := l\<rparr>"
  "regs (from_el2 l c k) = (regs k)(c := (regs k c)\<lparr>xreg := (xreg (regs k c))(0 := l), pc_reg := l, daif := DAIF_ALL, nzcv := 0\<rparr>)"
  "mem (from_el2 l c k) = mem k"
  by (simp_all add: from_el2_def eret_el2_def insn_defs DAIF_ALL_def NZCV_ALL_def)

lemma start_entry:
  "get_x c 0 (set_x c 0 (drop_bit 2 (get_x c 0 (set_x c 0 (push_bit 2 (of_nat n)) k))) (set_x c 0 (push_bit 2 (of_nat n)) k)) = of_nat n"
  if "n \<le> 3"
proof -
  have "drop_bit 2 (push_bit 2 (of_nat n :: u64)) = of_nat n"
    using that by (auto simp: le_Suc_eq numeral_3_eq_3)
  then show ?thesis by (simp add: insn_defs)
qed

lemmas start_defs = from_el2_def eret_el2_def secondary_el1_def insn_defs

lemma from_el2_frame [frame_simps]:
  "tcbs (from_el2 l c k) = tcbs k" "runqueues (from_el2 l c k) = runqueues k" "locks (from_el2 l c k) = locks k"
  "dev (from_el2 l c k) = dev k" "hv (from_el2 l c k) = hv k" "cpu_alive (from_el2 l c k) = cpu_alive k" "cpu_seen_id (from_el2 l c k) = cpu_seen_id k" "cpu_locals (from_el2 l c k) = cpu_locals k"
  by (simp_all add: from_el2_def eret_el2_def insn_defs)

section \<open>The stacks of the CPUs\<close>

definition stack_row :: "link \<Rightarrow> nat \<Rightarrow> u64 set" where
  "stack_row lk i = (\<lambda>b. cpu_stacks lk + of_nat (4096 * i + b)) ` {..<4096}"

lemma stack_rows_disjoint:
  assumes "i < MAX_CPUS" "j < MAX_CPUS" "i \<noteq> j"
  shows "stack_row lk i \<inter> stack_row lk j = {}"
proof -
  have False if "b < 4096" "b' < 4096" "cpu_stacks lk + of_nat (4096 * i + b) = cpu_stacks lk + of_nat (4096 * j + b')" for b b'
  proof -
    have lt: "4096 * i + b < 2 ^ 64" "4096 * j + b' < 2 ^ 64" using that assms by (simp_all add: MAX_CPUS_def)
    have "(of_nat (4096 * i + b) :: u64) = of_nat (4096 * j + b')" using that(3) by (simp only: add_left_cancel)
    then have "4096 * i + b = 4096 * j + b'" by (rule of_nat_u64_inj [OF lt])
    then have "(4096 * i + b) div 4096 = (4096 * j + b') div 4096" by simp
    then show False using that(1,2) assms(3) by simp
  qed
  then show ?thesis unfolding stack_row_def by blast
qed

lemma secondary_begin_effect:
  assumes "el (els k c) \<in> {1, 2}"
  shows "el (els (secondary_begin lk im c k) c) = 1"
    and "get_x c 0 (secondary_begin lk im c k) = mpidr_el1 im c AND 0xff"
    and "sp_reg (regs (secondary_begin lk im c k) c) = cpu_stacks lk + push_bit 12 ((mpidr_el1 im c AND 0xff) + 1)"
    and "tcbs (secondary_begin lk im c k) = tcbs k" "runqueues (secondary_begin lk im c k) = runqueues k"
      "locks (secondary_begin lk im c k) = locks k" "cpu_alive (secondary_begin lk im c k) = cpu_alive k"
      "cpu_seen_id (secondary_begin lk im c k) = cpu_seen_id k"
proof -
  have x: "drop_bit 2 (push_bit 2 (of_nat (el (els k c)) :: u64)) = of_nat (el (els k c))" using assms by auto
  let ?S = "\<lambda>k'. el (els k' c) = 1 \<and> get_x c 0 k' = mpidr_el1 im c AND 0xff \<and>
    sp_reg (regs k' c) = cpu_stacks lk + push_bit 12 ((mpidr_el1 im c AND 0xff) + 1) \<and> tcbs k' = tcbs k \<and> runqueues k' = runqueues k \<and>
    locks k' = locks k \<and> cpu_alive k' = cpu_alive k \<and> cpu_seen_id k' = cpu_seen_id k"
  have "?S (secondary_begin lk im c k)"
    using assms x by (auto simp: secondary_begin_def secondary_el1_def insn_defs frame_simps from_el2_effect(1))
  then show "el (els (secondary_begin lk im c k) c) = 1" "get_x c 0 (secondary_begin lk im c k) = mpidr_el1 im c AND 0xff"
    "sp_reg (regs (secondary_begin lk im c k) c) = cpu_stacks lk + push_bit 12 ((mpidr_el1 im c AND 0xff) + 1)"
    "tcbs (secondary_begin lk im c k) = tcbs k" "runqueues (secondary_begin lk im c k) = runqueues k"
    "locks (secondary_begin lk im c k) = locks k" "cpu_alive (secondary_begin lk im c k) = cpu_alive k"
    "cpu_seen_id (secondary_begin lk im c k) = cpu_seen_id k" by blast+
qed

lemma row_top:
  assumes "b < 4096"
  shows "cpu_stacks lk + push_bit 12 (of_nat i + 1) - 1 - of_nat b \<in> stack_row lk i"
proof -
  have "push_bit 12 (of_nat i + 1 :: u64) = of_nat (4096 * i + 4096)" by (simp add: push_bit_eq_mult algebra_simps)
  moreover have "4096 * i + 4096 = (4096 * i + (4095 - b)) + (1 + b)" using assms by simp
  ultimately have "push_bit 12 (of_nat i + 1 :: u64) = of_nat (4096 * i + (4095 - b)) + of_nat (1 + b)" by (metis of_nat_add)
  then have "cpu_stacks lk + push_bit 12 (of_nat i + 1) - 1 - of_nat b = cpu_stacks lk + of_nat (4096 * i + (4095 - b))"
    by (simp add: algebra_simps)
  then show ?thesis unfolding stack_row_def by (simp only:) (rule imageI, simp)
qed

text \<open>What the way to \<open>kernel_main\<close> leaves alone.\<close>

lemma start_enters:
  assumes "link_ok lk" and "el (els k c) \<in> {1, 2}"
  shows "\<exists>k'. start lk c k = Some (Entered k') \<and> el (els k' c) = 1 \<and> sp_reg (regs k' c) = stack_top lk \<and> runqueues k' = runqueues k \<and>
     tcbs k' = tcbs k \<and> locks k' = locks k \<and> dev k' = dev k \<and> hv k' = hv k \<and> cpu_alive k' = cpu_alive k"
proof -
  have x: "drop_bit 2 (push_bit 2 (of_nat (el (els k c)) :: u64)) = of_nat (el (els k c))" using assms(2) by auto
  from assms(2) consider "el (els k c) = 1" | "el (els k c) = 2" by auto
  then show ?thesis
  proof cases
    case 1
    then show ?thesis using x by (simp add: start_def start_el1_def insn_defs clear_bss_link [OF assms(1)])
  next
    case 2
    then show ?thesis using x by (simp add: start_def start_el1_def insn_defs clear_bss_link [OF assms(1)] from_el2_effect frame_simps)
  qed
qed

section \<open>Properties\<close>

text \<open>C16: the boot CPU reaches \<open>kernel_main\<close>. With the bss section below \<open>2 ^ 63\<close>, \<open>_start\<close> entered at EL1 or EL2 comes to the call, the clearing loop
  included: at EL1, with the stack pointer at the top of the boot stack, the level it was entered at in x0 and, from EL2, all
  interrupts masked; the words that cover the bss section are zero and no other word has changed. Entered at any other level it
  hangs.\<close>

theorem start_reaches_kernel_main:
  assumes "link_ok lk" and "el (els k c) \<le> 3"
  shows "if el (els k c) \<in> {1, 2}
     then \<exists>k'. start lk c k = Some (Entered k') \<and> el (els k' c) = 1 \<and> get_x c 0 k' = of_nat (el (els k c)) \<and>
       sp_reg (regs k' c) = stack_top lk \<and> daif (regs k' c) = (if el (els k c) = 2 then DAIF_ALL else daif (regs k c)) \<and>
       (\<forall>x. mem k' x = (if x \<in> set (addrs (bss_start lk) (bss_words lk)) then 0 else mem k x)) \<and>
       unat (bss_end lk) \<le> unat (bss_start lk) + 8 * bss_words lk \<and> unat (bss_start lk) + 8 * bss_words lk < unat (bss_end lk) + 8
     else \<exists>k'. start lk c k = Some (Hung k')"
proof -
  have x: "drop_bit 2 (push_bit 2 (of_nat (el (els k c)) :: u64)) = of_nat (el (els k c))"
    using assms(2) by (auto simp: le_Suc_eq numeral_3_eq_3)
  have d: "8 * bss_words lk + (unat (bss_end lk) - unat (bss_start lk) + 7) mod 8 = unat (bss_end lk) - unat (bss_start lk) + 7"
    unfolding bss_words_def by (rule mult_div_mod_eq)
  moreover have "(unat (bss_end lk) - unat (bss_start lk) + 7) mod 8 < 8" "unat (bss_start lk) \<le> unat (bss_end lk)"
    using assms(1) by (simp_all add: link_ok_def word_le_nat_alt)
  ultimately have covers: "unat (bss_end lk) \<le> unat (bss_start lk) + 8 * bss_words lk"
    "unat (bss_start lk) + 8 * bss_words lk < unat (bss_end lk) + 8" by linarith+
  note z = store_zeros [OF bss_words_bound [OF assms(1)]]
  consider "el (els k c) = 1" | "el (els k c) = 2" | "el (els k c) \<in> {0, 3}" using assms(2) by (auto simp: le_Suc_eq numeral_3_eq_3)
  then show ?thesis
  proof cases
    case 1
    then show ?thesis using x covers
      by (simp add: start_def start_el1_def insn_defs clear_bss_link [OF assms(1)] z)
  next
    case 2
    then show ?thesis using x covers
      by (simp add: start_def start_el1_def insn_defs clear_bss_link [OF assms(1)] z from_el2_effect)
  next
    case 3
    then show ?thesis using x by (auto simp: start_def insn_defs)
  qed
qed

text \<open>C14: a secondary CPU from its entry point to its idle loop. Started at \<open>secondary_start\<close> at EL1 or EL2 on a CPU whose affinity
  number is \<open>i\<close>, with its run queue empty, it runs \<open>secondary_main\<close> with that number at EL1, on a stack whose 4096 bytes are row \<open>i\<close> of
  \<open>cpu_stacks\<close> and no byte of another CPU's; and it ends with the CPU identified and announced, its run queue holding exactly its
  idle, test and ping or pong tasks, the idle task current, the ping and pong tasks pinned, the queues of all other CPUs untouched, the run-queue
  invariant kept, every lock as it was and interrupts enabled.\<close>

theorem secondary_start_boots:
  assumes "can_boot im i k" and "mpidr_el1 im i AND 0xff = of_nat i" and "el (els k i) \<in> {1, 2}"
  shows "\<exists>k1 k'. secondary_begin lk im i k = k1 \<and> el (els k1 i) = 1 \<and> get_x i 0 k1 = of_nat i \<and>
     (\<forall>b < 4096. sp_reg (regs k1 i) - 1 - of_nat b \<in> stack_row lk i) \<and>
     (\<forall>j < MAX_CPUS. j \<noteq> i \<longrightarrow> stack_row lk i \<inter> stack_row lk j = {}) \<and>
     secondary_run lk im i k = Some (Running k') \<and> sched_inv k' \<and>
     rq_tasks (runqueues k' i) = secondary_set im i \<and> (\<forall>j. j \<noteq> i \<longrightarrow> runqueues k' j = runqueues k j) \<and>
     tpidr (regs k' i) = i \<and> cpu_id (cpu_locals k' i) = i \<and> current i k' = idle_tcb im i \<and>
     (\<forall>t \<in> set (drop 3 (secondary_set im i)). pinned (tcbs k' t) = 1) \<and>
     cpu_alive k' = (cpu_alive k)(i := True) \<and> cpu_seen_id k' = (cpu_seen_id k)(i := i) \<and>
     locks k' = locks k \<and> \<not> irq_masked i k'"
proof -
  let ?k1 = "secondary_begin lk im i k"
  note B = secondary_begin_effect [OF assms(3), of lk im]
  have i: "i < MAX_CPUS" using assms(1) by (simp add: can_boot_def)
  have "sched_inv ?k1" by (rule sched_inv_cong [of k]) (use assms(1) B in \<open>simp_all add: can_boot_def\<close>)
  then have "can_boot im i ?k1" using assms(1) B by (simp add: can_boot_def)
  from secondary_main_result [OF this] obtain k' where k': "secondary_main im i i ?k1 = Some (Running k')" "sched_inv k'"
    "rq_tasks (runqueues k' i) = secondary_set im i" "\<forall>j. j \<noteq> i \<longrightarrow> runqueues k' j = runqueues ?k1 j"
    "tpidr (regs k' i) = i" "cpu_id (cpu_locals k' i) = i" "current i k' = idle_tcb im i"
    "\<forall>t \<in> set (drop 3 (secondary_set im i)). pinned (tcbs k' t) = 1"
    "cpu_alive k' = (cpu_alive ?k1)(i := True)" "cpu_seen_id k' = (cpu_seen_id ?k1)(i := i)"
    "locks k' = locks ?k1" "\<not> irq_masked i k'" by blast
  have "unat (of_nat i :: u64) = i" using i by (simp add: unat_of_nat MAX_CPUS_def)
  then have "secondary_run lk im i k = Some (Running k')" using k'(1) B(2) assms(2) by (simp add: secondary_run_def Let_def)
  moreover have "\<forall>b < 4096. sp_reg (regs ?k1 i) - 1 - of_nat b \<in> stack_row lk i" using B(3) assms(2) row_top by simp
  ultimately show ?thesis using k' B assms(2) stack_rows_disjoint [OF i]
    by (intro exI [of _ ?k1] exI [of _ k']) simp
qed

section \<open>Witnesses\<close>

definition reset_sample :: start_state where
  "reset_sample = boot_state.extend boot_sample (start_state.fields (\<lambda>_. \<lparr>el = 2, hcr_el2 = 0, sctlr_el1 = 0, spsr_el2 = 0, elr_el2 = 0\<rparr>))"

definition sample_link :: link where
  "sample_link = \<lparr>stack_top = 0x40060000, bss_start = 0x40010000, bss_end = 0x4001001C, cpu_stacks = 0x40012000,
     from_el1 = 0x40000040, secondary_from_el1 = 0x400000A0\<rparr>"

lemma reset_sample_fields:
  "runqueues reset_sample = runqueues boot_sample" "tcbs reset_sample = tcbs boot_sample" "locks reset_sample = locks boot_sample"
  "el (els reset_sample c) = 2"
  by (simp_all add: reset_sample_def boot_state.extend_def start_state.fields_def)

theorem start_reaches_kernel_main_witness:
  "\<exists>k'. start sample_link 0 reset_sample = Some (Entered k') \<and> sp_reg (regs k' 0) = 0x40060000 \<and> mem k' 0x40010018 = 0 \<and>
     mem k' 0x40010020 = mem reset_sample 0x40010020"
proof -
  have "link_ok sample_link" by (simp add: link_ok_def sample_link_def)
  moreover have "bss_words sample_link = 4" by (simp add: bss_words_def sample_link_def)
  ultimately show ?thesis using start_reaches_kernel_main [of sample_link reset_sample 0]
    by (auto simp: reset_sample_fields sample_link_def addrs_def upt_rec)
qed

theorem secondary_start_boots_witness:
  "\<exists>k'. secondary_run sample_link (sample_image\<lparr>mpidr_el1 := \<lambda>i. 0x80000000 + of_nat i\<rparr>) 2 reset_sample = Some (Running k') \<and> sched_inv k' \<and>
     current 2 k' = idle_tcb sample_image 2"
proof -
  let ?im = "sample_image\<lparr>mpidr_el1 := \<lambda>i. 0x80000000 + of_nat i\<rparr>"
  have q: "rq_tasks (runqueues reset_sample j) = (if j = 1 then rq_tasks demo_rq else [])" for j
    by (simp add: reset_sample_fields boot_sample_fields main_sample_queues)
  have b: "sched_inv boot_sample" "locks boot_sample (Rq_lock 2) = 0"
    using boot_sample_ok(1) by (simp_all add: sched_ok_def all_free_def MAX_CPUS_def)
  have "sched_inv reset_sample" by (rule sched_inv_cong [OF b(1)]) (simp_all add: reset_sample_fields)
  moreover have "set (secondary_set ?im 2) \<inter> {0x1000, 0x3000, 0x5000} = {}" "distinct (secondary_set ?im 2)"
    "NULL \<notin> set (secondary_set ?im 2)" by (simp_all add: secondary_set_def sample_image_def)
  ultimately have "can_boot ?im 2 reset_sample" using demo_tasks q b(2) by (auto simp: can_boot_def MAX_CPUS_def reset_sample_fields)
  moreover have "mpidr_el1 ?im 2 AND 0xff = of_nat 2" by simp
  ultimately show ?thesis using secondary_start_boots [of ?im 2 reset_sample sample_link] by (auto simp: reset_sample_fields)
qed

end
