(* ===== verification/Pingpong.thy ===== *)
theory Pingpong
  imports Smp
begin

text \<open>
  The ping and pong tasks of \<open>kernel/smp.c\<close>: two loops on two CPUs that hand a turn to each other through the semaphores
  \<open>pp_to_pong\<close> and \<open>pp_to_ping\<close>, over the model of \<open>sem_post\<close> and of the two parts of \<open>sem_wait\<close> (what it does under the lock, and the switch away), with
  anything else the system does in between. The theorem: the counters never part by more than the round in progress, and the two tasks never wait for each other.
\<close>

section \<open>The tasks\<close>

text \<open>Where ping is: at the loop head, before its wait, in it (registered as the waiter, about to switch away; switched away or in the
  \<open>wfe\<close> loop), behind it, or in the loop after the last round.\<close>

datatype ping_at = Ping_head | Ping_wait | Ping_registered u64 | Ping_blocked "boot_state outcome" | Ping_done | Ping_wfe

datatype pong_at = Pong_wait | Pong_registered u64 | Pong_blocked "boot_state outcome" | Pong_count | Pong_post

record pp =
  pk :: boot_state
  ping_at :: ping_at
  pong_at :: pong_at
  pp_i :: u64              \<comment> \<open>\<open>i\<close> of \<open>pp_ping_task\<close>\<close>

text \<open>\<open>pp_ping_task\<close>, on CPU 1.\<close>

inductive ping_step :: "image \<Rightarrow> pp \<Rightarrow> pp \<Rightarrow> bool" for im m where
  post: "ping_at m = Ping_head \<Longrightarrow> pp_i m < PP_ROUNDS \<Longrightarrow> sem_post 1 (pp_to_pong im) (pk m) = Some k' \<Longrightarrow>
     ping_step im m (m\<lparr>pk := k', ping_at := Ping_wait\<rparr>)"
| last: "ping_at m = Ping_head \<Longrightarrow> \<not> pp_i m < PP_ROUNDS \<Longrightarrow> ping_step im m (m\<lparr>ping_at := Ping_wfe\<rparr>)"
| wait: "ping_at m = Ping_wait \<Longrightarrow> sem_wait_enter 1 (pp_to_ping im) (pk m) = Some (flags, got, k') \<Longrightarrow>
     ping_step im m (m\<lparr>pk := k', ping_at := (if got then Ping_done else Ping_registered flags)\<rparr>)"
| switches: "ping_at m = Ping_registered flags \<Longrightarrow> block_current_and_switch 1 flags (pk m) = Some r \<Longrightarrow>
     ping_step im m (m\<lparr>pk := state_of r, ping_at := (case r of Returned _ \<Rightarrow> Ping_done | _ \<Rightarrow> Ping_blocked r)\<rparr>)"
| resumes: "ping_at m = Ping_blocked r \<Longrightarrow> ready (pk m) (pp_tcb im 0) \<Longrightarrow>
     ping_step im m (m\<lparr>pk := resume 1 r (pk m), ping_at := Ping_done\<rparr>)"
| counts: "ping_at m = Ping_done \<Longrightarrow>
     ping_step im m (m\<lparr>pk := (pk m)\<lparr>pp_rounds_done := pp_i m + 1\<rparr>, pp_i := pp_i m + 1, ping_at := Ping_head\<rparr>)"

text \<open>\<open>pp_pong_task\<close>, on CPU 2.\<close>

inductive pong_step :: "image \<Rightarrow> pp \<Rightarrow> pp \<Rightarrow> bool" for im m where
  wait: "pong_at m = Pong_wait \<Longrightarrow> sem_wait_enter 2 (pp_to_pong im) (pk m) = Some (flags, got, k') \<Longrightarrow>
     pong_step im m (m\<lparr>pk := k', pong_at := (if got then Pong_count else Pong_registered flags)\<rparr>)"
| switches: "pong_at m = Pong_registered flags \<Longrightarrow> block_current_and_switch 2 flags (pk m) = Some r \<Longrightarrow>
     pong_step im m (m\<lparr>pk := state_of r, pong_at := (case r of Returned _ \<Rightarrow> Pong_count | _ \<Rightarrow> Pong_blocked r)\<rparr>)"
| resumes: "pong_at m = Pong_blocked r \<Longrightarrow> ready (pk m) (pp_tcb im 1) \<Longrightarrow>
     pong_step im m (m\<lparr>pk := resume 2 r (pk m), pong_at := Pong_count\<rparr>)"
| counts: "pong_at m = Pong_count \<Longrightarrow>
     pong_step im m (m\<lparr>pk := (pk m)\<lparr>pp_pongs := pp_pongs (pk m) + 1\<rparr>, pong_at := Pong_post\<rparr>)"
| post: "pong_at m = Pong_post \<Longrightarrow> sem_post 2 (pp_to_ping im) (pk m) = Some k' \<Longrightarrow>
     pong_step im m (m\<lparr>pk := k', pong_at := Pong_wait\<rparr>)"

text \<open>What everything else, the scheduler included, leaves alone.\<close>

definition pp_kept :: "image \<Rightarrow> boot_state \<Rightarrow> boot_state \<Rightarrow> bool" where
  "pp_kept im k k' \<longleftrightarrow> sync_ok k' \<and> sems k' (pp_to_pong im) = sems k (pp_to_pong im) \<and> sems k' (pp_to_ping im) = sems k (pp_to_ping im) \<and>
     (\<forall>t \<in> {pp_tcb im 0, pp_tcb im 1}. tcb_state (tcbs k' t) = tcb_state (tcbs k t) \<and> tcb_cpu (tcbs k' t) = tcb_cpu (tcbs k t)) \<and>
     pp_rounds_done k' = pp_rounds_done k \<and> pp_pongs k' = pp_pongs k"

text \<open>A task makes a step only while it is the current task of its CPU.\<close>

inductive pp_reachable :: "image \<Rightarrow> pp \<Rightarrow> pp \<Rightarrow> bool" for im m0 where
  start: "pp_reachable im m0 m0"
| ping: "pp_reachable im m0 m \<Longrightarrow> current 1 (pk m) = pp_tcb im 0 \<Longrightarrow> ping_step im m m' \<Longrightarrow> pp_reachable im m0 m'"
| pong: "pp_reachable im m0 m \<Longrightarrow> current 2 (pk m) = pp_tcb im 1 \<Longrightarrow> pong_step im m m' \<Longrightarrow> pp_reachable im m0 m'"
| other: "pp_reachable im m0 m \<Longrightarrow> pp_kept im (pk m) k' \<Longrightarrow> pp_reachable im m0 (m\<lparr>pk := k'\<rparr>)"

section \<open>One side of a hand-over\<close>

abbreviation sem_is :: "int \<Rightarrow> u64 \<Rightarrow> sem \<Rightarrow> bool" where
  "sem_is n w x \<equiv> sem_count x = n \<and> sem_waiter x = w"

text \<open>The task \<open>t\<close> whose semaphore is \<open>s\<close>: no token for it yet; a token for it, in the count or handed over; running.\<close>

definition expects :: "u64 \<Rightarrow> u64 \<Rightarrow> bool \<Rightarrow> bool \<Rightarrow> boot_state \<Rightarrow> bool" where
  "expects s t before within k \<longleftrightarrow>
     (before \<and> sem_is 0 NULL (sems k s) \<and> ready k t) \<or> (within \<and> sem_is 0 t (sems k s) \<and> \<not> ready k t)"

definition granted :: "u64 \<Rightarrow> u64 \<Rightarrow> bool \<Rightarrow> bool \<Rightarrow> boot_state \<Rightarrow> bool" where
  "granted s t before within k \<longleftrightarrow> ready k t \<and>
     ((before \<and> sem_is 1 NULL (sems k s)) \<or> (within \<and> sem_is 0 NULL (sems k s)))"

definition active :: "u64 \<Rightarrow> u64 \<Rightarrow> boot_state \<Rightarrow> bool" where
  "active s t k \<longleftrightarrow> ready k t \<and> sem_is 0 NULL (sems k s)"

lemmas side_defs = expects_def granted_def active_def

text \<open>What a call on \<open>s\<close> for \<open>t\<close> leaves alone.\<close>

definition keeps_other :: "u64 \<Rightarrow> u64 \<Rightarrow> boot_state \<Rightarrow> boot_state \<Rightarrow> bool" where
  "keeps_other s t k k' \<longleftrightarrow> sync_ok k' \<and> (\<forall>s'. s' \<noteq> s \<longrightarrow> sems k' s' = sems k s') \<and>
     (\<forall>t'. t' \<noteq> t \<longrightarrow> tcb_state (tcbs k' t') = tcb_state (tcbs k t')) \<and> (\<forall>t'. tcb_cpu (tcbs k' t') = tcb_cpu (tcbs k t')) \<and>
     pp_rounds_done k' = pp_rounds_done k \<and> pp_pongs k' = pp_pongs k"

lemma more_pp:
  fixes k :: boot_state
  assumes "sync_state.more k' = sync_state.more k"
  shows "pp_rounds_done k' = pp_rounds_done k" "pp_pongs k' = pp_pongs k"
  using assms by (cases k; cases k'; simp)+

text \<open>A post to a task that expects it grants it a token.\<close>

lemma post_grants:
  assumes ok: "sync_ok k" and e: "expects s t before within k" and t: "t \<noteq> NULL" "tcb_cpu (tcbs k t) < MAX_CPUS"
  shows "\<exists>k'. sem_post c s k = Some k' \<and> granted s t before within k' \<and> keeps_other s t k k'"
proof -
  have l: "locks k (Sem_lock s) = 0" and sk: "sched_ok k" using ok by (simp_all add: sync_ok_def)
  from e consider "before" "sem_is 0 NULL (sems k s)" "ready k t" | "within" "sem_is 0 t (sems k s)" by (auto simp: expects_def)
  then show ?thesis
  proof cases
    case 1
    let ?k = "upd_sem s (\<lambda>x. x\<lparr>sem_count := sem_count x + 1\<rparr>) k"
    have "sem_post c s k = Some ?k" using 1 l by (intro sem_post_count) (simp_all add: INT_MAX_def)
    moreover have "sched_ok ?k" by (rule sched_ok_cong [OF sk]) simp_all
    ultimately show ?thesis using 1 ok by (simp add: granted_def keeps_other_def sync_ok_def)
  next
    case 2
    let ?k = "(set_state t 0 (upd_sem s (\<lambda>x. x\<lparr>sem_waiter := NULL\<rparr>) k))\<lparr>io_log := io_log k @ [Sev]\<rparr>"
    have "locks k (Rq_lock (tcb_cpu (tcbs k t))) = 0" using sk t by (simp add: sched_ok_def all_free_def)
    then have "sem_post c s k = Some ?k" using 2 l t by (intro sem_post_wake) simp_all
    moreover have "sched_ok ?k" by (rule sched_ok_cong [OF sk]) simp_all
    ultimately show ?thesis using 2 ok by (simp add: granted_def keeps_other_def sync_ok_def)
  qed
qed

text \<open>A wait that has its token goes on; one that has not leaves the task registered, expecting it. The switch away changes
  nothing of this, and returns at once only to a task that was granted its token meanwhile.\<close>

lemma wait_side:
  assumes "sync_ok k" and "sem_wait_enter c s k = Some (flags, got, k')" and "current c k = t"
    and "expects s t True False k \<or> granted s t True False k"
  shows "keeps_other s t k k'" and "got \<Longrightarrow> granted s t True False k \<and> active s t k'"
    and "\<not> got \<Longrightarrow> expects s t True False k \<and> expects s t False True k'"
proof -
  note e = sem_wait_enter_ok [OF assms(1,2)]
  have "sync_state.more k' = sync_state.more k" using e(3) by (cases k; cases k') auto
  note m = more_pp [OF this] more_sync(1) [OF e(3)]
  show "keeps_other s t k k'" using m e(1,4,5) assms(3) by (auto simp: keeps_other_def)
  show "got \<Longrightarrow> granted s t True False k \<and> active s t k'" using e(2) m(3) e(4) [of t] assms(4) by (auto simp: side_defs)
  show "\<not> got \<Longrightarrow> expects s t True False k \<and> expects s t False True k'"
    using e(2) m(3) e(4) [of t] assms(3,4) by (auto simp: side_defs)
qed

lemma block_side:
  assumes "sync_ok k" and "c < MAX_CPUS" and "block_current_and_switch c flags k = Some r"
  shows "keeps_other s t k (state_of r)" and "sems (state_of r) = sems k"
    and "tcb_state (tcbs (state_of r) u) = tcb_state (tcbs k u)" and "r = Returned k' \<Longrightarrow> ready k (current c k)"
proof -
  obtain r' where r': "block_current_and_switch c flags k = Some r'" "sync_ok (state_of r')" "kernel.more (state_of r') = kernel.more k"
    "\<And>t. tcb_state (tcbs (state_of r') t) = tcb_state (tcbs k t)" "\<And>t. tcb_cpu (tcbs (state_of r') t) = tcb_cpu (tcbs k t)"
    "\<And>k'. r' = Returned k' \<Longrightarrow> ready k (current c k)"
    using block_ok [OF assms(1,2), of flags] by metis
  have eq: "r' = r" using r'(1) assms(3) by simp
  have "sync_state.more (state_of r) = sync_state.more k" using r'(3) by (cases k; cases "state_of r") (auto simp: eq)
  note m = more_pp [OF this] more_sync(1) [OF r'(3)]
  show "keeps_other s t k (state_of r)" "sems (state_of r) = sems k" "tcb_state (tcbs (state_of r) u) = tcb_state (tcbs k u)"
    "r = Returned k' \<Longrightarrow> ready k (current c k)"
    using m r' by (simp_all add: keeps_other_def eq)
qed

lemma resume_keeps:
  assumes "sync_ok k"
  shows "keeps_other s t k (resume c r k)" "sems (resume c r k) = sems k" "tcbs (resume c r k) = tcbs k"
proof -
  have "sched_ok k" using assms by (simp add: sync_ok_def)
  then have "sched_ok (irq_restore c f k)" for f unfolding irq_restore_def by (rule daif_ok)
  then show "keeps_other s t k (resume c r k)" "sems (resume c r k) = sems k" "tcbs (resume c r k) = tcbs k"
    using assms by (cases r; simp add: keeps_other_def sync_ok_def irq_restore_def)+
qed

lemma side_kept:
  assumes "keeps_other s t k k'" and "s' \<noteq> s" "t' \<noteq> t"
  shows "expects s' t' b w k' = expects s' t' b w k" "granted s' t' b w k' = granted s' t' b w k" "active s' t' k' = active s' t' k"
  using assms by (simp_all add: keeps_other_def side_defs)

lemma side_same:
  assumes "sems k' = sems k" and "\<And>t. tcb_state (tcbs k' t) = tcb_state (tcbs k t)"
  shows "expects s t b w k' = expects s t b w k" "granted s t b w k' = granted s t b w k" "active s t k' = active s t k"
  using assms by (simp_all add: side_defs)

section \<open>The turn\<close>

definition pp_distinct :: "image \<Rightarrow> bool" where
  "pp_distinct im \<longleftrightarrow> pp_to_pong im \<noteq> pp_to_ping im \<and> pp_tcb im 0 \<noteq> pp_tcb im 1 \<and> pp_tcb im 0 \<noteq> NULL \<and> pp_tcb im 1 \<noteq> NULL"

text \<open>Ping and pong with respect to their semaphores.\<close>

abbreviation ping_within :: "pp \<Rightarrow> bool" where
  "ping_within m \<equiv> (\<exists>f. ping_at m = Ping_registered f) \<or> (\<exists>r. ping_at m = Ping_blocked r)"

abbreviation pong_within :: "pp \<Rightarrow> bool" where
  "pong_within m \<equiv> (\<exists>f. pong_at m = Pong_registered f) \<or> (\<exists>r. pong_at m = Pong_blocked r)"

abbreviation ping_expects :: "image \<Rightarrow> pp \<Rightarrow> bool" where
  "ping_expects im m \<equiv> expects (pp_to_ping im) (pp_tcb im 0) (ping_at m = Ping_wait) (ping_within m) (pk m)"

abbreviation pong_expects :: "image \<Rightarrow> pp \<Rightarrow> bool" where
  "pong_expects im m \<equiv> expects (pp_to_pong im) (pp_tcb im 1) (pong_at m = Pong_wait) (pong_within m) (pk m)"

abbreviation ping_granted :: "image \<Rightarrow> pp \<Rightarrow> bool" where
  "ping_granted im m \<equiv> granted (pp_to_ping im) (pp_tcb im 0) (ping_at m = Ping_wait) (ping_within m) (pk m)"

abbreviation pong_granted :: "image \<Rightarrow> pp \<Rightarrow> bool" where
  "pong_granted im m \<equiv> granted (pp_to_pong im) (pp_tcb im 1) (pong_at m = Pong_wait) (pong_within m) (pk m)"

abbreviation ping_active :: "image \<Rightarrow> pp \<Rightarrow> bool" where
  "ping_active im m \<equiv> active (pp_to_ping im) (pp_tcb im 0) (pk m)"

abbreviation pong_active :: "image \<Rightarrow> pp \<Rightarrow> bool" where
  "pong_active im m \<equiv> active (pp_to_pong im) (pp_tcb im 1) (pk m)"

text \<open>Whose turn it is: between rounds; pong's, before and after it counts; ping's, before it counts.\<close>

definition between_rounds :: "image \<Rightarrow> pp \<Rightarrow> bool" where
  "between_rounds im m \<longleftrightarrow> ping_at m \<in> {Ping_head, Ping_wfe} \<and> (ping_at m = Ping_wfe \<longrightarrow> pp_i m = PP_ROUNDS) \<and>
     ping_active im m \<and> pong_expects im m \<and> pp_pongs (pk m) = pp_i m"

definition pong_turn :: "image \<Rightarrow> pp \<Rightarrow> bool" where
  "pong_turn im m \<longleftrightarrow> pp_i m < PP_ROUNDS \<and> ping_expects im m \<and> (pong_granted im m \<or> pong_at m = Pong_count \<and> pong_active im m) \<and>
     pp_pongs (pk m) = pp_i m"

definition pong_counted :: "image \<Rightarrow> pp \<Rightarrow> bool" where
  "pong_counted im m \<longleftrightarrow> pp_i m < PP_ROUNDS \<and> ping_expects im m \<and> pong_at m = Pong_post \<and> pong_active im m \<and>
     pp_pongs (pk m) = pp_i m + 1"

definition ping_turn :: "image \<Rightarrow> pp \<Rightarrow> bool" where
  "ping_turn im m \<longleftrightarrow> pp_i m < PP_ROUNDS \<and> (ping_granted im m \<or> ping_at m = Ping_done \<and> ping_active im m) \<and> pong_expects im m \<and>
     pp_pongs (pk m) = pp_i m + 1"

definition pp_inv :: "image \<Rightarrow> pp \<Rightarrow> bool" where
  "pp_inv im m \<longleftrightarrow> sync_ok (pk m) \<and> tcb_cpu (tcbs (pk m) (pp_tcb im 0)) < MAX_CPUS \<and> tcb_cpu (tcbs (pk m) (pp_tcb im 1)) < MAX_CPUS \<and>
     pp_rounds_done (pk m) = pp_i m \<and> pp_i m \<le> PP_ROUNDS \<and>
     (between_rounds im m \<or> pong_turn im m \<or> pong_counted im m \<or> ping_turn im m)"

lemmas turn_defs = between_rounds_def pong_turn_def pong_counted_def ping_turn_def

lemma keeps_pp_inv:
  assumes "keeps_other s t k k'"
  shows "sync_ok k'" "tcb_cpu (tcbs k' u) = tcb_cpu (tcbs k u)" "pp_rounds_done k' = pp_rounds_done k" "pp_pongs k' = pp_pongs k"
  using assms by (simp_all add: keeps_other_def)

lemma sem_post_det: "sem_post c s k = Some k1 \<Longrightarrow> \<exists>k'. sem_post c s k = Some k' \<and> P k' \<Longrightarrow> P k1"
  by auto

lemma pp_invD:
  assumes "pp_inv im m"
  shows "sync_ok (pk m)" and "ping_at m = Ping_wait \<Longrightarrow> ping_expects im m \<and> (pong_turn im m \<or> pong_counted im m) \<or> ping_granted im m \<and> ping_turn im m"
    and "ping_within m \<Longrightarrow> ping_expects im m \<and> (pong_turn im m \<or> pong_counted im m) \<or> ping_granted im m \<and> ping_turn im m"
    and "pong_at m = Pong_wait \<Longrightarrow> pong_expects im m \<and> (between_rounds im m \<or> ping_turn im m) \<or> pong_granted im m \<and> pong_turn im m"
    and "pong_within m \<Longrightarrow> pong_expects im m \<and> (between_rounds im m \<or> ping_turn im m) \<or> pong_granted im m \<and> pong_turn im m"
  using assms by (auto simp: pp_inv_def turn_defs)

lemma ping_wait_inv:
  assumes d: "pp_distinct im" and inv: "pp_inv im m" and cur: "current 1 (pk m) = pp_tcb im 0" and at: "ping_at m = Ping_wait"
    and w: "sem_wait_enter 1 (pp_to_ping im) (pk m) = Some (flags, got, k')"
  shows "pp_inv im (m\<lparr>pk := k', ping_at := (if got then Ping_done else Ping_registered flags)\<rparr>)"
proof -
  have "expects (pp_to_ping im) (pp_tcb im 0) True False (pk m) \<or> granted (pp_to_ping im) (pp_tcb im 0) True False (pk m)"
    using pp_invD(2) [OF inv at] at by auto
  note k = wait_side [OF pp_invD(1) [OF inv] w cur this]
  have "got \<Longrightarrow> ping_turn im m" "\<not> got \<Longrightarrow> pong_turn im m \<or> pong_counted im m"
    using k(2,3) pp_invD(2) [OF inv at] at by (auto simp: side_defs)
  then show ?thesis using k(2,3) inv d keeps_pp_inv [OF k(1)] side_kept [OF k(1), of "pp_to_pong im" "pp_tcb im 1"]
    by (auto simp: pp_inv_def pong_turn_def pong_counted_def ping_turn_def pp_distinct_def)
qed

lemma pong_wait_inv:
  assumes d: "pp_distinct im" and inv: "pp_inv im m" and cur: "current 2 (pk m) = pp_tcb im 1" and at: "pong_at m = Pong_wait"
    and w: "sem_wait_enter 2 (pp_to_pong im) (pk m) = Some (flags, got, k')"
  shows "pp_inv im (m\<lparr>pk := k', pong_at := (if got then Pong_count else Pong_registered flags)\<rparr>)"
proof -
  have "expects (pp_to_pong im) (pp_tcb im 1) True False (pk m) \<or> granted (pp_to_pong im) (pp_tcb im 1) True False (pk m)"
    using pp_invD(4) [OF inv at] at by auto
  note k = wait_side [OF pp_invD(1) [OF inv] w cur this]
  have "got \<Longrightarrow> pong_turn im m" "\<not> got \<Longrightarrow> between_rounds im m \<or> ping_turn im m"
    using k(2,3) pp_invD(4) [OF inv at] at by (auto simp: side_defs)
  then show ?thesis using k(2,3) inv d keeps_pp_inv [OF k(1)] side_kept [OF k(1), of "pp_to_ping im" "pp_tcb im 0"]
    by (auto simp: pp_inv_def between_rounds_def pong_turn_def ping_turn_def pp_distinct_def)
qed

text \<open>The rest of a wait, behind the registration: it stays where it is, or is over with the token granted.\<close>

lemma ping_within_inv:
  assumes inv: "pp_inv im m" and w: "ping_within m" and k: "keeps_other (pp_to_ping im) (pp_tcb im 0) (pk m) k'"
    "sems k' = sems (pk m)" "\<And>t. tcb_state (tcbs k' t) = tcb_state (tcbs (pk m) t)"
    and at: "(\<exists>r. at = Ping_blocked r) \<or> at = Ping_done \<and> ready (pk m) (pp_tcb im 0)"
  shows "pp_inv im (m\<lparr>pk := k', ping_at := at\<rparr>)"
  using pp_invD(3) [OF inv w]
proof (elim disjE conjE)
  assume e: "ping_expects im m"
  moreover have "\<exists>r. at = Ping_blocked r" using e at w by (auto simp: expects_def)
  ultimately show "pong_turn im m \<Longrightarrow> ?thesis" "pong_counted im m \<Longrightarrow> ?thesis"
    using inv w keeps_pp_inv [OF k(1)] by (auto simp: pp_inv_def pong_turn_def pong_counted_def side_same [OF k(2,3)])
next
  assume g: "ping_granted im m" and t: "ping_turn im m"
  have "active (pp_to_ping im) (pp_tcb im 0) (pk m)" using g w by (auto simp: side_defs)
  then show ?thesis using g t w at inv keeps_pp_inv [OF k(1)] by (auto simp: pp_inv_def ping_turn_def side_same [OF k(2,3)])
qed

lemma pong_within_inv:
  assumes inv: "pp_inv im m" and w: "pong_within m" and k: "keeps_other (pp_to_pong im) (pp_tcb im 1) (pk m) k'"
    "sems k' = sems (pk m)" "\<And>t. tcb_state (tcbs k' t) = tcb_state (tcbs (pk m) t)"
    and at: "(\<exists>r. at = Pong_blocked r) \<or> at = Pong_count \<and> ready (pk m) (pp_tcb im 1)"
  shows "pp_inv im (m\<lparr>pk := k', pong_at := at\<rparr>)"
  using pp_invD(5) [OF inv w]
proof (elim disjE conjE)
  assume e: "pong_expects im m"
  moreover have "\<exists>r. at = Pong_blocked r" using e at w by (auto simp: expects_def)
  ultimately show "between_rounds im m \<Longrightarrow> ?thesis" "ping_turn im m \<Longrightarrow> ?thesis"
    using inv w keeps_pp_inv [OF k(1)] by (auto simp: pp_inv_def between_rounds_def ping_turn_def side_same [OF k(2,3)])
next
  assume g: "pong_granted im m" and t: "pong_turn im m"
  have "active (pp_to_pong im) (pp_tcb im 1) (pk m)" using g w by (auto simp: side_defs)
  then show ?thesis using g t w at inv keeps_pp_inv [OF k(1)] by (auto simp: pp_inv_def pong_turn_def side_same [OF k(2,3)])
qed

lemma ping_step_inv:
  assumes d: "pp_distinct im" and inv: "pp_inv im m" and cur: "current 1 (pk m) = pp_tcb im 0" and st: "ping_step im m m'"
  shows "pp_inv im m'"
  using st
proof cases
  case (post k')
  then have A: "between_rounds im m" using inv by (auto simp: pp_inv_def turn_defs side_defs)
  have g: "granted (pp_to_pong im) (pp_tcb im 1) (pong_at m = Pong_wait) (pong_within m) k' \<and>
      keeps_other (pp_to_pong im) (pp_tcb im 1) (pk m) k'"
    using post(4) by (rule sem_post_det) (use A inv d in \<open>intro post_grants; auto simp: between_rounds_def pp_inv_def pp_distinct_def\<close>)
  show ?thesis using post A g inv d keeps_pp_inv [OF conjunct2 [OF g]] side_kept [OF conjunct2 [OF g], of "pp_to_ping im" "pp_tcb im 0"]
    by (auto simp: pp_inv_def between_rounds_def pong_turn_def pp_distinct_def active_def expects_def)
next
  case last
  then show ?thesis using inv by (auto simp: pp_inv_def turn_defs side_defs)
next
  case (wait flags got k')
  then show ?thesis using ping_wait_inv [OF d inv cur] by simp
next
  case (switches flags r)
  note b = block_side [OF pp_invD(1) [OF inv] _ switches(3)]
  show ?thesis unfolding switches(1)
    by (rule ping_within_inv [OF inv]; (intro b)?) (use switches(2) b(4) cur in \<open>auto simp: MAX_CPUS_def split: outcome.split\<close>)
next
  case (resumes r)
  then show ?thesis
    using ping_within_inv [OF inv _ resume_keeps(1) [OF pp_invD(1) [OF inv]]] resume_keeps(2,3) [OF pp_invD(1) [OF inv]] by simp
next
  case counts
  then have D: "ping_turn im m" "active (pp_to_ping im) (pp_tcb im 0) (pk m)"
    using inv by (auto simp: pp_inv_def turn_defs side_defs)
  have le: "pp_i m + 1 \<le> PP_ROUNDS" using D by (intro inc_le) (simp add: ping_turn_def)
  have "sched_ok (pk m)" using inv by (simp add: pp_inv_def sync_ok_def)
  then have "sched_ok ((pk m)\<lparr>pp_rounds_done := pp_i m + 1\<rparr>)" by (rule sched_ok_cong) simp_all
  then show ?thesis using counts D inv le by (auto simp: pp_inv_def ping_turn_def between_rounds_def side_defs sync_ok_def)
qed

lemma pong_step_inv:
  assumes d: "pp_distinct im" and inv: "pp_inv im m" and cur: "current 2 (pk m) = pp_tcb im 1" and st: "pong_step im m m'"
  shows "pp_inv im m'"
  using st
proof cases
  case (wait flags got k')
  then show ?thesis using pong_wait_inv [OF d inv cur] by simp
next
  case (switches flags r)
  note b = block_side [OF pp_invD(1) [OF inv] _ switches(3)]
  show ?thesis unfolding switches(1)
    by (rule pong_within_inv [OF inv]; (intro b)?) (use switches(2) b(4) cur in \<open>auto simp: MAX_CPUS_def split: outcome.split\<close>)
next
  case (resumes r)
  then show ?thesis
    using pong_within_inv [OF inv _ resume_keeps(1) [OF pp_invD(1) [OF inv]]] resume_keeps(2,3) [OF pp_invD(1) [OF inv]] by simp
next
  case counts
  then have D: "pong_turn im m" "active (pp_to_pong im) (pp_tcb im 1) (pk m)"
    using inv by (auto simp: pp_inv_def turn_defs side_defs)
  have "sched_ok (pk m)" using inv by (simp add: pp_inv_def sync_ok_def)
  then have "sched_ok ((pk m)\<lparr>pp_pongs := pp_pongs (pk m) + 1\<rparr>)" by (rule sched_ok_cong) simp_all
  then show ?thesis using counts D inv by (auto simp: pp_inv_def pong_turn_def pong_counted_def side_defs sync_ok_def)
next
  case (post k')
  then have A: "pong_counted im m" using inv by (auto simp: pp_inv_def turn_defs side_defs)
  have g: "granted (pp_to_ping im) (pp_tcb im 0) (ping_at m = Ping_wait) (ping_within m) k' \<and>
      keeps_other (pp_to_ping im) (pp_tcb im 0) (pk m) k'"
    using post(3) by (rule sem_post_det) (use A inv d in \<open>intro post_grants; auto simp: pong_counted_def pp_inv_def pp_distinct_def\<close>)
  show ?thesis using post A g inv d keeps_pp_inv [OF conjunct2 [OF g]] side_kept [OF conjunct2 [OF g], of "pp_to_pong im" "pp_tcb im 1"]
    by (auto simp: pp_inv_def pong_counted_def ping_turn_def pp_distinct_def active_def expects_def)
qed

lemma pp_other_inv:
  assumes "pp_inv im m" and "pp_kept im (pk m) k'"
  shows "pp_inv im (m\<lparr>pk := k'\<rparr>)"
  using assms by (simp add: pp_inv_def turn_defs side_defs pp_kept_def)

lemma pp_reachable_inv:
  assumes "pp_reachable im m0 m" and "pp_distinct im" and "pp_inv im m0"
  shows "pp_inv im m"
  using assms by (induction rule: pp_reachable.induct) (auto intro: ping_step_inv pong_step_inv pp_other_inv)

section \<open>Nobody waits for nobody\<close>

definition ping_can_go :: "image \<Rightarrow> pp \<Rightarrow> bool" where
  "ping_can_go im m \<longleftrightarrow> ready (pk m) (pp_tcb im 0) \<and> (\<exists>m'. ping_step im m m')"

definition pong_can_go :: "image \<Rightarrow> pp \<Rightarrow> bool" where
  "pong_can_go im m \<longleftrightarrow> ready (pk m) (pp_tcb im 1) \<and> (\<exists>m'. pong_step im m m')"

text \<open>A task that has been granted its token, or is behind its wait, is READY and can make its next step.\<close>

lemma wait_enter_total: "sync_ok k \<Longrightarrow> \<exists>flags got k'. sem_wait_enter c s k = Some (flags, got, k')"
  using sem_wait_enter_result [of k s c] by (auto simp: sync_ok_def)

lemma block_total: "sync_ok k \<Longrightarrow> c < MAX_CPUS \<Longrightarrow> \<exists>r. block_current_and_switch c flags k = Some r"
  by (rule block_ok [of k c flags]) auto

lemma ping_goes:
  assumes "sync_ok (pk m)" and "ping_granted im m \<or> ping_at m = Ping_done \<and> ping_active im m"
  shows "ping_can_go im m"
proof -
  have r: "ready (pk m) (pp_tcb im 0)" using assms(2) by (auto simp: side_defs)
  consider "ping_at m = Ping_wait" | f where "ping_at m = Ping_registered f" | r where "ping_at m = Ping_blocked r" | "ping_at m = Ping_done"
    using assms(2) by (auto simp: granted_def)
  then have "\<exists>m'. ping_step im m m'"
    using r wait_enter_total [OF assms(1), of 1 "pp_to_ping im"] block_total [OF assms(1), of 1]
    by cases (auto simp: MAX_CPUS_def simp del: One_nat_def dest: ping_step.intros)
  with r show ?thesis by (simp add: ping_can_go_def)
qed

lemma pong_goes:
  assumes "sync_ok (pk m)" and "pong_granted im m \<or> pong_at m = Pong_count \<and> pong_active im m"
  shows "pong_can_go im m"
proof -
  have r: "ready (pk m) (pp_tcb im 1)" using assms(2) by (auto simp: side_defs)
  consider "pong_at m = Pong_wait" | f where "pong_at m = Pong_registered f" | r where "pong_at m = Pong_blocked r" | "pong_at m = Pong_count"
    using assms(2) by (auto simp: granted_def)
  then have "\<exists>m'. pong_step im m m'"
    using r wait_enter_total [OF assms(1), of 2 "pp_to_pong im"] block_total [OF assms(1), of 2]
    by cases (auto simp: MAX_CPUS_def simp del: One_nat_def dest: pong_step.intros)
  with r show ?thesis by (simp add: pong_can_go_def)
qed

lemma pp_progress:
  assumes d: "pp_distinct im" and inv: "pp_inv im m" and going: "ping_at m \<noteq> Ping_wfe"
  shows "ping_can_go im m \<or> pong_can_go im m"
proof -
  have ok: "sync_ok (pk m)" and cpu: "tcb_cpu (tcbs (pk m) (pp_tcb im 0)) < MAX_CPUS" "tcb_cpu (tcbs (pk m) (pp_tcb im 1)) < MAX_CPUS"
    using inv by (simp_all add: pp_inv_def)
  have nn: "pp_tcb im 0 \<noteq> NULL" "pp_tcb im 1 \<noteq> NULL" using d by (simp_all add: pp_distinct_def)
  from inv consider (A) "between_rounds im m" | (B) "pong_turn im m" | (C) "pong_counted im m" | (D) "ping_turn im m"
    by (auto simp: pp_inv_def)
  then show ?thesis
  proof cases
    case A
    then have at: "ping_at m = Ping_head" and e: "pong_expects im m" and r: "ready (pk m) (pp_tcb im 0)"
      using going by (auto simp: between_rounds_def active_def)
    have "\<exists>m'. ping_step im m m'"
      using post_grants [OF ok e nn(2) cpu(2), of 1] ping_step.post [OF at] ping_step.last [OF at] by blast
    with r show ?thesis by (simp add: ping_can_go_def)
  next
    case B
    then show ?thesis using pong_goes [OF ok] by (auto simp: pong_turn_def)
  next
    case C
    then have at: "pong_at m = Pong_post" and e: "ping_expects im m" and r: "ready (pk m) (pp_tcb im 1)"
      by (auto simp: pong_counted_def active_def)
    have "\<exists>m'. pong_step im m m'" using post_grants [OF ok e nn(1) cpu(1), of 2] pong_step.post [OF at] by blast
    with r show ?thesis by (simp add: pong_can_go_def)
  next
    case D
    then show ?thesis using ping_goes [OF ok] by (auto simp: ping_turn_def)
  qed
qed

section \<open>Properties\<close>

text \<open>The start of the two tasks: everything zero-initialised, both READY.\<close>

definition pp_initial :: "image \<Rightarrow> boot_state \<Rightarrow> bool" where
  "pp_initial im k \<longleftrightarrow> sync_ok k \<and> pp_rounds_done k = 0 \<and> pp_pongs k = 0 \<and>
     (\<forall>s \<in> {pp_to_pong im, pp_to_ping im}. sem_is 0 NULL (sems k s)) \<and>
     (\<forall>t \<in> {pp_tcb im 0, pp_tcb im 1}. ready k t \<and> tcb_cpu (tcbs k t) < MAX_CPUS)"

definition pp_start_at :: "boot_state \<Rightarrow> pp" where
  "pp_start_at k = \<lparr>pk = k, ping_at = Ping_head, pong_at = Pong_wait, pp_i = 0\<rparr>"

text \<open>C18: ping-pong across CPUs. Over every interleaving of the two tasks' calls and steps with anything else the system does that leaves
  their semaphores and task states alone: the rounds ping has completed never exceed \<open>PP_ROUNDS\<close>, pong's count is equal to them or one ahead,
  and both are \<open>PP_ROUNDS\<close> when ping has finished; until then one of the two tasks is READY and can make its next step, so that
  they never block each other for good.\<close>

theorem ping_pong_rounds:
  assumes "pp_reachable im (pp_start_at k0) m" and "pp_initial im k0" and "pp_distinct im"
  shows "pp_rounds_done (pk m) \<le> PP_ROUNDS \<and> pp_pongs (pk m) \<in> {pp_rounds_done (pk m), pp_rounds_done (pk m) + 1} \<and>
     pp_pongs (pk m) \<le> PP_ROUNDS \<and>
     (if ping_at m = Ping_wfe then pp_rounds_done (pk m) = PP_ROUNDS \<and> pp_pongs (pk m) = PP_ROUNDS
      else ping_can_go im m \<or> pong_can_go im m)"
proof -
  have "pp_inv im (pp_start_at k0)"
    using assms(2) by (simp add: pp_inv_def between_rounds_def side_defs pp_initial_def pp_start_at_def PP_ROUNDS_def)
  then have inv: "pp_inv im m" by (rule pp_reachable_inv [OF assms(1,3)])
  have "pp_pongs (pk m) \<le> PP_ROUNDS"
    using inv inc_le [of "pp_i m" PP_ROUNDS] by (auto simp: pp_inv_def turn_defs)
  moreover have "pp_rounds_done (pk m) = PP_ROUNDS \<and> pp_pongs (pk m) = PP_ROUNDS" if "ping_at m = Ping_wfe"
    using inv that by (auto simp: pp_inv_def turn_defs side_defs)
  ultimately show ?thesis using inv pp_progress [OF assms(3) inv] by (auto simp: pp_inv_def turn_defs)
qed

text \<open>From the sample state CPU 1 goes to ping, which posts: then it is pong's turn.\<close>

lemma boot_sample_pp: "pp_initial sample_image boot_sample"
proof -
  have f: "sems boot_sample = sems main_sample" "pp_rounds_done boot_sample = 0" "pp_pongs boot_sample = 0"
    "locks boot_sample = locks main_sample" "tcbs boot_sample = tcbs main_sample" by (simp_all add: boot_sample_defs)
  have "sync_ok boot_sample" using boot_sample_ok(1) main_sample_ok(1) by (simp add: sync_ok_def f)
  moreover have "sems main_sample s = \<lparr>sem_count = 0, sem_waiter = NULL\<rparr>" for s
    by (simp add: main_sample_defs) (simp add: accel_sample_defs)
  moreover have "tcbs main_sample t = sample_tcb\<lparr>tcb_cpu := 1\<rparr>" for t
    by (simp add: main_sample_defs) (simp add: accel_sample_defs)
  ultimately show ?thesis by (simp add: pp_initial_def f sample_tcb_def MAX_CPUS_def)
qed

theorem ping_pong_rounds_witness:
  "\<exists>m. pp_reachable sample_image (pp_start_at boot_sample) m \<and> ping_at m = Ping_wait \<and> pp_pongs (pk m) \<le> PP_ROUNDS \<and>
     (ping_can_go sample_image m \<or> pong_can_go sample_image m)"
proof -
  let ?im = sample_image and ?k = "set_current 1 (pp_tcb sample_image 0) boot_sample"
  let ?m = "(pp_start_at boot_sample)\<lparr>pk := ?k\<rparr>" and ?k' = "upd_sem (pp_to_pong sample_image) (\<lambda>x. x\<lparr>sem_count := sem_count x + 1\<rparr>) ?k"
  have ok: "sync_ok boot_sample" using boot_sample_pp by (simp add: pp_initial_def)
  have "pp_kept ?im boot_sample ?k"
    using ok set_current_ok [of boot_sample 1 "pp_tcb ?im 0"] by (simp add: pp_kept_def sync_ok_def) (simp add: set_current_def)
  then have r1: "pp_reachable ?im (pp_start_at boot_sample) ?m"
    using pp_reachable.other [OF pp_reachable.start, of ?im "pp_start_at boot_sample" ?k] by (simp add: pp_start_at_def)
  have "sem_post 1 (pp_to_pong ?im) ?k = Some ?k'"
    using ok boot_sample_pp by (intro sem_post_count) (simp_all add: set_current_def sync_ok_def pp_initial_def INT_MAX_def)
  then have "ping_step ?im ?m (?m\<lparr>pk := ?k', ping_at := Ping_wait\<rparr>)"
    by (intro ping_step.post) (simp_all add: pp_start_at_def PP_ROUNDS_def)
  moreover have "current 1 (pk ?m) = pp_tcb ?im 0" by (simp add: current_def this_cpu_def set_current_def)
  ultimately have r2: "pp_reachable ?im (pp_start_at boot_sample) (?m\<lparr>pk := ?k', ping_at := Ping_wait\<rparr>)"
    by (intro pp_reachable.ping [OF r1])
  have "pp_distinct ?im" by (simp add: pp_distinct_def sample_image_def)
  from ping_pong_rounds [OF r2 boot_sample_pp this] show ?thesis
    using r2 by (intro exI [of _ "?m\<lparr>pk := ?k', ping_at := Ping_wait\<rparr>"]) simp
qed

end
