(* ===== verification/Spinlock.thy ===== *)
theory Spinlock
  imports Prelude
begin

text \<open>
  The spinlock of \<open>kernel/spinlock.h\<close> at the level of its instructions. Every CPU runs the
  \<open>sevl / wfe / ldaxr / cbnz / stxr / cbnz\<close> sequence of \<open>spin_lock\<close> and the \<open>stlr\<close> of
  \<open>spin_unlock\<close>, interleaved in any order with the other CPUs. The state holds the lock word and,
  per CPU, the program counter, the register \<open>tmp\<close>, the exclusive monitor and the event register
  of the \<open>wfe\<close> instruction. The theorems are mutual exclusion, absence of lost wake-ups, progress,
  and the exactness of the locked counter of the SMP self test (\<open>selftest_body\<close> of \<open>smp.c\<close>).
\<close>

section \<open>The machine\<close>

datatype lock_pc =
  L_out        \<comment> \<open>outside \<open>spin_lock\<close>, lock not held\<close>
| L_sevl | L_wfe | L_ldaxr | L_cbnz_held | L_stxr | L_cbnz_retry
| L_crit       \<comment> \<open>\<open>spin_lock\<close> has returned, lock held\<close>

record lock_machine =
  lk_word :: u32                 \<comment> \<open>the lock word\<close>
  lpc :: "nat \<Rightarrow> lock_pc"
  lk_tmp :: "nat \<Rightarrow> u32"
  lk_excl :: "nat \<Rightarrow> bool"         \<comment> \<open>exclusive monitor armed for the lock word\<close>
  lk_event :: "nat \<Rightarrow> bool"        \<comment> \<open>event register read by \<open>wfe\<close>\<close>

definition lock_init :: lock_machine where
  "lock_init = \<lparr>lk_word = 0, lpc = (\<lambda>_. L_out), lk_tmp = (\<lambda>_. 0),
                lk_excl = (\<lambda>_. False), lk_event = (\<lambda>_. False)\<rparr>"

text \<open>
  A store to the lock word disarms the monitor of every other CPU and, by that, sets the event
  register of each CPU whose monitor was armed.
\<close>

definition store_lock :: "nat \<Rightarrow> u32 \<Rightarrow> 'z lock_machine_scheme \<Rightarrow> 'z lock_machine_scheme" where
  "store_lock c v m =
     m\<lparr>lk_word := v,
       lk_event := (\<lambda>d. lk_event m d \<or> (d \<noteq> c \<and> lk_excl m d)),
       lk_excl := (\<lambda>d. d = c \<and> lk_excl m d)\<rparr>"

definition goto :: "nat \<Rightarrow> lock_pc \<Rightarrow> 'z lock_machine_scheme \<Rightarrow> 'z lock_machine_scheme" where
  "goto c p m = m\<lparr>lpc := (lpc m)(c := p)\<rparr>"

text \<open>
  One instruction of CPU \<open>c\<close>. \<open>wfe\<close> may also end without an event, and \<open>stxr\<close> may fail with an
  armed monitor: the architecture allows both.
\<close>

inductive spin_lock_step :: "nat \<Rightarrow> 'z lock_machine_scheme \<Rightarrow> 'z lock_machine_scheme \<Rightarrow> bool" where
  call: "lpc m c = L_out \<Longrightarrow> spin_lock_step c m (goto c L_sevl m)"
| sevl: "lpc m c = L_sevl \<Longrightarrow> spin_lock_step c m (goto c L_wfe (m\<lparr>lk_event := (lk_event m)(c := True)\<rparr>))"
| wfe: "lpc m c = L_wfe \<Longrightarrow> lk_event m c \<Longrightarrow>
     spin_lock_step c m (goto c L_ldaxr (m\<lparr>lk_event := (lk_event m)(c := False)\<rparr>))"
| wfe_spurious: "lpc m c = L_wfe \<Longrightarrow> spin_lock_step c m (goto c L_ldaxr m)"
| ldaxr: "lpc m c = L_ldaxr \<Longrightarrow>
     spin_lock_step c m
       (goto c L_cbnz_held (m\<lparr>lk_tmp := (lk_tmp m)(c := lk_word m), lk_excl := (lk_excl m)(c := True)\<rparr>))"
| cbnz_held: "lpc m c = L_cbnz_held \<Longrightarrow>
     spin_lock_step c m (goto c (if lk_tmp m c \<noteq> 0 then L_wfe else L_stxr) m)"
| stxr_ok: "lpc m c = L_stxr \<Longrightarrow> lk_excl m c \<Longrightarrow>
     spin_lock_step c m
       (goto c L_cbnz_retry ((store_lock c 1 m)\<lparr>lk_tmp := (lk_tmp m)(c := 0),
          lk_excl := (\<lambda>_. False)\<rparr>))"
| stxr_fail: "lpc m c = L_stxr \<Longrightarrow>
     spin_lock_step c m
       (goto c L_cbnz_retry (m\<lparr>lk_tmp := (lk_tmp m)(c := 1), lk_excl := (lk_excl m)(c := False)\<rparr>))"
| cbnz_retry: "lpc m c = L_cbnz_retry \<Longrightarrow>
     spin_lock_step c m (goto c (if lk_tmp m c \<noteq> 0 then L_ldaxr else L_crit) m)"

inductive spin_unlock_step :: "nat \<Rightarrow> 'z lock_machine_scheme \<Rightarrow> 'z lock_machine_scheme \<Rightarrow> bool" where
  stlr: "lpc m c = L_crit \<Longrightarrow> spin_unlock_step c m (goto c L_out (store_lock c 0 m))"

text \<open>The reachable states of any number of CPUs that lock and unlock.\<close>

inductive lock_reachable :: "lock_machine \<Rightarrow> bool" where
  init: "lock_reachable lock_init"
| lock: "lock_reachable m \<Longrightarrow> spin_lock_step c m m' \<Longrightarrow> lock_reachable m'"
| unlock: "lock_reachable m \<Longrightarrow> spin_unlock_step c m m' \<Longrightarrow> lock_reachable m'"

section \<open>The invariant\<close>

text \<open>A CPU owns the lock from its successful \<open>stxr\<close> on, before it has seen the status.\<close>

definition owns :: "'z lock_machine_scheme \<Rightarrow> nat \<Rightarrow> bool" where
  "owns m c \<longleftrightarrow> lpc m c = L_crit \<or> (lpc m c = L_cbnz_retry \<and> lk_tmp m c = 0)"

text \<open>
  Per CPU: a CPU at \<open>stxr\<close> has read 0; while its monitor is armed, what it read is still the lock
  word; and a CPU that is about to sleep in \<open>wfe\<close> either has its event register set or will get an
  event from the store that frees the lock, because its monitor is armed.
\<close>

definition cpu_ok :: "'z lock_machine_scheme \<Rightarrow> nat \<Rightarrow> bool" where
  "cpu_ok m c \<longleftrightarrow>
     (lpc m c = L_stxr \<longrightarrow> lk_tmp m c = 0) \<and>
     (lpc m c \<in> {L_cbnz_held, L_stxr} \<longrightarrow> lk_excl m c \<longrightarrow> lk_tmp m c = lk_word m) \<and>
     (lpc m c = L_wfe \<or> (lpc m c = L_cbnz_held \<and> lk_tmp m c \<noteq> 0) \<longrightarrow>
        lk_event m c \<or> (lk_excl m c \<and> lk_word m \<noteq> 0))"

definition lock_inv :: "'z lock_machine_scheme \<Rightarrow> bool" where
  "lock_inv m \<longleftrightarrow>
     (lk_word m \<noteq> 0 \<longleftrightarrow> (\<exists>c. owns m c)) \<and>
     (\<forall>c d. owns m c \<longrightarrow> owns m d \<longrightarrow> c = d) \<and>
     (\<forall>c. cpu_ok m c)"

lemmas lock_machine_defs = owns_def cpu_ok_def store_lock_def goto_def

lemma lock_inv_init: "lock_inv lock_init"
  by (simp add: lock_inv_def owns_def cpu_ok_def lock_init_def)

lemma lock_invD:
  assumes "lock_inv m"
  shows "lk_word m \<noteq> 0 \<longleftrightarrow> (\<exists>c. owns m c)"
    and "owns m c \<Longrightarrow> owns m d \<Longrightarrow> c = d"
    and "cpu_ok m c"
  using assms unfolding lock_inv_def by blast+

text \<open>Ownership changes only at a successful \<open>stxr\<close>, and only when nobody owned the lock.\<close>

lemma owns_step:
  assumes "spin_lock_step c m m'" and "lock_inv m"
  shows "(lk_word m' = lk_word m \<and> owns m' = owns m) \<or>
         (lk_word m = 0 \<and> lk_word m' = 1 \<and> owns m' = (\<lambda>d. d = c))"
  using assms
proof (cases rule: spin_lock_step.cases)
  case stxr_ok
  with lock_invD(3) [OF assms(2), of c] have "lk_word m = 0"
    by (auto simp: cpu_ok_def)
  moreover from this have "\<not> owns m d" for d
    using lock_invD(1) [OF assms(2)] by blast
  ultimately show ?thesis using stxr_ok
    by (auto simp: fun_eq_iff owns_def goto_def store_lock_def)
qed (auto simp: fun_eq_iff owns_def goto_def)

lemma cpu_ok_step:
  assumes "spin_lock_step c m m'" and "lock_inv m"
  shows "cpu_ok m' d"
  using assms(1) lock_invD(3) [OF assms(2), of d] lock_invD(3) [OF assms(2), of c]
  by (cases rule: spin_lock_step.cases; cases "d = c") (simp_all add: cpu_ok_def goto_def store_lock_def)

lemma lock_inv_step:
  assumes "spin_lock_step c m m'" and "lock_inv m"
  shows "lock_inv m'"
  using owns_step [OF assms] cpu_ok_step [OF assms] lock_invD(1,2) [OF assms(2)]
  unfolding lock_inv_def by auto

lemma lock_inv_unlock:
  assumes "spin_unlock_step c m m'" and "lock_inv m"
  shows "lock_inv m'"
proof -
  from assms(1) have c: "owns m c" and m': "m' = goto c L_out (store_lock c 0 m)"
    by (auto simp: owns_def elim: spin_unlock_step.cases)
  have "owns m' d \<Longrightarrow> d \<noteq> c \<and> owns m d" for d
    by (auto simp: m' owns_def goto_def store_lock_def split: if_splits)
  then have "\<not> owns m' d" for d
    using lock_invD(2) [OF assms(2) c, of d] by blast
  moreover have "cpu_ok m' d" for d
    using lock_invD(3) [OF assms(2), of d] assms(1)
    by (cases "d = c") (auto simp: m' cpu_ok_def goto_def store_lock_def)
  ultimately show ?thesis
    using m' by (simp add: lock_inv_def goto_def store_lock_def)
qed

lemma lock_reachable_inv: "lock_reachable m \<Longrightarrow> lock_inv m"
  by (induction rule: lock_reachable.induct)
     (auto intro: lock_inv_init lock_inv_step lock_inv_unlock)

section \<open>Running one CPU alone\<close>

text \<open>
  The instruction stream of one CPU when the hardware makes no spurious choice: \<open>None\<close> is a CPU
  asleep in \<open>wfe\<close>, or one that is not inside \<open>spin_lock\<close>.
\<close>

fun spin_lock_exec :: "nat \<Rightarrow> 'z lock_machine_scheme \<Rightarrow> 'z lock_machine_scheme option" where
  "spin_lock_exec c m =
     (case lpc m c of
        L_out \<Rightarrow> Some (goto c L_sevl m)
      | L_sevl \<Rightarrow> Some (goto c L_wfe (m\<lparr>lk_event := (lk_event m)(c := True)\<rparr>))
      | L_wfe \<Rightarrow> (if lk_event m c
                  then Some (goto c L_ldaxr (m\<lparr>lk_event := (lk_event m)(c := False)\<rparr>)) else None)
      | L_ldaxr \<Rightarrow> Some (goto c L_cbnz_held
                    (m\<lparr>lk_tmp := (lk_tmp m)(c := lk_word m), lk_excl := (lk_excl m)(c := True)\<rparr>))
      | L_cbnz_held \<Rightarrow> Some (goto c (if lk_tmp m c \<noteq> 0 then L_wfe else L_stxr) m)
      | L_stxr \<Rightarrow> (if lk_excl m c
          then Some (goto c L_cbnz_retry ((store_lock c 1 m)\<lparr>lk_tmp := (lk_tmp m)(c := 0),
                       lk_excl := (\<lambda>_. False)\<rparr>))
          else Some (goto c L_cbnz_retry (m\<lparr>lk_tmp := (lk_tmp m)(c := 1),
                       lk_excl := (lk_excl m)(c := False)\<rparr>)))
      | L_cbnz_retry \<Rightarrow> Some (goto c (if lk_tmp m c \<noteq> 0 then L_ldaxr else L_crit) m)
      | L_crit \<Rightarrow> None)"

fun spin_lock_run :: "nat \<Rightarrow> nat \<Rightarrow> 'z lock_machine_scheme \<Rightarrow> 'z lock_machine_scheme option" where
  "spin_lock_run 0 c m = Some m"
| "spin_lock_run (Suc n) c m = Option.bind (spin_lock_exec c m) (spin_lock_run n c)"

declare spin_lock_exec.simps [simp del]

lemma spin_lock_exec_step: "spin_lock_exec c m = Some m' \<Longrightarrow> spin_lock_step c m m'"
  unfolding spin_lock_exec.simps
  using cbnz_held [of m c] cbnz_retry [of m c]
  by (cases "lpc m c") (auto split: if_splits intro: spin_lock_step.intros)

text \<open>How many more instructions a CPU needs, by where it is, once the lock is free.\<close>

definition acquires :: "nat \<Rightarrow> nat \<Rightarrow> 'z lock_machine_scheme \<Rightarrow> bool" where
  "acquires n c m \<longleftrightarrow>
     (\<exists>m'. spin_lock_run n c m = Some m' \<and> lpc m' c = L_crit \<and> lk_word m' = 1)"

lemma acquires_Suc:
  "acquires (Suc n) c m \<longleftrightarrow> (case spin_lock_exec c m of None \<Rightarrow> False | Some m1 \<Rightarrow> acquires n c m1)"
  by (simp add: acquires_def split: option.split)

lemma acquires_numeral:
  "acquires (numeral n) c m \<longleftrightarrow>
     (case spin_lock_exec c m of None \<Rightarrow> False | Some m1 \<Rightarrow> acquires (pred_numeral n) c m1)"
  by (simp add: numeral_eq_Suc acquires_Suc)

lemmas lock_exec_simps = spin_lock_exec.simps goto_def store_lock_def

lemma acquires_stxr_armed: "lpc m c = L_stxr \<Longrightarrow> lk_excl m c \<Longrightarrow> acquires 2 c m"
  by (simp add: acquires_numeral acquires_Suc [of 0] lock_exec_simps) (simp add: acquires_def)

lemma acquires_ldaxr: "lpc m c = L_ldaxr \<Longrightarrow> lk_word m = 0 \<Longrightarrow> acquires 4 c m"
  by (subst acquires_numeral, simp add: lock_exec_simps, subst acquires_numeral)
     (simp add: lock_exec_simps acquires_stxr_armed)

lemma acquires_wfe:
  "lpc m c = L_wfe \<Longrightarrow> lk_event m c \<Longrightarrow> lk_word m = 0 \<Longrightarrow> acquires 5 c m"
  by (subst acquires_numeral) (simp add: lock_exec_simps acquires_ldaxr)

lemma acquires_sevl: "lpc m c = L_sevl \<Longrightarrow> lk_word m = 0 \<Longrightarrow> acquires 6 c m"
  by (subst acquires_numeral) (simp add: lock_exec_simps acquires_wfe)

lemma acquires_out: "lpc m c = L_out \<Longrightarrow> lk_word m = 0 \<Longrightarrow> acquires 7 c m"
  by (subst acquires_numeral) (simp add: lock_exec_simps acquires_sevl)

lemma acquires_cbnz_retry:
  "lpc m c = L_cbnz_retry \<Longrightarrow> lk_tmp m c \<noteq> 0 \<Longrightarrow> lk_word m = 0 \<Longrightarrow> acquires 5 c m"
  by (subst acquires_numeral) (simp add: lock_exec_simps acquires_ldaxr)

lemma acquires_stxr:
  assumes "lpc m c = L_stxr" and "lk_word m = 0"
  shows "acquires 2 c m \<or> acquires 6 c m"
proof (cases "lk_excl m c")
  case True
  with assms show ?thesis by (simp add: acquires_stxr_armed)
next
  case False
  with assms have "acquires 6 c m"
    by (subst acquires_numeral) (simp add: lock_exec_simps acquires_cbnz_retry)
  then show ?thesis by simp
qed

lemma acquires_cbnz_held:
  assumes "lpc m c = L_cbnz_held" and "lk_word m = 0" and "lk_tmp m c \<noteq> 0 \<Longrightarrow> lk_event m c"
  shows "acquires 3 c m \<or> acquires 6 c m \<or> acquires 7 c m"
proof (cases "lk_tmp m c = 0")
  case True
  have "acquires 2 c (goto c L_stxr m) \<or> acquires 6 c (goto c L_stxr m)"
    by (rule acquires_stxr) (simp_all add: goto_def assms(2))
  then have "acquires 3 c m \<or> acquires 7 c m"
    using True assms(1) by (simp add: acquires_numeral [of _ c m] spin_lock_exec.simps)
  then show ?thesis by blast
next
  case False
  with assms have "acquires 6 c m"
    by (subst acquires_numeral) (simp add: lock_exec_simps acquires_wfe)
  then show ?thesis by simp
qed

lemma free_lock_is_taken:
  assumes inv: "lock_inv m" and free: "lk_word m = 0"
  shows "\<exists>n\<le>7. acquires n c m"
proof -
  have ok: "cpu_ok m c" and own: "\<not> owns m c"
    using lock_invD [OF inv] free by blast+
  then have "acquires 2 c m \<or> acquires 3 c m \<or> acquires 4 c m \<or> acquires 5 c m \<or>
             acquires 6 c m \<or> acquires 7 c m"
    using free acquires_out acquires_sevl acquires_wfe acquires_ldaxr acquires_cbnz_held
      acquires_stxr acquires_cbnz_retry
    by (cases "lpc m c") (fastforce simp: cpu_ok_def owns_def)+
  then show ?thesis by (elim disjE) (rule exI, rule conjI [rotated], assumption, simp)+
qed

text \<open>While another CPU owns the lock, a CPU that only runs its own instructions keeps spinning.\<close>

lemma held_lock_star:
  assumes "(spin_lock_step c)\<^sup>*\<^sup>* m m'" and "lock_inv m" and "lk_word m \<noteq> 0" and "\<not> owns m c"
  shows "lock_inv m' \<and> lk_word m' \<noteq> 0 \<and> \<not> owns m' c"
  using assms
proof (induction rule: rtranclp_induct)
  case (step m1 m2)
  then show ?case using owns_step [of c m1 m2] lock_inv_step [of c m1 m2] by fastforce
qed simp

section \<open>The SMP self test\<close>

text \<open>
  \<open>selftest_body\<close>: every participating CPU increments \<open>st_locked\<close> \<open>SELFTEST_N\<close> times, each
  increment a load and a store between \<open>spin_lock\<close> and \<open>spin_unlock\<close>, and increments
  \<open>st_plain\<close> the same way without the lock.
\<close>

definition SELFTEST_N :: nat where "SELFTEST_N = 200000"

datatype cs_pc = CS_load | CS_store | CS_unlock

record selftest = lock_machine +
  st_locked :: u64
  st_reg :: "nat \<Rightarrow> u64"        \<comment> \<open>register that holds the loaded value\<close>
  st_cs :: "nat \<Rightarrow> cs_pc"
  st_iter :: "nat \<Rightarrow> nat"       \<comment> \<open>loop counter \<open>i\<close> of each CPU\<close>

definition selftest_init :: selftest where
  "selftest_init = lock_machine.extend lock_init
     \<lparr>st_locked = 0, st_reg = (\<lambda>_. 0), st_cs = (\<lambda>_. CS_load), st_iter = (\<lambda>_. 0)\<rparr>"

inductive selftest_step :: "nat \<Rightarrow> nat \<Rightarrow> selftest \<Rightarrow> selftest \<Rightarrow> bool" for n c where
  lock: "(lpc m c = L_out \<longrightarrow> st_iter m c < n) \<Longrightarrow> spin_lock_step c m m' \<Longrightarrow>
     selftest_step n c m m'"
| load: "lpc m c = L_crit \<Longrightarrow> st_cs m c = CS_load \<Longrightarrow>
     selftest_step n c m (m\<lparr>st_reg := (st_reg m)(c := st_locked m),
       st_cs := (st_cs m)(c := CS_store)\<rparr>)"
| store: "lpc m c = L_crit \<Longrightarrow> st_cs m c = CS_store \<Longrightarrow>
     selftest_step n c m (m\<lparr>st_locked := st_reg m c + 1, st_cs := (st_cs m)(c := CS_unlock)\<rparr>)"
| unlock: "st_cs m c = CS_unlock \<Longrightarrow> spin_unlock_step c m m' \<Longrightarrow>
     selftest_step n c m (m'\<lparr>st_cs := (st_cs m)(c := CS_load),
       st_iter := (st_iter m)(c := Suc (st_iter m c))\<rparr>)"

text \<open>\<open>cpus\<close> CPUs run the loop of \<open>n\<close> iterations, interleaved instruction by instruction.\<close>

inductive selftest_reachable :: "nat \<Rightarrow> nat \<Rightarrow> selftest \<Rightarrow> bool" for cpus n where
  start: "selftest_reachable cpus n selftest_init"
| step: "selftest_reachable cpus n m \<Longrightarrow> c < cpus \<Longrightarrow> selftest_step n c m m' \<Longrightarrow>
     selftest_reachable cpus n m'"

definition selftest_done :: "nat \<Rightarrow> nat \<Rightarrow> selftest \<Rightarrow> bool" where
  "selftest_done cpus n m \<longleftrightarrow> (\<forall>c<cpus. st_iter m c = n \<and> lpc m c = L_out)"

definition increments :: "selftest \<Rightarrow> nat \<Rightarrow> nat" where
  "increments m c = st_iter m c + (if st_cs m c = CS_unlock then 1 else 0)"

definition selftest_inv :: "nat \<Rightarrow> selftest \<Rightarrow> bool" where
  "selftest_inv cpus m \<longleftrightarrow> lock_inv m \<and>
     (\<forall>c. st_cs m c \<noteq> CS_load \<longrightarrow> lpc m c = L_crit) \<and>
     (\<forall>c. st_cs m c = CS_store \<longrightarrow> st_reg m c = st_locked m) \<and>
     st_locked m = of_nat (\<Sum>c<cpus. increments m c)"

lemma spin_lock_step_client:
  assumes "spin_lock_step c (m :: selftest) m'"
  shows "st_locked m' = st_locked m" "st_reg m' = st_reg m" "st_cs m' = st_cs m"
    "st_iter m' = st_iter m" "\<And>d. lpc m d = L_crit \<Longrightarrow> lpc m' d = L_crit"
  using assms by (auto elim!: spin_lock_step.cases simp: goto_def store_lock_def)

lemma sum_increment:
  fixes c cpus :: nat
  assumes "c < cpus" and "f' c = Suc (f c)" and "\<And>d. d \<noteq> c \<Longrightarrow> f' d = f d"
  shows "(\<Sum>d<cpus. f' d) = Suc (\<Sum>d<cpus. f d)"
proof -
  have "(\<Sum>d<cpus. f' d) = f' c + (\<Sum>d\<in>{..<cpus} - {c}. f' d)"
    using assms(1) by (simp add: sum.remove)
  also have "(\<Sum>d\<in>{..<cpus} - {c}. f' d) = (\<Sum>d\<in>{..<cpus} - {c}. f d)"
    using assms(3) by (intro sum.cong) auto
  also have "f' c + \<dots> = Suc (\<Sum>d<cpus. f d)"
    using assms(1,2) by (simp add: sum.remove)
  finally show ?thesis .
qed

lemma selftest_inv_init: "selftest_inv cpus selftest_init"
  using lock_inv_init
  by (simp add: selftest_inv_def selftest_init_def lock_inv_def owns_def cpu_ok_def
      lock_machine.defs lock_init_def increments_def)

lemma selftest_inv_lock:
  assumes "spin_lock_step c m m'" and "selftest_inv cpus m"
  shows "selftest_inv cpus m'"
  using assms spin_lock_step_client [OF assms(1)] lock_inv_step [OF assms(1)]
  by (auto simp: selftest_inv_def increments_def)

lemma lock_inv_cong:
  "lk_word m' = lk_word m \<Longrightarrow> lpc m' = lpc m \<Longrightarrow> lk_tmp m' = lk_tmp m \<Longrightarrow>
   lk_excl m' = lk_excl m \<Longrightarrow> lk_event m' = lk_event m \<Longrightarrow> lock_inv m' = lock_inv m"
  by (simp add: lock_inv_def owns_def cpu_ok_def)

text \<open>Only the owner of the lock is inside the critical section, so its loaded value is current.\<close>

lemma selftest_only_owner:
  assumes "selftest_inv cpus m" and "lpc m c = L_crit" and "st_cs m d \<noteq> CS_load"
  shows "d = c"
  using assms lock_invD(2) [of m c d] by (auto simp: selftest_inv_def owns_def)

lemma selftest_inv_step:
  assumes "selftest_step n c m m'" and "c < cpus" and inv: "selftest_inv cpus m"
  shows "selftest_inv cpus m'"
  using assms(1)
proof (cases rule: selftest_step.cases)
  case lock
  then show ?thesis using inv selftest_inv_lock by blast
next
  case load
  then have "increments m' = increments m" by (auto simp: increments_def fun_eq_iff)
  moreover have "lock_inv m' = lock_inv m" by (rule lock_inv_cong) (simp_all add: load)
  ultimately show ?thesis using load inv by (auto simp: selftest_inv_def)
next
  case store
  have own: "\<And>d. st_cs m d \<noteq> CS_load \<Longrightarrow> d = c"
    using selftest_only_owner [OF inv store(2)] by blast
  have "(\<Sum>d<cpus. increments m' d) = Suc (\<Sum>d<cpus. increments m d)"
    using assms(2) by (rule sum_increment) (auto simp: store increments_def)
  moreover have "lock_inv m' = lock_inv m"
    by (rule lock_inv_cong) (simp_all add: store)
  moreover have "st_cs m' d \<noteq> CS_store" for d
    using own [of d] by (auto simp: store)
  ultimately show ?thesis using inv store
    by (auto simp: selftest_inv_def)
next
  case (unlock m1)
  then have c: "lpc m c = L_crit" and m1: "m1 = goto c L_out (store_lock c 0 m)"
    by (auto elim: spin_unlock_step.cases)
  have own: "\<And>d. st_cs m d \<noteq> CS_load \<Longrightarrow> d = c"
    using selftest_only_owner [OF inv c] by blast
  have "increments m' = increments m"
    using unlock by (auto simp: increments_def fun_eq_iff)
  moreover have "lock_inv m' = lock_inv m1"
    by (rule lock_inv_cong) (simp_all add: unlock)
  moreover have "lock_inv m1"
    using lock_inv_unlock [OF unlock(3)] inv by (simp add: selftest_inv_def)
  moreover have "st_cs m' d = CS_load" for d
    using own [of d] by (auto simp: unlock)
  moreover have "st_locked m' = st_locked m" by (simp add: unlock m1 goto_def store_lock_def)
  ultimately show ?thesis using inv by (simp add: selftest_inv_def)
qed

lemma selftest_reachable_inv: "selftest_reachable cpus n m \<Longrightarrow> selftest_inv cpus m"
  by (induction rule: selftest_reachable.induct) (auto intro: selftest_inv_init selftest_inv_step)

text \<open>The self test can be completed: the CPUs may take the lock one after the other.\<close>

lemma spin_lock_exec_others:
  assumes "spin_lock_exec c m = Some m'"
  shows "d \<noteq> c \<Longrightarrow> lpc m' d = lpc m d" and "lpc m' c \<noteq> L_out"
  using assms unfolding spin_lock_exec.simps
  by (cases "lpc m c"; auto simp: goto_def store_lock_def split: if_splits)+

lemma selftest_run:
  assumes "spin_lock_run k c m = Some m'" and "selftest_reachable cpus n m" and "c < cpus"
    and "st_iter m c < n"
  shows "selftest_reachable cpus n m' \<and> st_iter m' = st_iter m \<and> st_cs m' = st_cs m \<and>
         (\<forall>d. d \<noteq> c \<longrightarrow> lpc m' d = lpc m d)"
  using assms
proof (induction k arbitrary: m)
  case (Suc k)
  then obtain m1 where m1: "spin_lock_exec c m = Some m1" "spin_lock_run k c m1 = Some m'"
    by (auto split: Option.bind_splits)
  then have st: "spin_lock_step c m m1" by (simp add: spin_lock_exec_step)
  have "selftest_reachable cpus n m1"
    using Suc.prems st by (blast intro: selftest_reachable.step selftest_step.lock)
  then show ?case
    using Suc.IH [OF m1(2)] Suc.prems spin_lock_step_client [OF st] spin_lock_exec_others [OF m1(1)]
    by auto
qed simp

definition selftest_idle :: "selftest \<Rightarrow> bool" where
  "selftest_idle m \<longleftrightarrow> (\<forall>c. lpc m c = L_out)"

lemma selftest_iteration:
  assumes reach: "selftest_reachable cpus n m" and c: "c < cpus" "st_iter m c < n"
    and idle: "selftest_idle m"
  shows "\<exists>m'. selftest_reachable cpus n m' \<and> selftest_idle m' \<and>
              st_iter m' = (st_iter m)(c := Suc (st_iter m c))"
proof -
  have inv: "selftest_inv cpus m" using reach by (rule selftest_reachable_inv)
  then have "lk_word m = 0" "lock_inv m" and cs: "st_cs m c = CS_load"
    using idle by (auto simp: selftest_inv_def selftest_idle_def lock_inv_def owns_def)
  then obtain k m1 where m1: "spin_lock_run k c m = Some m1" "lpc m1 c = L_crit"
    using free_lock_is_taken [of m c] by (auto simp: acquires_def)
  note r1 = selftest_run [OF m1(1) reach c]
  define m2 where "m2 = m1\<lparr>st_reg := (st_reg m1)(c := st_locked m1), st_cs := (st_cs m1)(c := CS_store)\<rparr>"
  have r2: "selftest_reachable cpus n m2"
    using r1 c m1(2) cs unfolding m2_def
    by (intro selftest_reachable.step [OF _ c(1) selftest_step.load]) auto
  define m3 where "m3 = m2\<lparr>st_locked := st_reg m2 c + 1, st_cs := (st_cs m2)(c := CS_unlock)\<rparr>"
  have r3: "selftest_reachable cpus n m3"
    using r2 m1(2) unfolding m3_def
    by (intro selftest_reachable.step [OF _ c(1) selftest_step.store]) (auto simp: m2_def)
  define m4 where "m4 = (goto c L_out (store_lock c 0 m3))\<lparr>st_cs := (st_cs m3)(c := CS_load),
          st_iter := (st_iter m3)(c := Suc (st_iter m3 c))\<rparr>"
  have "selftest_step n c m3 m4" unfolding m4_def
    using m1(2) by (intro selftest_step.unlock spin_unlock_step.stlr) (auto simp: m3_def m2_def)
  then have "selftest_reachable cpus n m4"
    using r3 c(1) by (blast intro: selftest_reachable.step)
  moreover have "st_iter m4 = (st_iter m)(c := Suc (st_iter m c))"
    using r1 by (simp add: m4_def m3_def m2_def)
  moreover have "selftest_idle m4" using r1 idle
    by (auto simp: selftest_idle_def goto_def store_lock_def m4_def m3_def m2_def)
  ultimately show ?thesis by blast
qed

lemma selftest_completes_cpu:
  assumes "selftest_reachable cpus n m" and "c < cpus" and "selftest_idle m" and "st_iter m c = 0"
    and "k \<le> n"
  shows "\<exists>m'. selftest_reachable cpus n m' \<and> selftest_idle m' \<and> st_iter m' = (st_iter m)(c := k)"
  using assms(5)
proof (induction k)
  case 0
  then show ?case using assms by (intro exI [of _ m]) auto
next
  case (Suc k)
  then obtain m1 where "selftest_reachable cpus n m1" "selftest_idle m1" "st_iter m1 = (st_iter m)(c := k)"
    using Suc_leD by blast
  with selftest_iteration [of cpus n m1 c] Suc.prems assms(2) show ?case by fastforce
qed

lemma selftest_completes: "\<exists>m. selftest_reachable cpus n m \<and> selftest_done cpus n m"
proof -
  have "\<exists>m. selftest_reachable cpus n m \<and> selftest_idle m \<and>
          (\<forall>c. st_iter m c = (if c < j then n else 0))" if "j \<le> cpus" for j
    using that
  proof (induction j)
    case 0
    show ?case
      using selftest_reachable.start
      by (rule exI [of _ selftest_init, OF conjI])
         (simp add: selftest_idle_def selftest_init_def lock_init_def lock_machine.defs)
  next
    case (Suc j)
    then obtain m where "selftest_reachable cpus n m" "selftest_idle m"
      "\<forall>c. st_iter m c = (if c < j then n else 0)" by auto
    with selftest_completes_cpu [of cpus n m j n] Suc.prems show ?case by fastforce
  qed
  from this [of cpus] show ?thesis by (auto simp: selftest_done_def selftest_idle_def)
qed

text \<open>When all CPUs have finished, in whatever interleaving, the locked counter is exact.\<close>

lemma selftest_exact:
  assumes "selftest_reachable cpus n m" and "selftest_done cpus n m"
  shows "st_locked m = of_nat (cpus * n)"
proof -
  have inv: "selftest_inv cpus m" using assms(1) by (rule selftest_reachable_inv)
  then have "increments m c = n" if "c < cpus" for c
    using that assms(2) by (auto simp: selftest_inv_def selftest_done_def increments_def)
  then have "(\<Sum>c<cpus. increments m c) = cpus * n" by simp
  with inv show ?thesis by (simp add: selftest_inv_def)
qed

section \<open>Properties\<close>

text \<open>C1: mutual exclusion of \<open>spin_lock\<close>: however the instructions of the CPUs interleave, two
  CPUs are never both between the return of \<open>spin_lock\<close> and their \<open>spin_unlock\<close>.\<close>

theorem spin_lock_mutual_exclusion:
  assumes "lock_reachable m" and "lpc m c = L_crit" and "lpc m d = L_crit"
  shows "c = d"
  using lock_invD(2) [OF lock_reachable_inv [OF assms(1)]] assms(2,3) by (simp add: owns_def)

text \<open>C30: no lost wake-up and no deadlock: whenever the lock is free, a CPU asleep in the \<open>wfe\<close> of
  \<open>spin_lock\<close> has its event register set, and every CPU that wants the lock obtains it within
  seven of its own instructions when the others leave it alone.\<close>

theorem spin_lock_no_lost_wakeup:
  assumes "lock_reachable m" and "lk_word m = 0"
  shows "(lpc m c = L_wfe \<longrightarrow> lk_event m c) \<and>
         (\<exists>n\<le>7. \<exists>m'. spin_lock_run n c m = Some m' \<and> lpc m' c = L_crit \<and> lk_word m' = 1)"
  using lock_invD(3) [OF lock_reachable_inv [OF assms(1)], of c]
    free_lock_is_taken [OF lock_reachable_inv [OF assms(1)] assms(2), of c] assms(2)
  by (auto simp: cpu_ok_def acquires_def)

text \<open>A CPU that runs alone while another CPU owns the lock never gets past \<open>spin_lock\<close>.\<close>

lemma spin_lock_waits_for_owner:
  assumes "lock_reachable m" and "lpc m d = L_crit" and "c \<noteq> d" and "(spin_lock_step c)\<^sup>*\<^sup>* m m'"
  shows "lpc m' c \<noteq> L_crit"
proof -
  have inv: "lock_inv m" using assms(1) by (rule lock_reachable_inv)
  have d: "owns m d" using assms(2) by (simp add: owns_def)
  then have "lk_word m \<noteq> 0" "\<not> owns m c"
    using lock_invD(1,2) [OF inv] assms(3) by blast+
  then have "\<not> owns m' c" using held_lock_star [OF assms(4) inv] by blast
  then show ?thesis by (simp add: owns_def)
qed

text \<open>Witnesses: CPU 0 takes the free lock; CPU 1 then spins.\<close>

definition lock_taken_by_0 :: lock_machine where
  "lock_taken_by_0 = the (spin_lock_run 7 0 lock_init)"

lemma lock_taken_by_0:
  "lock_reachable lock_taken_by_0" "lpc lock_taken_by_0 0 = L_crit" "lk_word lock_taken_by_0 = 1"
proof -
  have run: "lock_reachable m \<Longrightarrow> spin_lock_run k c m = Some m' \<Longrightarrow> lock_reachable m'" for k c m m'
    by (induction k arbitrary: m)
       (auto split: Option.bind_splits intro: lock_reachable.lock spin_lock_exec_step)
  have "acquires 7 0 lock_init" by (rule acquires_out) (simp_all add: lock_init_def)
  then obtain m' where "spin_lock_run 7 0 lock_init = Some m'" "lpc m' 0 = L_crit" "lk_word m' = 1"
    by (auto simp: acquires_def)
  with run [OF lock_reachable.init]
  show "lock_reachable lock_taken_by_0" "lpc lock_taken_by_0 0 = L_crit" "lk_word lock_taken_by_0 = 1"
    by (auto simp: lock_taken_by_0_def)
qed

theorem spin_lock_mutual_exclusion_witness:
  "lpc lock_taken_by_0 0 = L_crit \<and> lpc lock_taken_by_0 1 \<noteq> L_crit"
  using spin_lock_mutual_exclusion [OF lock_taken_by_0(1), of 0 1] lock_taken_by_0(2) by auto

theorem spin_lock_no_lost_wakeup_witness:
  "\<exists>n\<le>7. \<exists>m'. spin_lock_run n 2 lock_init = Some m' \<and> lpc m' 2 = L_crit \<and> lk_word m' = 1"
  using spin_lock_no_lost_wakeup [OF lock_reachable.init, of 2] by (simp add: lock_init_def)

end
