(* ===== verification/Selftest.thy ===== *)
theory Selftest
  imports Spinlock Smp
begin

text \<open>
  The SMP self test (\<open>kernel/smp.c\<close>, under \<open>SMP_SELFTEST\<close>): \<open>selftest_body\<close> on every CPU that takes part, with the loads and
  stores of both counters and the instructions of the lock interleaved in any way, and the report of CPU 0. The theorem: the
  report comes out, the locked counter in it is exact, the unprotected one may have lost updates but never gains any, and
  \<open>LOCK_OK\<close> is 1 exactly when the number of CPUs CPU 0 has counted is the number that took part.
\<close>

section \<open>The test\<close>

text \<open>\<open>locked\<close> is the state of the second loop (theory \<open>Spinlock\<close>); \<open>pl_reg\<close> holds the loaded value between the load and the store of
  \<open>st_plain++\<close>.\<close>

record selftest_state =
  locked :: selftest
  st_plain :: u64
  pl_reg :: "nat \<Rightarrow> u64"
  pl_loaded :: "nat \<Rightarrow> bool"
  pl_iter :: "nat \<Rightarrow> nat"
  st_done :: "nat \<Rightarrow> bool"

definition test_init :: selftest_state where
  "test_init = \<lparr>locked = selftest_init, st_plain = 0, pl_reg = (\<lambda>_. 0), pl_loaded = (\<lambda>_. False), pl_iter = (\<lambda>_. 0), st_done = (\<lambda>_. False)\<rparr>"

inductive test_step :: "nat \<Rightarrow> nat \<Rightarrow> selftest_state \<Rightarrow> selftest_state \<Rightarrow> bool" for n c m where
  load: "pl_iter m c < n \<Longrightarrow> \<not> pl_loaded m c \<Longrightarrow>
     test_step n c m (m\<lparr>pl_reg := (pl_reg m)(c := st_plain m), pl_loaded := (pl_loaded m)(c := True)\<rparr>)"
| store: "pl_loaded m c \<Longrightarrow>
     test_step n c m (m\<lparr>st_plain := pl_reg m c + 1, pl_loaded := (pl_loaded m)(c := False), pl_iter := (pl_iter m)(c := Suc (pl_iter m c))\<rparr>)"
| locked: "pl_iter m c = n \<Longrightarrow> \<not> st_done m c \<Longrightarrow> selftest_step n c (locked m) l \<Longrightarrow> test_step n c m (m\<lparr>locked := l\<rparr>)"
| finish: "pl_iter m c = n \<Longrightarrow> st_iter (locked m) c = n \<Longrightarrow> lpc (locked m) c = L_out \<Longrightarrow>
     test_step n c m (m\<lparr>st_done := (st_done m)(c := True)\<rparr>)"

inductive_cases test_stepE: "test_step n c m m'"

inductive test_reachable :: "nat \<Rightarrow> nat \<Rightarrow> selftest_state \<Rightarrow> bool" for cpus n where
  start: "test_reachable cpus n test_init"
| step: "test_reachable cpus n m \<Longrightarrow> c < cpus \<Longrightarrow> test_step n c m m' \<Longrightarrow> test_reachable cpus n m'"

text \<open>CPU 0 waits for the flags of the CPUs that are alive, and reports.\<close>

definition test_over :: "nat \<Rightarrow> selftest_state \<Rightarrow> bool" where
  "test_over cpus m \<longleftrightarrow> (\<forall>c < cpus. st_done m c)"

definition selftest_report :: "nat \<Rightarrow> nat \<Rightarrow> selftest_state \<Rightarrow> 'z kernel_scheme \<Rightarrow> 'z kernel_scheme option" where
  "selftest_report c online m k = do {
     let expected = (of_nat online * of_nat SELFTEST_N :: u64);
     k \<leftarrow> klog c ''SELFTEST cpus='' (of_nat online) True [] k;
     k \<leftarrow> klog c '' expected='' expected True [] k;
     k \<leftarrow> klog c '' plain='' (st_plain m) True [] k;
     k \<leftarrow> klog c '' locked='' (st_locked (locked m)) True [] k;
     klog c '' LOCK_OK='' (if st_locked (locked m) = expected then 1 else 0) True CRLF k }"

section \<open>The counters\<close>

lemma test_locked_reachable:
  assumes "test_reachable cpus n m"
  shows "selftest_reachable cpus n (locked m)"
  using assms
proof (induction rule: test_reachable.induct)
  case start
  then show ?case by (simp add: test_init_def selftest_reachable.start)
next
  case (step m c m')
  from step(3) step(2,4) show ?case by (auto elim!: test_stepE intro: selftest_reachable.step)
qed

lemma selftest_step_others:
  assumes "selftest_step n d l l'" and "c \<noteq> d"
  shows "st_iter l' c = st_iter l c \<and> lpc l' c = lpc l c"
  using assms(1)
proof cases
  case lock
  have "lpc l' c = lpc l c" using lock(2) assms(2) by cases (auto simp: goto_def store_lock_def)
  then show ?thesis using spin_lock_step_client [OF lock(2)] by simp
next
  case (unlock m')
  have "lpc m' c = lpc l c" using unlock(3) assms(2) by cases (auto simp: goto_def store_lock_def)
  then show ?thesis using unlock assms(2) by simp
qed auto

text \<open>The stores to \<open>st_plain\<close> so far bound its value and every value that is about to be stored.\<close>

definition plain_inv :: "nat \<Rightarrow> nat \<Rightarrow> selftest_state \<Rightarrow> bool" where
  "plain_inv cpus n m \<longleftrightarrow> (\<forall>c. pl_iter m c \<le> n \<and> (pl_loaded m c \<longrightarrow> pl_iter m c < n)) \<and>
     unat (st_plain m) \<le> (\<Sum>c<cpus. pl_iter m c) \<and>
     (\<forall>c. pl_loaded m c \<longrightarrow> unat (pl_reg m c) \<le> (\<Sum>c<cpus. pl_iter m c)) \<and>
     ((\<exists>c<cpus. 0 < pl_iter m c) \<longrightarrow> 0 < unat (st_plain m))"

lemma plain_inv_step:
  assumes inv: "plain_inv cpus n m" and c: "c < cpus" and st: "test_step n c m m'" and small: "cpus * n < 2 ^ 64"
  shows "plain_inv cpus n m'"
  using st
proof cases
  case load
  then show ?thesis using inv by (auto simp: plain_inv_def)
next
  case store
  let ?S = "\<Sum>c<cpus. pl_iter m c" and ?it = "(pl_iter m)(c := Suc (pl_iter m c))"
  have S: "(\<Sum>c<cpus. ?it c) = Suc ?S" using c by (simp add: sum.remove [of "{..<cpus}" c])
  have "(\<Sum>c<cpus. ?it c) \<le> (\<Sum>c<cpus. n)" using inv store by (intro sum_mono) (auto simp: plain_inv_def Suc_le_eq)
  then have "Suc ?S < 2 ^ 64" using S small by simp
  moreover have r: "unat (pl_reg m c) \<le> ?S" using inv store by (simp add: plain_inv_def)
  ultimately have "unat (pl_reg m c + 1) = Suc (unat (pl_reg m c))" by (simp add: unat_word_ariths)
  then show ?thesis using store inv r S unfolding plain_inv_def by (auto simp: Suc_le_eq le_SucI)
next
  case (locked l)
  then show ?thesis using inv by (simp add: plain_inv_def)
next
  case finish
  then show ?thesis using inv by (simp add: plain_inv_def)
qed

lemma test_plain_inv:
  assumes "test_reachable cpus n m" and "cpus * n < 2 ^ 64"
  shows "plain_inv cpus n m"
  using assms(1)
proof (induction rule: test_reachable.induct)
  case start
  show ?case by (simp add: plain_inv_def test_init_def)
qed (rule plain_inv_step [OF _ _ _ assms(2)])

text \<open>Who is done has run both loops and stays that way.\<close>

lemma test_done_inv:
  assumes "test_reachable cpus n m" and "cpus * n < 2 ^ 64"
  shows "st_done m c \<longrightarrow> pl_iter m c = n \<and> st_iter (locked m) c = n \<and> lpc (locked m) c = L_out"
  using assms(1)
proof (induction rule: test_reachable.induct)
  case (step m d m')
  have "pl_loaded m c \<longrightarrow> pl_iter m c < n" using test_plain_inv [OF step(1) assms(2)] by (simp add: plain_inv_def)
  with step(3,4) show ?case by (elim test_stepE) (auto dest: selftest_step_others)
qed (simp add: test_init_def)

lemma test_over_selftest_done:
  assumes "test_reachable cpus n m" and "cpus * n < 2 ^ 64" and "test_over cpus m"
  shows "selftest_done cpus n (locked m)" "c < cpus \<Longrightarrow> pl_iter m c = n"
  using test_done_inv [OF assms(1,2)] assms(3) by (auto simp: selftest_done_def test_over_def)

section \<open>The test can be run to its end\<close>

text \<open>A CPU that runs alone does \<open>j\<close> more rounds of the first loop.\<close>

lemma plain_rounds:
  assumes "test_reachable cpus n m" and "c < cpus" and "\<not> pl_loaded m c" and "pl_iter m c + j \<le> n"
  shows "\<exists>m'. test_reachable cpus n m' \<and> pl_iter m' = (pl_iter m)(c := pl_iter m c + j) \<and> st_plain m' = st_plain m + of_nat j \<and>
     pl_loaded m' = pl_loaded m \<and> locked m' = locked m \<and> st_done m' = st_done m"
  using assms(4)
proof (induction j)
  case 0
  then show ?case using assms(1) by (intro exI [of _ m]) simp
next
  case (Suc j)
  then obtain m1 where m1: "test_reachable cpus n m1" "pl_iter m1 = (pl_iter m)(c := pl_iter m c + j)" "st_plain m1 = st_plain m + of_nat j"
    "pl_loaded m1 = pl_loaded m" "locked m1 = locked m" "st_done m1 = st_done m" using Suc_leD add_Suc_right by metis
  let ?m2 = "m1\<lparr>pl_reg := (pl_reg m1)(c := st_plain m1), pl_loaded := (pl_loaded m1)(c := True)\<rparr>"
  have "test_step n c m1 ?m2" using m1 Suc.prems assms(3) by (intro test_step.load) auto
  then have r2: "test_reachable cpus n ?m2" by (rule test_reachable.step [OF m1(1) assms(2)])
  let ?m3 = "?m2\<lparr>st_plain := pl_reg ?m2 c + 1, pl_loaded := (pl_loaded ?m2)(c := False), pl_iter := (pl_iter ?m2)(c := Suc (pl_iter ?m2 c))\<rparr>"
  have "test_step n c ?m2 ?m3" by (rule test_step.store) simp
  then have "test_reachable cpus n ?m3" by (rule test_reachable.step [OF r2 assms(2)])
  then show ?case using m1 assms(3) by (intro exI [of _ ?m3]) (simp add: add.assoc add.commute, use assms(3) in auto)
qed

text \<open>Whatever the second loop can reach on its own can follow the first.\<close>

lemma locked_after_plain:
  assumes "selftest_reachable cpus n l" and "test_reachable cpus n m" and "locked m = selftest_init"
    and "\<forall>c < cpus. pl_iter m c = n \<and> \<not> st_done m c"
  shows "test_reachable cpus n (m\<lparr>locked := l\<rparr>)"
  using assms(1)
proof (induction rule: selftest_reachable.induct)
  case start
  have "m\<lparr>locked := selftest_init\<rparr> = m" using assms(3) by (metis selftest_state.surjective selftest_state.update_convs(1))
  then show ?case using assms(2) by simp
next
  case (step l c l')
  have "test_step n c (m\<lparr>locked := l\<rparr>) ((m\<lparr>locked := l\<rparr>)\<lparr>locked := l'\<rparr>)" using step assms(4) by (intro test_step.locked) auto
  from test_reachable.step [OF step(4) step(2) this] show ?case by simp
qed

lemma all_finish:
  assumes "test_reachable cpus n m" and "selftest_done cpus n (locked m)" and "\<forall>c < cpus. pl_iter m c = n" and "j \<le> cpus"
  shows "\<exists>d. test_reachable cpus n (m\<lparr>st_done := d\<rparr>) \<and> (\<forall>c < j. d c)"
  using assms(4)
proof (induction j)
  case 0
  have "m\<lparr>st_done := st_done m\<rparr> = m" by simp
  then show ?case using assms(1) by (metis not_less0)
next
  case (Suc j)
  then obtain d where d: "test_reachable cpus n (m\<lparr>st_done := d\<rparr>)" "\<forall>c < j. d c" by auto
  have "test_step n j (m\<lparr>st_done := d\<rparr>) ((m\<lparr>st_done := d\<rparr>)\<lparr>st_done := (st_done (m\<lparr>st_done := d\<rparr>))(j := True)\<rparr>)"
    using Suc.prems assms(2,3) by (intro test_step.finish) (auto simp: selftest_done_def)
  from test_reachable.step [OF d(1) _ this] Suc.prems d(2) show ?case
    by (intro exI [of _ "d(j := True)"] conjI) (simp del: fun_upd_apply, simp add: less_Suc_eq)
qed

lemma test_completes:
  assumes "test_reachable cpus n m" and "locked m = selftest_init" and "\<forall>c < cpus. pl_iter m c = n \<and> \<not> st_done m c"
  shows "\<exists>m'. test_reachable cpus n m' \<and> test_over cpus m' \<and> st_plain m' = st_plain m"
proof -
  obtain l where l: "selftest_reachable cpus n l" "selftest_done cpus n l" using selftest_completes by blast
  have "test_reachable cpus n (m\<lparr>locked := l\<rparr>)" by (rule locked_after_plain [OF l(1) assms])
  then obtain d where "test_reachable cpus n (m\<lparr>locked := l, st_done := d\<rparr>)" "\<forall>c < cpus. d c"
    using all_finish [of cpus n "m\<lparr>locked := l\<rparr>" cpus] l(2) assms(3) by auto
  then show ?thesis by (intro exI [of _ "m\<lparr>locked := l, st_done := d\<rparr>"]) (simp add: test_over_def)
qed

section \<open>Properties\<close>

definition selftest_text :: "nat \<Rightarrow> nat \<Rightarrow> nat \<Rightarrow> nat \<Rightarrow> string" where
  "selftest_text online plain lck verdict = ''SELFTEST cpus='' @ decimal online @ '' expected='' @ decimal (online * SELFTEST_N) @
     '' plain='' @ decimal plain @ '' locked='' @ decimal lck @ '' LOCK_OK='' @ decimal verdict @ CRLF"

lemma report_sends:
  assumes "uart_ready k"
  shows "sends (\<lambda>k. k) k l (selftest_report c online m (did l k))
     (klog_text ''SELFTEST cpus='' (of_nat online) True [] @ klog_text '' expected='' (of_nat online * of_nat SELFTEST_N) True [] @
      klog_text '' plain='' (st_plain m) True [] @ klog_text '' locked='' (st_locked (locked m)) True [] @
      klog_text '' LOCK_OK='' (if st_locked (locked m) = of_nat online * of_nat SELFTEST_N then 1 else 0) True CRLF)"
  unfolding selftest_report_def Let_def
  by (intro klog_then assms klogline.emit_sends [where x = "(p, v, b, s)" for p v b s, OF _ TrueI, unfolded prod.case])

text \<open>C27: the self test measures what it says. When all \<open>cpus\<close> CPUs that take part have run their loops, in whatever interleaving of
  loads, stores and lock instructions, the locked counter is exactly \<open>cpus * SELFTEST_N\<close>; the unprotected one is at least 1 and at most
  that. CPU 0's report then comes out, with these numbers in it, and its verdict is 1 exactly if the number of CPUs it
  counted at boot is the number that took part.\<close>

theorem selftest_verdict:
  assumes "test_reachable cpus SELFTEST_N m" and "test_over cpus m" and "0 < cpus" "cpus \<le> MAX_CPUS" "online \<le> MAX_CPUS"
    and "uart_ready k"
  shows "st_locked (locked m) = of_nat (cpus * SELFTEST_N) \<and> 1 \<le> unat (st_plain m) \<and> unat (st_plain m) \<le> cpus * SELFTEST_N \<and>
     (\<exists>l. selftest_report 0 online m k = Some (did l k) \<and>
        uart_sent l = map of_char (selftest_text online (unat (st_plain m)) (cpus * SELFTEST_N) (if online = cpus then 1 else 0)))"
proof -
  have small: "cpus * SELFTEST_N < 2 ^ 64" "online * SELFTEST_N < 2 ^ 64" "online < 2 ^ 64"
    using assms(4,5) by (simp_all add: SELFTEST_N_def MAX_CPUS_def)
  note fin = test_over_selftest_done [OF assms(1) small(1) assms(2)]
  have lk: "st_locked (locked m) = of_nat (cpus * SELFTEST_N)"
    by (rule selftest_exact [OF test_locked_reachable [OF assms(1)] fin(1)])
  have inv: "plain_inv cpus SELFTEST_N m" by (rule test_plain_inv [OF assms(1) small(1)])
  have "(\<Sum>c<cpus. pl_iter m c) = cpus * SELFTEST_N" using fin(2) by simp
  moreover have "\<exists>c<cpus. 0 < pl_iter m c" using assms(3) fin(2) by (intro exI [of _ 0]) (simp add: SELFTEST_N_def)
  ultimately have pl: "1 \<le> unat (st_plain m)" "unat (st_plain m) \<le> cpus * SELFTEST_N" using inv by (auto simp: plain_inv_def)
  have ex: "(of_nat online * of_nat SELFTEST_N :: u64) = of_nat (online * SELFTEST_N)" by simp
  have "(of_nat (cpus * SELFTEST_N) :: u64) = of_nat (online * SELFTEST_N) \<longleftrightarrow> online = cpus"
    using of_nat_u64_inj [OF small(1,2)] by (auto simp: SELFTEST_N_def)
  then have v: "unat (if (of_nat (cpus * SELFTEST_N) :: u64) = of_nat (online * SELFTEST_N) then 1 else 0 :: u64) = (if online = cpus then 1 else 0)"
    by simp
  have u: "unat (of_nat online :: u64) = online" "unat (of_nat (online * SELFTEST_N) :: u64) = online * SELFTEST_N"
    "unat (of_nat (cpus * SELFTEST_N) :: u64) = cpus * SELFTEST_N"
    using small by (simp_all add: unat_of_nat del: of_nat_mult)
  have "sends (\<lambda>k. k) k [] (selftest_report 0 online m (did [] k))
     (selftest_text online (unat (st_plain m)) (cpus * SELFTEST_N) (if online = cpus then 1 else 0))"
    using report_sends [OF assms(6), of "[]" 0 online m]
    by (simp only: ex lk v u klog_text_def if_True append_Nil2 append_assoc selftest_text_def)
  then have "\<exists>l. selftest_report 0 online m k = Some (did l k) \<and>
      uart_sent l = map of_char (selftest_text online (unat (st_plain m)) (cpus * SELFTEST_N) (if online = cpus then 1 else 0))"
    by (simp only: sends_def did_Nil append_Nil)
  with lk pl show ?thesis by blast
qed

text \<open>Two CPUs that load \<open>st_plain\<close> before either has stored lose one update.\<close>

lemma racy_test: "\<exists>m. test_reachable 2 SELFTEST_N m \<and> test_over 2 m \<and> st_plain m = of_nat (2 * SELFTEST_N - 1)"
proof -
  let ?m1 = "test_init\<lparr>pl_reg := (pl_reg test_init)(0 := 0), pl_loaded := (pl_loaded test_init)(0 := True)\<rparr>"
  let ?m2 = "?m1\<lparr>pl_reg := (pl_reg ?m1)(1 := 0), pl_loaded := (pl_loaded ?m1)(1 := True)\<rparr>"
  let ?m3 = "?m2\<lparr>st_plain := pl_reg ?m2 0 + 1, pl_loaded := (pl_loaded ?m2)(0 := False), pl_iter := (pl_iter ?m2)(0 := Suc (pl_iter ?m2 0))\<rparr>"
  let ?m4 = "?m3\<lparr>st_plain := pl_reg ?m3 1 + 1, pl_loaded := (pl_loaded ?m3)(1 := False), pl_iter := (pl_iter ?m3)(1 := Suc (pl_iter ?m3 1))\<rparr>"
  have "test_step SELFTEST_N 0 test_init ?m1"
    using test_step.load [of test_init 0 SELFTEST_N] by (simp add: test_init_def SELFTEST_N_def)
  then have r1: "test_reachable 2 SELFTEST_N ?m1" by (intro test_reachable.step [OF test_reachable.start]) auto
  have "test_step SELFTEST_N 1 ?m1 ?m2" using test_step.load [of ?m1 1 SELFTEST_N] by (simp add: test_init_def SELFTEST_N_def)
  then have r2: "test_reachable 2 SELFTEST_N ?m2" by (intro test_reachable.step [OF r1]) auto
  have "test_step SELFTEST_N 0 ?m2 ?m3" by (rule test_step.store) simp
  then have r3: "test_reachable 2 SELFTEST_N ?m3" by (intro test_reachable.step [OF r2]) auto
  have "test_step SELFTEST_N 1 ?m3 ?m4" by (rule test_step.store) simp
  then have r4: "test_reachable 2 SELFTEST_N ?m4" by (intro test_reachable.step [OF r3]) auto
  from plain_rounds [OF r4, of 0 "SELFTEST_N - 1"] obtain m5 where m5: "test_reachable 2 SELFTEST_N m5"
    "pl_iter m5 = (pl_iter ?m4)(0 := SELFTEST_N)" "st_plain m5 = of_nat SELFTEST_N" "pl_loaded m5 = pl_loaded ?m4" "locked m5 = selftest_init"
    "st_done m5 = (\<lambda>_. False)" by (auto simp: test_init_def SELFTEST_N_def)
  from plain_rounds [OF m5(1), of 1 "SELFTEST_N - 1"] m5 obtain m6 where m6: "test_reachable 2 SELFTEST_N m6"
    "pl_iter m6 0 = SELFTEST_N" "pl_iter m6 1 = SELFTEST_N" "st_plain m6 = of_nat (2 * SELFTEST_N - 1)" "locked m6 = selftest_init" "st_done m6 = (\<lambda>_. False)"
    by (auto simp: test_init_def SELFTEST_N_def)
  have "\<forall>c < 2. pl_iter m6 c = SELFTEST_N \<and> \<not> st_done m6 c" using m6 by (auto simp: less_2_cases_iff)
  from test_completes [OF m6(1,5) this] m6(4) show ?thesis by auto
qed

theorem selftest_verdict_witness:
  "\<exists>m l. test_reachable 2 SELFTEST_N m \<and> unat (st_plain m) = 399999 \<and> st_locked (locked m) = 400000 \<and>
     selftest_report 0 2 m boot_sample = Some (did l boot_sample) \<and>
     uart_sent l = map of_char (selftest_text 2 399999 400000 1)"
proof -
  obtain m where m: "test_reachable 2 SELFTEST_N m" "test_over 2 m" "st_plain m = of_nat (2 * SELFTEST_N - 1)" using racy_test by blast
  have pl: "unat (st_plain m) = 399999" unfolding m(3) by (simp add: SELFTEST_N_def)
  have "uart_ready boot_sample" using boot_sample_ok(2) by (simp add: uart_ready_def boot_ok_def)
  from selftest_verdict [OF m(1,2) _ _ _ this, of 2] pl obtain l where
    l: "st_locked (locked m) = of_nat (2 * SELFTEST_N)" "selftest_report 0 2 m boot_sample = Some (did l boot_sample)"
    "uart_sent l = map of_char (selftest_text 2 399999 (2 * SELFTEST_N) 1)" by (auto simp: MAX_CPUS_def)
  have n: "2 * SELFTEST_N = 400000" by (simp add: SELFTEST_N_def)
  from l(1) have "st_locked (locked m) = 400000" by (simp only: n) simp
  then show ?thesis using m(1) pl l(2) l(3) [unfolded n] by blast
qed

end
