(* ===== verification/Spec2Isabelle.thy ===== *)
theory Spec2Isabelle
  imports Sync_Objects Mutex Layout Debug System Start Pingpong Selftest
begin

text \<open>
  Verification of an AArch64 real-time kernel (\<open>src/kernel\<close>).

  \<^bold>\<open>The program.\<close> A bare-metal kernel for up to four CPUs. Tasks live in static control blocks with
  their own stacks and are scheduled from one run queue per CPU, either when the timer interrupt of the
  CPU fires or when a task yields or blocks. Semaphores, mutexes, event flags and bounded message queues
  block and wake tasks. CPU 0 finds a DMA accelerator on the PCI bus, starts the other CPUs through
  PSCI, places three worker tasks on the CPUs that came up and switches to the first; each worker submits one
  copy to the accelerator, waits on a semaphore that the completion interrupt posts, and checks the data.

  \<^bold>\<open>State.\<close> One record grows with the components: \<open>kernel\<close> (\<open>Kernel_State\<close>: task blocks, per-CPU data,
  run queues, lock words, CPU registers, memory, device history), \<open>sync_state\<close> (\<open>Sync\<close>: the
  synchronisation objects by address), \<open>accel_state\<close> (\<open>Accel\<close>: the rings), \<open>main_state\<close>
  (\<open>Dispatch\<close>: the globals of \<open>main.c\<close>), \<open>boot_state\<close> (\<open>Smp\<close>: the globals of \<open>smp.c\<close>),
  \<open>debug_state\<close> (\<open>Debug\<close>: the static variables of the debug build) and \<open>start_state\<close> (\<open>Start\<close>: exception levels and the
  registers of EL2). Every operation is a function of
  the record extended by anything, so it is used unchanged by the components above it. An operation is given the CPU \<open>c\<close> it runs on; \<open>None\<close> is a
  call that spins for ever on a taken lock, an access out of bounds or a signed overflow.

  \<^bold>\<open>Theories and sources.\<close>

  \<^item> \<open>Prelude\<close>: machine types, header constants, list, cyclic-index and word lemmas.
  \<^item> \<open>Spinlock\<close> (\<open>spinlock.h\<close>, the self test of \<open>smp.c\<close>): \<open>spin_lock\<close> and \<open>spin_unlock\<close> instruction
    by instruction on any number of CPUs, with exclusive monitors and event registers. Mutual exclusion, no
    lost wake-up, and the exact count of the locked loop of the self test, by invariants over reachable states.
  \<^item> \<open>Kernel_State\<close> (\<open>tcb.h\<close>, \<open>percpu.h\<close>, \<open>spinlock.h\<close>): the state and its primitives, with a lock
    as one CPU sees it. \<open>Spinlock\<close> shows that this view is right: alone, \<open>spin_lock\<close> returns exactly
    when the lock is free.
  \<^item> \<open>Context_Switch\<close> (\<open>switch.S\<close>, \<open>task.c\<close>): pushes, pops and the first frame of a task.
  \<^item> \<open>Layout\<close> (the structures of \<open>tcb.h\<close>, \<open>percpu.h\<close>, \<open>sync.h\<close> and of the C files): sizes and offsets by the rule of the ABI, the static
    assertions, and that the two structures \<open>main.c\<close> declares again agree with the originals.
  \<^item> \<open>Uart\<close> (\<open>uart.c\<close>) and \<open>Print\<close> (the line printers of \<open>main.c\<close> and \<open>smp.c\<close>): what is sent, and
    that no buffer overflows. The locale \<open>printer\<close> is the contract of everything that prints (it comes back, sends its text and changes
    nothing else); it is interpreted on \<open>uart_puts\<close>, \<open>klog\<close>, \<open>print_hexline\<close>, \<open>print_decline\<close> and \<open>put_hex\<close>, and the
    reports of \<open>Diag\<close>, \<open>Worker\<close> and \<open>Debug\<close> are verified against it.
  \<^item> \<open>Sched\<close>, \<open>Policy\<close>, \<open>Balance\<close>, \<open>Races\<close> (\<open>sched.c\<close>): run queues, the two selection policies, the
    tick, wake-up, \<open>yield\<close>, migration and load balancing. The locale \<open>select_policy\<close> is the interface
    \<open>sched_policy_t\<close> offers through its function pointer; it is interpreted on all three policy
    structures and carries \<open>pick_next_ready\<close> and \<open>yield\<close>. \<open>Balance\<close> has the invariant of all run queues over whole
    operations; \<open>Races\<close> splits selection, store to \<open>current\<close> and switch into steps of several
    CPUs, and shows both where two CPUs cannot share a stack and the interleaving where they do.
  \<^item> \<open>Sync\<close>, \<open>Semaphore\<close>, \<open>Mutex\<close>, \<open>Sync_Objects\<close> (\<open>sync.c\<close>, \<open>sync.h\<close>): the objects and their calls. Semaphores, which have a spinlock:
    conservation of tokens over every history on all CPUs, with the window between registration and switch. The other objects only mask the
    interrupts of one CPU. \<open>Mutex\<close> therefore splits the calls on a mutex into loads and stores, shows that the steps of a call that runs alone are
    the function of \<open>Sync\<close>, that a mutex used by one CPU is exclusive, and how two CPUs break it; \<open>Sync_Objects\<close> has the delivery of
    events and queues as an implementation of the locale \<open>bounded_fifo\<close>, for objects that the tasks of one CPU share.
  \<^item> \<open>Gic\<close> (\<open>gic.c\<close>), \<open>Pci\<close> (\<open>pci.c\<close>), \<open>Accel\<close> (\<open>accel.c\<close>): the drivers, every access recorded with
    address and width in the order it is made.
  \<^item> \<open>Dispatch\<close>, \<open>Irq\<close> (\<open>main.c\<close>): the table of waiting DMA requests, the dispatch of completions, the
    interrupt handlers of CPU 0 and of the secondaries.
  \<^item> \<open>Smp\<close> (\<open>smp.c\<close>, \<open>psci.c\<close>, \<open>psci.h\<close>): the PSCI call, the start of the secondaries seen from both sides, the CPU-bound
    test tasks and the report.
  \<^item> \<open>Pingpong\<close> and \<open>Selftest\<close> (\<open>smp.c\<close>): the two tests that run on several CPUs, as steps that interleave freely. Ping and pong
    over the semaphore operations, a wait being two steps: counters and absence of deadlock. The self test with its unprotected and its
    protected counter and the report of CPU 0.
  \<^item> \<open>Diag\<close>, \<open>Worker\<close>, \<open>Boot\<close> (\<open>main.c\<close>): switch history, stack checks, exception report; the workers, with the way of a request through
    submission, blocking, dispatch and the final report; the busy task and \<open>kernel_main\<close>.
  \<^item> \<open>Debug\<close> (the code under \<open>DEBUG_HOOKS\<close> in \<open>sched.c\<close>, \<open>sync.c\<close>, \<open>switch.S\<close> and \<open>main.c\<close>, and \<open>DISABLE_REAL_DMA\<close>):
    when its checks halt the machine, and that they change nothing otherwise.
  \<^item> \<open>Vectors\<close> (\<open>vectors.S\<close>): the vector table, and \<open>irq_el1h\<close> and \<open>sync_el1h\<close> as lists of instructions that are executed on the registers and the
    stack. An interrupted context comes back complete, through \<open>irq_handler\<close> and across a switch to other tasks and CPUs; the
    exception report shows the state at the exception.
  \<^item> \<open>Start\<close> (\<open>boot/boot.S\<close>): \<open>_start\<close> and \<open>secondary_start\<close> to the calls of \<open>kernel_main\<close> and \<open>secondary_main\<close>, with the
    clearing of the bss section and the stacks of the CPUs.
  \<^item> \<open>System\<close>: \<open>kernel_main\<close> and \<open>secondary_main\<close> together. The theorem at the end of this theory goes from reset to the
    first worker.

  \<^bold>\<open>What is a parameter.\<close> Devices (\<open>dev\<close>, a function of the history of accesses), the completion
  ring the device writes, the data it copies, the answers of the firmware, the addresses the linker assigns (\<open>image\<close>, \<open>link\<close>), what
  a C function leaves in the registers it may change, and
  the steps of other CPUs while CPU 0 waits for them (\<open>env\<close>). What a theorem relies on is a
  hypothesis over them: \<open>uart_live\<close> (the transmitter has room again after finitely many polls), \<open>cq_rest\<close>
  (the device is at rest while the ring is drained), \<open>pci_ids\<close> (what the slots report) and \<open>env_ok\<close>, each instantiated in a witness.

  \<^bold>\<open>Bounds and loops.\<close> CPU numbers, indices and task counts are natural numbers bounded by the arrays (4 CPUs, 8
  tasks per queue, 4 cells of a message queue, 3 requests); words keep their width where the code relies on it: command numbers,
  ring counters, EWMA loads, counters of interrupts. Scans are functions with a measure; loops that
  poll a device are \<open>partial_function (option)\<close> and shown to return; the two loops with a
  spin limit run on it and need no fuel.

  \<^bold>\<open>Not modelled.\<close> \<open>linker.ld\<close> and the \<open>Makefile\<close>, the host scripts under \<open>tools\<close>, the documents, and old copies of
  source files that are not compiled. The stack frames of C functions: where the assembly code and the C code meet, the stack pointer of
  the caller is the one the callee sees, so stack depth is not bounded here. The condition flags are followed across interrupts only; within the boot code the branches
  are decided by the comparison itself. Memory barriers have no effect here beyond the event they send: memory is
  sequentially consistent, and the acquire and release order of the lock is not weakened. The MMU is off, as in the kernel.
\<close>

section \<open>The system starts\<close>

lemma start_ok_cong:
  assumes "start_ok k" and "runqueues k' = runqueues k" "tcbs k' = tcbs k" "locks k' = locks k" "dev k' = dev k" "hv k' = hv k"
    "cpu_alive k' = cpu_alive k"
  shows "start_ok k'"
proof -
  have "sched_inv k'" by (rule sched_inv_cong [of k]) (use assms in \<open>simp_all add: start_ok_def\<close>)
  then show ?thesis using assms by (simp add: start_ok_def boot_ok_def uart_live_def)
qed

lemma pci_ids_cong: "dev k' = dev k \<Longrightarrow> pci_ids v d k' = pci_ids v d k"
  by (simp add: pci_ids_def)


text \<open>CPUs 2 and 3 come up, CPU 1 does not: the count of CPUs is 3, and so worker 1 is queued on CPU 1, where nothing runs it.\<close>

definition cold_sample :: start_state where
  "cold_sample = boot_state.extend start_sample (start_state.fields (\<lambda>_. \<lparr>el = 2, hcr_el2 = 0, sctlr_el1 = 0, spsr_el2 = 0, elr_el2 = 0\<rparr>))"

lemma cold_sample_ok: "start_ok cold_sample" "el (els cold_sample c) = 2"
  "pci_ids (\<lambda>s. if s = 2 then 0x1234 else 0xFFFF) (\<lambda>s. if s = 2 then 0xda00 else 0xFFFF) cold_sample"
proof -
  have f: "runqueues cold_sample = runqueues start_sample" "tcbs cold_sample = tcbs start_sample" "locks cold_sample = locks start_sample"
    "dev cold_sample = dev start_sample" "hv cold_sample = hv start_sample" "cpu_alive cold_sample = cpu_alive start_sample"
    by (simp_all add: cold_sample_def boot_state.extend_def start_state.fields_def)
  show "start_ok cold_sample" by (rule start_ok_cong [OF start_sample_ok f])
  show "el (els cold_sample c) = 2" by (simp add: cold_sample_def boot_state.extend_def start_state.fields_def)
  show "pci_ids (\<lambda>s. if s = 2 then 0x1234 else 0xFFFF) (\<lambda>s. if s = 2 then 0xda00 else 0xFFFF) cold_sample"
    unfolding pci_ids_cong [OF f(4)] by (rule start_sample_pci)
qed


end
